(* ===== verification/Prelude.thy ===== *)
theory Prelude
  imports Complex_Main "HOL-Library.Multiset"
begin

text \<open>
  Shared vocabulary of the development: the Python exceptions the simulation can raise
  (\<open>py_error\<close>), results as \<open>py_error + 'a\<close>, checked list operations with Python's
  semantics (\<open>py_get\<close> for \<open>xs[i]\<close>, \<open>py_set\<close> for \<open>xs[i] = v\<close>, \<open>py_remove\<close> for
  \<open>xs.remove(x)\<close>, \<open>py_max\<close> for \<open>max(xs)\<close>), the types of the model (nodes are
  indices, the topology is the list \<open>connection_lists\<close>, a distribution is a row of
  reals), and the generic list lemmas the component theories share.
\<close>

section \<open>Python errors and results\<close>

datatype py_error = IndexError | ValueError | ZeroDivisionError | SysExit | IOError

type_synonym 'a result = "py_error + 'a"

type_synonym node = nat
type_synonym adjacency = "node list list"
type_synonym dist = "real list"
type_synonym matrix = "real list list"

named_theorems py_simps \<open>evaluation rules of the checked Python list operations\<close>

definition py_get :: "'a list \<Rightarrow> nat \<Rightarrow> 'a result" where
  "py_get xs i = (if i < length xs then Inr (xs ! i) else Inl IndexError)"

definition py_set :: "'a list \<Rightarrow> nat \<Rightarrow> 'a \<Rightarrow> 'a list result" where
  "py_set xs i v = (if i < length xs then Inr (xs[i := v]) else Inl IndexError)"

definition py_remove :: "'a \<Rightarrow> 'a list \<Rightarrow> 'a list result" where
  "py_remove x xs = (if x \<in> set xs then Inr (remove1 x xs) else Inl ValueError)"

definition py_max :: "real list \<Rightarrow> real result" where
  "py_max xs = (case xs of [] \<Rightarrow> Inl ValueError | y # ys \<Rightarrow> Inr (fold max ys y))"

section \<open>Lemmas on the checked operations\<close>

lemma py_get_ok [simp, py_simps]: "i < length xs \<Longrightarrow> py_get xs i = Inr (xs ! i)"
  by (simp add: py_get_def)

lemma py_get_Inr_iff [py_simps]: "py_get xs i = Inr v \<longleftrightarrow> i < length xs \<and> v = xs ! i"
  by (auto simp: py_get_def)

lemma py_set_ok [simp, py_simps]: "i < length xs \<Longrightarrow> py_set xs i v = Inr (xs[i := v])"
  by (simp add: py_set_def)

lemma py_remove_ok [simp, py_simps]: "x \<in> set xs \<Longrightarrow> py_remove x xs = Inr (remove1 x xs)"
  by (simp add: py_remove_def)

lemma py_remove_err [simp, py_simps]: "x \<notin> set xs \<Longrightarrow> py_remove x xs = Inl ValueError"
  by (simp add: py_remove_def)

lemma py_remove_Inr_length: "py_remove x xs = Inr ys \<Longrightarrow> length ys < length xs"
  by (fastforce simp: py_remove_def length_remove1 split: if_splits dest: length_pos_if_in_set)

lemma py_max_Nil [simp, py_simps]: "py_max [] = Inl ValueError"
  by (simp add: py_max_def)

lemma fold_max_eq_Max: "fold max ys y = Max (set (y # ys))"
  by (metis Max.set_eq_fold)

lemma py_max_Cons [simp, py_simps]: "py_max (y # ys) = Inr (Max (set (y # ys)))"
  by (simp add: py_max_def fold_max_eq_Max)

section \<open>Generic list lemmas\<close>

text \<open>
  \<open>remove1\<close> removes the first occurrence; when no element before position \<open>k\<close>
  equals \<open>xs ! k\<close>, that first occurrence is the one at \<open>k\<close>.
\<close>

lemma remove1_at_index:
  assumes "k < length xs" and "\<forall>j<k. xs ! j \<noteq> xs ! k"
  shows "remove1 (xs ! k) xs = take k xs @ drop (Suc k) xs"
  using assms
proof (induction xs arbitrary: k)
  case Nil
  then show ?case by simp
next
  case (Cons y ys)
  show ?case
  proof (cases k)
    case 0
    then show ?thesis by simp
  next
    case (Suc k')
    with Cons.prems have "y \<noteq> ys ! k'" by force
    moreover from Cons.prems Suc have "\<forall>j<k'. ys ! j \<noteq> ys ! k'" by force
    ultimately show ?thesis using Cons.IH [of k'] Cons.prems Suc by simp
  qed
qed

lemma set_remove1_distinct [simp]: "distinct xs \<Longrightarrow> set (remove1 x xs) = set xs - {x}"
  by simp

lemma set_take_drop_Suc:
  "k < length xs \<Longrightarrow> set xs = set (take k xs) \<union> {xs ! k} \<union> set (drop (Suc k) xs)"
  by (metis Cons_nth_drop_Suc Un_insert_right append_take_drop_id insert_is_Un
      list.simps(15) set_append sup_commute)

lemma nth_in_take: "j < k \<Longrightarrow> j < length xs \<Longrightarrow> xs ! j \<in> set (take k xs)"
  by (metis in_set_conv_nth length_take min_less_iff_conj nth_take)

lemma in_take_nth: "y \<in> set (take k xs) \<Longrightarrow> \<exists>j<k. j < length xs \<and> xs ! j = y"
  by (auto simp: in_set_conv_nth)

lemma concat_map_memI: "x \<in> set (f a) \<Longrightarrow> a \<in> set xs \<Longrightarrow> x \<in> set (concat (map f xs))"
  by auto

lemma distinct_rotate3: "distinct (a @ b @ c) \<Longrightarrow> distinct (b @ c @ a)"
  by auto

section \<open>Loops that may raise\<close>

text \<open>
  A Python \<open>for\<close> loop whose body may raise: the body is applied element by element
  and the first exception ends the loop (\<open>fold_res\<close>); a comprehension or
  \<open>map\<close> whose element function may raise (\<open>map_res\<close>).
\<close>

fun fold_res :: "('b \<Rightarrow> 'a \<Rightarrow> 'a result) \<Rightarrow> 'b list \<Rightarrow> 'a \<Rightarrow> 'a result" where
  "fold_res f [] a = Inr a"
| "fold_res f (x # xs) a = (case f x a of Inl e \<Rightarrow> Inl e | Inr a' \<Rightarrow> fold_res f xs a')"

fun map_res :: "('a \<Rightarrow> 'b result) \<Rightarrow> 'a list \<Rightarrow> 'b list result" where
  "map_res f [] = Inr []"
| "map_res f (x # xs) =
     (case f x of Inl e \<Rightarrow> Inl e | Inr y \<Rightarrow> (case map_res f xs of Inl e \<Rightarrow> Inl e | Inr ys \<Rightarrow> Inr (y # ys)))"

lemma fold_res_invariant:
  assumes "P a" and "\<And>x a. x \<in> set xs \<Longrightarrow> P a \<Longrightarrow> \<exists>a'. f x a = Inr a' \<and> P a'"
  shows "\<exists>a'. fold_res f xs a = Inr a' \<and> P a'"
  using assms by (induction xs arbitrary: a) fastforce+

lemma fold_res_append:
  "fold_res f (xs @ ys) a = (case fold_res f xs a of Inl e \<Rightarrow> Inl e | Inr a' \<Rightarrow> fold_res f ys a')"
  by (induction xs arbitrary: a) (simp_all split: sum.split)

lemma fold_res_Inl_step: "fold_res f xs a = Inl e \<Longrightarrow> \<exists>x\<in>set xs. \<exists>b. f x b = Inl e"
  by (induction xs arbitrary: a) (fastforce split: sum.splits)+

lemma fold_res_Inl:
  assumes "x \<in> set xs" and "\<forall>b. f x b = Inl e" and "\<forall>y b e'. f y b = Inl e' \<longrightarrow> e' = e"
  shows "fold_res f xs a = Inl e"
  using assms(1)
proof (induction xs arbitrary: a)
  case (Cons y ys)
  show ?case
  proof (cases "f y a")
    case (Inl e')
    with assms(3) show ?thesis by simp
  next
    case (Inr a')
    with Cons assms(2) show ?thesis by auto
  qed
qed simp

lemma map_res_Inr:
  assumes "\<And>x. x \<in> set xs \<Longrightarrow> \<exists>y. f x = Inr y \<and> P x y"
  shows "\<exists>ys. map_res f xs = Inr ys \<and> length ys = length xs \<and> (\<forall>i<length xs. P (xs ! i) (ys ! i))"
  using assms
proof (induction xs)
  case Nil
  then show ?case by simp
next
  case (Cons x xs)
  then obtain y ys where "f x = Inr y" "P x y" "map_res f xs = Inr ys" "length ys = length xs"
    "\<forall>i<length xs. P (xs ! i) (ys ! i)" by fastforce
  then show ?case by (auto simp: nth_Cons split: nat.splits)
qed

lemma fold_res_Inr: "(\<forall>x\<in>set xs. \<forall>a. f x a = Inr (g x a)) \<Longrightarrow> fold_res f xs a = Inr (fold g xs a)"
  by (induction xs arbitrary: a) simp_all

end
