(* ===== verification/Topology.thy ===== *)
theory Topology
  imports Prelude
begin

text \<open>
  The network topology of \<open>probabilistic_convergence.py\<close>: node positions on the
  honeycomb lattice, the symmetric 0/1 matrix \<open>connections\<close> and the adjacency lists
  \<open>connection_lists\<close> derived from it (lines 81--100). \<open>wf_adjacency\<close> is the
  interface the other components rely on: \<open>net_size\<close> rows, each row duplicate-free,
  no self-loops, every index in range, and the relation symmetric. The construction is
  shown to produce exactly the honeycomb neighbour relation, and therefore a
  well-formed adjacency.
\<close>

section \<open>Construction of the topology\<close>

type_synonym position = "int \<times> int"

text \<open>
  Lines 86--90: two lattice positions are neighbours when one coordinate differs by one
  and the other by zero, or the two differences are \<open>1\<close> and \<open>-1\<close>.
\<close>

definition honeycomb_adjacent :: "position \<Rightarrow> position \<Rightarrow> bool" where
  "honeycomb_adjacent p q =
     (let diff_x = fst p - fst q; diff_y = snd p - snd q
      in \<bar>diff_x\<bar> + \<bar>diff_y\<bar> = 1 \<or> diff_x * diff_y = -1)"

text \<open>Lines 91--92: both entries of the pair are set to one.\<close>

definition connect :: "nat list list \<Rightarrow> nat \<Rightarrow> nat \<Rightarrow> nat list list" where
  "connect connections i j =
     (let c = connections[i := (connections ! i)[j := 1]] in c[j := (c ! j)[i := 1]])"

text \<open>
  Lines 84--92, the inner loop \<open>for j in range(i+1, net_size)\<close>; \<open>nodes[i]\<close> and
  \<open>nodes[j]\<close> raise \<open>IndexError\<close> when the file has fewer lines than \<open>net_size\<close>.
\<close>

definition connect_row :: "position list \<Rightarrow> nat \<Rightarrow> nat \<Rightarrow> nat list list \<Rightarrow> nat list list result" where
  "connect_row nodes net_size i connections =
     fold_res (\<lambda>j connections.
         case py_get nodes i of
           Inl e \<Rightarrow> Inl e
         | Inr p \<Rightarrow>
             (case py_get nodes j of
                Inl e \<Rightarrow> Inl e
              | Inr q \<Rightarrow> Inr (if honeycomb_adjacent p q then connect connections i j else connections)))
       [Suc i..<net_size] connections"

text \<open>Lines 82--92: the all-zero matrix and the outer loop over \<open>i\<close>.\<close>

definition connections_matrix :: "nat \<Rightarrow> position list \<Rightarrow> nat list list result" where
  "connections_matrix net_size nodes =
     fold_res (connect_row nodes net_size) [0..<net_size]
       (replicate net_size (replicate net_size 0))"

text \<open>Lines 95--100: row \<open>i\<close> lists the \<open>j\<close> with a non-zero entry, in increasing order.\<close>

definition connection_lists_of :: "nat \<Rightarrow> nat list list \<Rightarrow> adjacency" where
  "connection_lists_of net_size connections =
     map (\<lambda>i. filter (\<lambda>j. connections ! i ! j \<noteq> 0) [0..<net_size]) [0..<net_size]"

definition build_topology :: "nat \<Rightarrow> position list \<Rightarrow> adjacency result" where
  "build_topology net_size nodes =
     (case connections_matrix net_size nodes of
        Inl e \<Rightarrow> Inl e
      | Inr connections \<Rightarrow> Inr (connection_lists_of net_size connections))"

text \<open>
  The matrix view of adjacency lists, the inverse of \<open>connection_lists_of\<close>: entry
  \<open>(i, j)\<close> is one exactly when \<open>j\<close> is listed for \<open>i\<close>.
\<close>

definition matrix_of_lists :: "nat \<Rightarrow> adjacency \<Rightarrow> nat list list" where
  "matrix_of_lists n conn = map (\<lambda>i. map (\<lambda>j. if j \<in> set (conn ! i) then 1 else 0) [0..<n]) [0..<n]"

section \<open>Well-formed adjacency lists\<close>

definition wf_adjacency :: "nat \<Rightarrow> adjacency \<Rightarrow> bool" where
  "wf_adjacency n conn \<longleftrightarrow> length conn = n \<and>
     (\<forall>i<n. distinct (conn ! i) \<and> i \<notin> set (conn ! i) \<and>
            (\<forall>j\<in>set (conn ! i). j < n \<and> i \<in> set (conn ! j)))"

text \<open>
  The reference matrix: entry \<open>(a, b)\<close> is one exactly when \<open>a \<noteq> b\<close> and the two
  positions are neighbours, restricted to the pairs \<open>done a b\<close> already visited.
\<close>

definition matrix_upto :: "nat \<Rightarrow> position list \<Rightarrow> (nat \<Rightarrow> nat \<Rightarrow> bool) \<Rightarrow> nat list list \<Rightarrow> bool" where
  "matrix_upto n nodes done c \<longleftrightarrow> length c = n \<and>
     (\<forall>a<n. length (c ! a) = n \<and>
        (\<forall>b<n. c ! a ! b = (if a \<noteq> b \<and> honeycomb_adjacent (nodes ! a) (nodes ! b) \<and> done a b
                            then 1 else 0)))"

lemma wf_adjacency_length: "wf_adjacency n conn \<Longrightarrow> length conn = n"
  unfolding wf_adjacency_def by (elim conjE)

lemma wf_adjacency_distinct: "wf_adjacency n conn \<Longrightarrow> i < n \<Longrightarrow> distinct (conn ! i)"
  unfolding wf_adjacency_def by blast

lemma wf_adjacency_irrefl: "wf_adjacency n conn \<Longrightarrow> i < n \<Longrightarrow> i \<notin> set (conn ! i)"
  unfolding wf_adjacency_def by blast

lemma wf_adjacency_range:
  "wf_adjacency n conn \<Longrightarrow> i < n \<Longrightarrow> j \<in> set (conn ! i) \<Longrightarrow> j < n"
  unfolding wf_adjacency_def by blast

lemma wf_adjacency_sym:
  "wf_adjacency n conn \<Longrightarrow> i < n \<Longrightarrow> j \<in> set (conn ! i) \<Longrightarrow> i \<in> set (conn ! j)"
  unfolding wf_adjacency_def by blast

lemmas wf_adjacency_facts =
  wf_adjacency_length wf_adjacency_distinct wf_adjacency_irrefl wf_adjacency_range
  wf_adjacency_sym

section \<open>The construction computes the neighbour relation\<close>

lemma honeycomb_adjacent_sym: "honeycomb_adjacent p q = honeycomb_adjacent q p"
proof -
  have "(fst p - fst q) * (snd p - snd q) = (fst q - fst p) * (snd q - snd p)"
    by (simp add: algebra_simps)
  moreover have "\<bar>fst p - fst q\<bar> = \<bar>fst q - fst p\<bar>" "\<bar>snd p - snd q\<bar> = \<bar>snd q - snd p\<bar>"
    by (rule abs_minus_commute)+
  ultimately show ?thesis by (simp add: honeycomb_adjacent_def Let_def)
qed

lemma honeycomb_adjacent_irrefl: "\<not> honeycomb_adjacent p p"
  by (simp add: honeycomb_adjacent_def)

lemma connect_nth:
  assumes "length c = n" "\<forall>a<n. length (c ! a) = n" "i < n" "j < n" "i \<noteq> j"
  shows "length (connect c i j) = n" "\<forall>a<n. length (connect c i j ! a) = n"
    "\<forall>a<n. \<forall>b<n. connect c i j ! a ! b = (if (a = i \<and> b = j) \<or> (a = j \<and> b = i) then 1 else c ! a ! b)"
  using assms by (auto simp: connect_def Let_def nth_list_update)

lemma matrix_uptoD:
  assumes "matrix_upto n nodes P c"
  shows "length c = n" "a < n \<Longrightarrow> length (c ! a) = n"
    "a < n \<Longrightarrow> b < n \<Longrightarrow>
       c ! a ! b = (if a \<noteq> b \<and> honeycomb_adjacent (nodes ! a) (nodes ! b) \<and> P a b then 1 else 0)"
  using assms unfolding matrix_upto_def by blast+

lemma matrix_upto_cong:
  assumes "matrix_upto n nodes P c" and "\<forall>a<n. \<forall>b<n. a \<noteq> b \<longrightarrow> P a b = Q a b"
  shows "matrix_upto n nodes Q c"
  using assms unfolding matrix_upto_def by auto

lemma matrix_upto_step:
  assumes m: "matrix_upto n nodes P c" and ij: "i < j" "j < n"
  shows "matrix_upto n nodes (\<lambda>a b. P a b \<or> (min a b = i \<and> max a b = j))
           (if honeycomb_adjacent (nodes ! i) (nodes ! j) then connect c i j else c)"
proof (cases "honeycomb_adjacent (nodes ! i) (nodes ! j)")
  case True
  note M = matrix_uptoD [OF m]
  from ij have "i < n" "i \<noteq> j" by simp_all
  note C = connect_nth [OF M(1) allI [OF impI [OF M(2)]] this(1) ij(2) this(2)]
  have "connect c i j ! a ! b =
          (if a \<noteq> b \<and> honeycomb_adjacent (nodes ! a) (nodes ! b) \<and> (P a b \<or> (min a b = i \<and> max a b = j))
           then 1 else 0)" if ab: "a < n" "b < n" for a b
  proof (cases "(a = i \<and> b = j) \<or> (a = j \<and> b = i)")
    case True
    with C(3) ab ij \<open>honeycomb_adjacent (nodes ! i) (nodes ! j)\<close> show ?thesis
      by (auto simp: honeycomb_adjacent_sym)
  next
    case False
    with ij have "\<not> (min a b = i \<and> max a b = j)" by (auto simp: min_def max_def split: if_splits)
    moreover from False C(3) ab have "connect c i j ! a ! b = c ! a ! b" by auto
    ultimately show ?thesis using M(3) ab by simp
  qed
  with C(1,2) True show ?thesis by (simp add: matrix_upto_def)
next
  case False
  note M = matrix_uptoD [OF m]
  have "c ! a ! b =
          (if a \<noteq> b \<and> honeycomb_adjacent (nodes ! a) (nodes ! b) \<and> (P a b \<or> (min a b = i \<and> max a b = j))
           then 1 else 0)" if ab: "a < n" "b < n" for a b
  proof (cases "min a b = i \<and> max a b = j")
    case True
    with ij have "(a = i \<and> b = j) \<or> (a = j \<and> b = i)" by (auto simp: min_def max_def split: if_splits)
    with False M(3) ab show ?thesis by (auto simp: honeycomb_adjacent_sym)
  next
    case False
    with M(3) ab show ?thesis by simp
  qed
  with M(1,2) False show ?thesis by (simp add: matrix_upto_def)
qed

lemma connect_row_eq:
  "i < n \<Longrightarrow> n \<le> length nodes \<Longrightarrow>
     connect_row nodes n i c =
       Inr (fold (\<lambda>j c. if honeycomb_adjacent (nodes ! i) (nodes ! j) then connect c i j else c)
              [Suc i..<n] c)"
  unfolding connect_row_def by (rule fold_res_Inr) auto

lemma fold_connect_row:
  assumes i: "i < n" and c: "matrix_upto n nodes (\<lambda>a b. min a b < i) c"
  shows "matrix_upto n nodes (\<lambda>a b. min a b < Suc i)
           (fold (\<lambda>j c. if honeycomb_adjacent (nodes ! i) (nodes ! j) then connect c i j else c)
              [Suc i..<n] c)"
proof -
  let ?g = "\<lambda>j c. if honeycomb_adjacent (nodes ! i) (nodes ! j) then connect c i j else c"
  have "Suc i \<le> m \<Longrightarrow> m \<le> n \<Longrightarrow>
          matrix_upto n nodes (\<lambda>a b. min a b < i \<or> (min a b = i \<and> max a b < m)) (fold ?g [Suc i..<m] c)"
    for m
  proof (induction m)
    case (Suc m)
    show ?case
    proof (cases "m = i")
      case True
      have "\<forall>a<n. \<forall>b<n. a \<noteq> b \<longrightarrow> (min a b < i) = (min a b < i \<or> (min a b = i \<and> max a b < Suc m))"
        using True by (auto simp: min_def max_def)
      from matrix_upto_cong [OF c this] True show ?thesis by simp
    next
      case False
      with Suc.prems have m: "Suc i \<le> m" "m < n" by simp_all
      from m(1) have im: "i < m" by simp
      from matrix_upto_step [OF Suc.IH [OF m(1) less_imp_le [OF m(2)]] im m(2)]
      have "matrix_upto n nodes (\<lambda>a b. (min a b < i \<or> (min a b = i \<and> max a b < m)) \<or>
              (min a b = i \<and> max a b = m)) (?g m (fold ?g [Suc i..<m] c))" .
      moreover have "\<forall>a<n. \<forall>b<n. a \<noteq> b \<longrightarrow>
          ((min a b < i \<or> (min a b = i \<and> max a b < m)) \<or> (min a b = i \<and> max a b = m)) =
          (min a b < i \<or> (min a b = i \<and> max a b < Suc m))" by auto
      ultimately show ?thesis using m(1) by (simp add: matrix_upto_cong)
    qed
  qed simp
  from this [of n] i have "matrix_upto n nodes (\<lambda>a b. min a b < i \<or> (min a b = i \<and> max a b < n))
      (fold ?g [Suc i..<n] c)" by simp
  moreover have "\<forall>a<n. \<forall>b<n. a \<noteq> b \<longrightarrow>
      (min a b < i \<or> (min a b = i \<and> max a b < n)) = (min a b < Suc i)"
    by (auto simp: min_def max_def)
  ultimately show ?thesis by (rule matrix_upto_cong)
qed

lemma connections_matrix_upto:
  assumes "n \<le> length nodes"
  shows "\<exists>c. connections_matrix n nodes = Inr c \<and> matrix_upto n nodes (\<lambda>a b. True) c"
proof -
  let ?g = "\<lambda>i c. fold (\<lambda>j c. if honeycomb_adjacent (nodes ! i) (nodes ! j) then connect c i j else c)
                   [Suc i..<n] c"
  let ?z = "replicate n (replicate n (0::nat))"
  have eq: "connections_matrix n nodes = Inr (fold ?g [0..<n] ?z)"
    unfolding connections_matrix_def using assms by (intro fold_res_Inr) (simp add: connect_row_eq)
  have "k \<le> n \<Longrightarrow> matrix_upto n nodes (\<lambda>a b. min a b < k) (fold ?g [0..<k] ?z)" for k
  proof (induction k)
    case 0
    then show ?case by (simp add: matrix_upto_def)
  next
    case (Suc k)
    then have "matrix_upto n nodes (\<lambda>a b. min a b < k) (fold ?g [0..<k] ?z)" by simp
    from fold_connect_row [OF _ this] Suc.prems show ?case by simp
  qed
  from this [of n] have "matrix_upto n nodes (\<lambda>a b. min a b < n) (fold ?g [0..<n] ?z)" by simp
  then have "matrix_upto n nodes (\<lambda>a b. True) (fold ?g [0..<n] ?z)"
    by (rule matrix_upto_cong) (simp add: min_def)
  with eq show ?thesis by blast
qed

lemma connection_lists_of_upto:
  assumes "matrix_upto n nodes (\<lambda>a b. True) c"
  shows "length (connection_lists_of n c) = n"
    "i < n \<Longrightarrow> connection_lists_of n c ! i =
       filter (\<lambda>j. j \<noteq> i \<and> honeycomb_adjacent (nodes ! i) (nodes ! j)) [0..<n]"
proof -
  show "length (connection_lists_of n c) = n" by (simp add: connection_lists_of_def)
  assume i: "i < n"
  have "filter (\<lambda>j. c ! i ! j \<noteq> 0) [0..<n] =
          filter (\<lambda>j. j \<noteq> i \<and> honeycomb_adjacent (nodes ! i) (nodes ! j)) [0..<n]"
    using matrix_uptoD(3) [OF assms i] by (intro filter_cong) auto
  with i show "connection_lists_of n c ! i =
       filter (\<lambda>j. j \<noteq> i \<and> honeycomb_adjacent (nodes ! i) (nodes ! j)) [0..<n]"
    by (simp add: connection_lists_of_def)
qed

lemma build_topology_ok:
  assumes "n \<le> length nodes"
  shows "\<exists>conn. build_topology n nodes = Inr conn \<and> wf_adjacency n conn \<and>
           (\<forall>i<n. conn ! i = filter (\<lambda>j. j \<noteq> i \<and> honeycomb_adjacent (nodes ! i) (nodes ! j)) [0..<n])"
proof -
  from connections_matrix_upto [OF assms] obtain c where
    c: "connections_matrix n nodes = Inr c" "matrix_upto n nodes (\<lambda>a b. True) c" by blast
  note L = connection_lists_of_upto [OF c(2)]
  let ?conn = "connection_lists_of n c"
  have "wf_adjacency n ?conn"
    unfolding wf_adjacency_def using L by (auto simp: honeycomb_adjacent_sym)
  with c(1) L show ?thesis by (auto simp: build_topology_def)
qed

lemma connect_row_errors:
  "connect_row nodes n i c = Inl e \<Longrightarrow> e = IndexError"
  unfolding connect_row_def
  by (drule fold_res_Inl_step) (auto simp: py_get_def split: if_splits)

lemma connect_row_short:
  assumes "length nodes < n" and "Suc i < n"
  shows "connect_row nodes n i c = Inl IndexError"
  unfolding connect_row_def
proof (rule fold_res_Inl [of "n - 1"])
  show "n - 1 \<in> set [Suc i..<n]" using assms(2) by simp
qed (use assms(1) in \<open>auto simp: py_get_def split: sum.splits\<close>)

section \<open>Properties of the construction\<close>

text \<open>
  C18. The construction computes the honeycomb neighbour relation: when the file has
  at least \<open>net_size\<close> positions, \<open>connection_lists[i]\<close> lists, in increasing order,
  the other nodes whose positions are lattice neighbours of node \<open>i\<close>'s, and the
  result is a well-formed adjacency (symmetric, no self-loops, in range, no
  duplicates).
\<close>

theorem build_topology_neighbours:
  assumes "net_size \<le> length nodes"
  shows "\<exists>conn. build_topology net_size nodes = Inr conn \<and> wf_adjacency net_size conn \<and>
           (\<forall>i<net_size. conn ! i =
              filter (\<lambda>j. j \<noteq> i \<and> honeycomb_adjacent (nodes ! i) (nodes ! j)) [0..<net_size])"
  using build_topology_ok [OF assms] .

theorem build_topology_neighbours_witness:
  "3 \<le> length [(0, 0), (1, 0), (5, 5) :: position] \<and>
   (\<exists>conn. build_topology 3 [(0, 0), (1, 0), (5, 5)] = Inr conn \<and> wf_adjacency 3 conn \<and>
      (\<forall>i<3. conn ! i = filter (\<lambda>j. j \<noteq> i \<and> honeycomb_adjacent ([(0, 0), (1, 0), (5, 5)] ! i)
                                      ([(0, 0), (1, 0), (5, 5)] ! j)) [0..<3]))"
  using build_topology_neighbours [of 3 "[(0, 0), (1, 0), (5, 5)]"] by simp

text \<open>
  C19. \<open>net_size\<close> is parsed from the file name, not counted from the file (line 66):
  with at least two nodes and fewer positions in the file than \<open>net_size\<close>, the
  construction raises \<open>IndexError\<close>.
\<close>

theorem build_topology_short_file:
  assumes "2 \<le> net_size" and "length nodes < net_size"
  shows "build_topology net_size nodes = Inl IndexError"
proof -
  have "connections_matrix net_size nodes = Inl IndexError"
    unfolding connections_matrix_def
  proof (rule fold_res_Inl [of 0])
    show "0 \<in> set [0..<net_size]" using assms(1) by simp
    show "\<forall>b. connect_row nodes net_size 0 b = Inl IndexError"
      using assms by (simp add: connect_row_short)
  qed (auto dest: connect_row_errors)
  then show ?thesis by (simp add: build_topology_def)
qed

theorem build_topology_short_file_witness:
  "build_topology 3 [(0, 0), (1, 0)] = Inl IndexError"
  using build_topology_short_file [of 3 "[(0, 0), (1, 0)]"] by simp

section \<open>The matrix and the lists carry the same information\<close>

lemma sorted_distinct_eq:
  assumes "sorted xs" "distinct xs" "sorted ys" "distinct ys" "set xs = set ys"
  shows "xs = ys"
  using assms by (metis sorted_distinct_set_unique)

text \<open>
  Round trip from the matrix: for a square 0/1 matrix, listing the non-zero
  entries of each row (lines 95--100) and rebuilding the matrix gives the matrix back.
\<close>

theorem matrix_lists_roundtrip:
  assumes "length c = n" and "\<forall>i<n. length (c ! i) = n \<and> (\<forall>j<n. c ! i ! j \<in> {0, 1})"
  shows "matrix_of_lists n (connection_lists_of n c) = c"
proof (rule nth_equalityI)
  show "length (matrix_of_lists n (connection_lists_of n c)) = length c"
    using assms(1) by (simp add: matrix_of_lists_def)
  fix i assume "i < length (matrix_of_lists n (connection_lists_of n c))"
  then have i: "i < n" by (simp add: matrix_of_lists_def)
  with assms have row: "length (c ! i) = n" "\<forall>j<n. c ! i ! j \<in> {0, 1}" by simp_all
  have "map (\<lambda>j. if j \<in> set (connection_lists_of n c ! i) then 1 else 0) [0..<n] = c ! i"
  proof (rule nth_equalityI)
    fix j assume "j < length (map (\<lambda>j. if j \<in> set (connection_lists_of n c ! i) then 1 else 0) [0..<n])"
    then have j: "j < n" by simp
    with row(2) have "c ! i ! j = 0 \<or> c ! i ! j = 1" by auto
    with i j show "map (\<lambda>j. if j \<in> set (connection_lists_of n c ! i) then 1 else 0) [0..<n] ! j = c ! i ! j"
      by (auto simp: connection_lists_of_def)
  qed (simp add: row(1))
  with i show "matrix_of_lists n (connection_lists_of n c) ! i = c ! i"
    by (simp add: matrix_of_lists_def)
qed

theorem matrix_lists_roundtrip_witness:
  "matrix_of_lists 2 (connection_lists_of 2 [[0, 1], [1, 0]]) = [[0, 1], [1, 0]]"
  using matrix_lists_roundtrip [of "[[0, 1], [1, 0]]" 2]
  by (simp add: numeral_2_eq_2 less_Suc_eq)

text \<open>
  Round trip from the lists: for adjacency lists in increasing order, without
  duplicates and in range, as \<open>connection_lists\<close> always is, building the matrix and
  listing it again gives the lists back.
\<close>

theorem lists_matrix_roundtrip:
  assumes "length conn = n"
    and "\<forall>i<n. sorted (conn ! i) \<and> distinct (conn ! i) \<and> (\<forall>j\<in>set (conn ! i). j < n)"
  shows "connection_lists_of n (matrix_of_lists n conn) = conn"
proof (rule nth_equalityI)
  show "length (connection_lists_of n (matrix_of_lists n conn)) = length conn"
    using assms(1) by (simp add: connection_lists_of_def)
  fix i assume "i < length (connection_lists_of n (matrix_of_lists n conn))"
  then have i: "i < n" by (simp add: connection_lists_of_def)
  have "filter (\<lambda>j. matrix_of_lists n conn ! i ! j \<noteq> 0) [0..<n] = filter (\<lambda>j. j \<in> set (conn ! i)) [0..<n]"
    using i by (intro filter_cong) (simp_all add: matrix_of_lists_def)
  also have "\<dots> = conn ! i"
  proof (rule sorted_distinct_eq)
    show "set (filter (\<lambda>j. j \<in> set (conn ! i)) [0..<n]) = set (conn ! i)"
      using assms(2) i by auto
  qed (use assms(2) i in \<open>auto intro: sorted_wrt_filter\<close>)
  finally show "connection_lists_of n (matrix_of_lists n conn) ! i = conn ! i"
    using i by (simp add: connection_lists_of_def)
qed

theorem lists_matrix_roundtrip_witness:
  "connection_lists_of 3 (matrix_of_lists 3 [[1], [0, 2], [1]]) = [[1], [0, 2], [1]]"
  using lists_matrix_roundtrip [of "[[1], [0, 2], [1]]" 3]
  by (simp add: numeral_3_eq_3 less_Suc_eq)

end
