(* ===== verification/Subgroups.thy ===== *)
theory Subgroups
  imports Topology
begin

text \<open>
  The subgroup detector of \<open>probabilistic_convergence.py\<close> (lines 214--266): the
  pool-draining search that splits the nodes into subgroups, maximal connected sets of
  nodes that share their dominant decision, and the assignment of each node's subgroup
  size with its consistency check. \<open>deci_domi\<close> is a list of decision indices.
\<close>

section \<open>The search, as the source writes it\<close>

text \<open>
  Lines 241--247: the neighbours of a new member that are not yet potential members,
  not in the current subgroup and still in the pool are appended to \<open>p_members\<close>, in
  order; the membership test is against the growing list.
\<close>

fun add_candidates :: "node list \<Rightarrow> node list \<Rightarrow> node list \<Rightarrow> node list \<Rightarrow> node list" where
  "add_candidates [] subgroup_temp n_pool p_members = p_members"
| "add_candidates (m # ms) subgroup_temp n_pool p_members =
     add_candidates ms subgroup_temp n_pool
       (if m \<notin> set p_members \<and> m \<notin> set subgroup_temp \<and> m \<in> set n_pool
        then p_members @ [m] else p_members)"

text \<open>
  Lines 232--251, the inner \<open>while p_index < len(p_members)\<close> loop. A member with the
  subgroup's decision is removed from \<open>p_members\<close> (\<open>remove\<close> drops the first
  occurrence; it is present, so this cannot fail) and from \<open>n_pool\<close> (which raises
  \<open>ValueError\<close> when it is not there), joins the subgroup and brings its neighbours in;
  \<open>p_index\<close> stays. Otherwise \<open>p_index\<close> moves past the boundary node. Each call
  either shrinks the pool or the unscanned part of \<open>p_members\<close>.
\<close>

function member_search ::
  "adjacency \<Rightarrow> nat list \<Rightarrow> nat \<Rightarrow> node list \<Rightarrow> node list \<Rightarrow> node list \<Rightarrow> nat
   \<Rightarrow> (node list \<times> node list) result" where
  "member_search conn deci_domi current_domi n_pool subgroup_temp p_members p_index =
     (if p_index < length p_members then
        (case py_get deci_domi (p_members ! p_index) of
           Inl e \<Rightarrow> Inl e
         | Inr d \<Rightarrow>
             (if d = current_domi then
                (let new_member = p_members ! p_index;
                     p_members' = remove1 new_member p_members
                 in case py_remove new_member n_pool of
                      Inl e \<Rightarrow> Inl e
                    | Inr n_pool' \<Rightarrow>
                        (let subgroup' = subgroup_temp @ [new_member]
                         in case py_get conn new_member of
                              Inl e \<Rightarrow> Inl e
                            | Inr p_members_new \<Rightarrow>
                                member_search conn deci_domi current_domi n_pool' subgroup'
                                  (add_candidates p_members_new subgroup' n_pool' p_members')
                                  p_index))
              else member_search conn deci_domi current_domi n_pool subgroup_temp p_members
                     (Suc p_index)))
      else Inr (n_pool, subgroup_temp))"
  by pat_completeness auto
termination
  by (relation "measures [\<lambda>(conn, dd, c, pool, sg, pm, k). length pool,
                          \<lambda>(conn, dd, c, pool, sg, pm, k). length pm - k]")
     (simp_all, blast dest: py_remove_Inr_length)

declare member_search.simps [simp del]

lemma member_search_pool_length:
  "member_search conn dd c pool sg pm k = Inr (pool', sg') \<Longrightarrow> length pool' \<le> length pool"
proof (induction conn dd c pool sg pm k rule: member_search.induct)
  case (1 conn dd c pool sg pm k)
  note ms = member_search.simps [of conn dd c pool sg pm k]
  show ?case
  proof (cases "k < length pm")
    case False
    with "1.prems" show ?thesis by (simp add: ms)
  next
    case True
    show ?thesis
    proof (cases "py_get dd (pm ! k)")
      case (Inl e)
      with "1.prems" True show ?thesis by (simp add: ms)
    next
      case (Inr d)
      show ?thesis
      proof (cases "d = c")
        case False
        with "1.prems" True Inr "1.IH"(2) [OF True Inr False] show ?thesis by (simp add: ms)
      next
        case dc: True
        show ?thesis
        proof (cases "py_remove (pm ! k) pool")
          case (Inl e)
          with "1.prems" True Inr dc show ?thesis by (simp add: ms)
        next
          case rem: (Inr pool1)
          show ?thesis
          proof (cases "py_get conn (pm ! k)")
            case (Inl e)
            with "1.prems" True Inr dc rem show ?thesis by (simp add: ms)
          next
            case gc: (Inr ns)
            from "1.prems" True Inr dc rem gc
              "1.IH"(1) [OF True Inr dc refl refl rem refl gc] py_remove_Inr_length [OF rem]
            show ?thesis by (simp add: ms Let_def)
          qed
        qed
      qed
    qed
  qed
qed

text \<open>
  Lines 219--254, the outer \<open>while len(n_pool) != 0\<close> loop: the first node of the pool
  starts a subgroup, its neighbours are the first potential members, and the finished
  subgroup is appended to \<open>subgroups\<close>.
\<close>

function find_subgroups ::
  "adjacency \<Rightarrow> nat list \<Rightarrow> node list \<Rightarrow> node list list \<Rightarrow> node list list result" where
  "find_subgroups conn deci_domi n_pool subgroups =
     (case n_pool of
        [] \<Rightarrow> Inr subgroups
      | first_member # n_pool' \<Rightarrow>
          (case py_get conn first_member of
             Inl e \<Rightarrow> Inl e
           | Inr p_members \<Rightarrow>
               (case py_get deci_domi first_member of
                  Inl e \<Rightarrow> Inl e
                | Inr current_domi \<Rightarrow>
                    (case member_search conn deci_domi current_domi n_pool' [first_member]
                            p_members 0 of
                       Inl e \<Rightarrow> Inl e
                     | Inr (n_pool'', subgroup_temp) \<Rightarrow>
                         find_subgroups conn deci_domi n_pool'' (subgroups @ [subgroup_temp])))))"
  by pat_completeness auto
termination
  by (relation "measure (\<lambda>(conn, dd, pool, sgs). length pool)")
     (auto dest!: member_search_pool_length)

declare find_subgroups.simps [simp del]

text \<open>Lines 215--217: the search starts from \<open>range(net_size)\<close> and no subgroup.\<close>

definition update_subgroups :: "nat \<Rightarrow> adjacency \<Rightarrow> nat list \<Rightarrow> node list list result" where
  "update_subgroups net_size conn deci_domi = find_subgroups conn deci_domi [0..<net_size] []"

section \<open>Subgroup sizes\<close>

text \<open>
  Lines 259--263: every member \<open>i\<close> of a subgroup gets the subgroup's size
  (\<open>subsizes[i] = size_temp\<close>, an \<open>IndexError\<close> out of range) and is removed from
  \<open>traverse_list\<close> (a \<open>ValueError\<close> if it was removed before).
\<close>

fun assign_members :: "node list \<Rightarrow> nat \<Rightarrow> nat list \<Rightarrow> node list \<Rightarrow> (nat list \<times> node list) result" where
  "assign_members [] size_temp subsizes traverse_list = Inr (subsizes, traverse_list)"
| "assign_members (i # is) size_temp subsizes traverse_list =
     (case py_set subsizes i size_temp of
        Inl e \<Rightarrow> Inl e
      | Inr subsizes' \<Rightarrow>
          (case py_remove i traverse_list of
             Inl e \<Rightarrow> Inl e
           | Inr traverse_list' \<Rightarrow> assign_members is size_temp subsizes' traverse_list'))"

fun assign_sizes :: "node list list \<Rightarrow> nat list \<Rightarrow> node list \<Rightarrow> (nat list \<times> node list) result" where
  "assign_sizes [] subsizes traverse_list = Inr (subsizes, traverse_list)"
| "assign_sizes (sub # subs) subsizes traverse_list =
     (case assign_members sub (length sub) subsizes traverse_list of
        Inl e \<Rightarrow> Inl e
      | Inr (subsizes', traverse_list') \<Rightarrow> assign_sizes subs subsizes' traverse_list')"

text \<open>
  Lines 256--266: after the assignment, a node left in \<open>traverse_list\<close> stops the
  program (\<open>print\<close> and \<open>sys.exit()\<close>).
\<close>

definition update_subsizes :: "nat \<Rightarrow> node list list \<Rightarrow> nat list \<Rightarrow> nat list result" where
  "update_subsizes net_size subgroups subsizes =
     (case assign_sizes subgroups subsizes [0..<net_size] of
        Inl e \<Rightarrow> Inl e
      | Inr (subsizes', traverse_list) \<Rightarrow>
          (if traverse_list \<noteq> [] then Inl SysExit else Inr subsizes'))"


section \<open>What the search computes\<close>

text \<open>
  The specification: two nodes are joined by a same-decision step when they are
  adjacent and share their dominant decision; the subgroup of a node is the set of nodes
  it reaches by such steps (its connected component in the subgraph that keeps only the
  edges between nodes of equal decision). A group is closed when no same-decision
  edge leaves it.
\<close>

definition same_step :: "adjacency \<Rightarrow> nat list \<Rightarrow> (node \<times> node) set" where
  "same_step conn domi =
     {(x, y). x < length conn \<and> y \<in> set (conn ! x) \<and> domi ! y = domi ! x}"

definition component :: "adjacency \<Rightarrow> nat list \<Rightarrow> node \<Rightarrow> node set" where
  "component conn domi x = {y. (x, y) \<in> (same_step conn domi)\<^sup>*}"

definition closed_group :: "adjacency \<Rightarrow> nat list \<Rightarrow> node list \<Rightarrow> bool" where
  "closed_group conn domi g \<longleftrightarrow>
     (\<forall>x\<in>set g. \<forall>y\<in>set (conn ! x). domi ! y = domi ! x \<longrightarrow> y \<in> set g)"

section \<open>Loop invariants\<close>

text \<open>
  \<open>search_inv\<close> is the invariant of the inner loop while the subgroup of \<open>f\<close>
  (decision \<open>c\<close>) is grown: the subgroup, the pool and the finished subgroups
  partition the nodes; the members have decision \<open>c\<close> and are reachable from
  \<open>f\<close>; every potential member is a neighbour of a member and not a member itself;
  the scanned prefix \<open>p_members[:p_index]\<close> holds only boundary nodes; and every
  same-decision neighbour of a member is a member or a potential member. Nodes outside
  the pool belong to finished, closed subgroups (\<open>search_ctx\<close>), which with the
  symmetry of the adjacency is why \<open>n_pool.remove\<close> never fails.
\<close>

definition search_inv ::
  "nat \<Rightarrow> adjacency \<Rightarrow> nat list \<Rightarrow> nat \<Rightarrow> node \<Rightarrow> node list list
   \<Rightarrow> node list \<Rightarrow> node list \<Rightarrow> node list \<Rightarrow> nat \<Rightarrow> bool" where
  "search_inv n conn domi c f gs pool sg pm k \<longleftrightarrow>
     distinct (sg @ pool @ concat gs) \<and> set (sg @ pool @ concat gs) = {..<n} \<and>
     hd sg = f \<and> sg \<noteq> [] \<and>
     (\<forall>x\<in>set sg. domi ! x = c \<and> x \<in> component conn domi f) \<and>
     (\<forall>y\<in>set pm. \<exists>x\<in>set sg. y \<in> set (conn ! x)) \<and>
     set pm \<inter> set sg = {} \<and> distinct pm \<and> k \<le> length pm \<and>
     (\<forall>j<k. domi ! (pm ! j) \<noteq> c) \<and>
     (\<forall>x\<in>set sg. \<forall>y\<in>set (conn ! x). domi ! y = c \<longrightarrow> y \<in> set sg \<or> y \<in> set pm)"

definition search_ctx :: "nat \<Rightarrow> adjacency \<Rightarrow> nat list \<Rightarrow> node list list \<Rightarrow> bool" where
  "search_ctx n conn domi gs \<longleftrightarrow>
     wf_adjacency n conn \<and> length domi = n \<and> (\<forall>g\<in>set gs. closed_group conn domi g)"

definition groups_inv :: "nat \<Rightarrow> adjacency \<Rightarrow> nat list \<Rightarrow> node list \<Rightarrow> node list list \<Rightarrow> bool" where
  "groups_inv n conn domi pool gs \<longleftrightarrow>
     distinct (pool @ concat gs) \<and> set (pool @ concat gs) = {..<n} \<and>
     (\<forall>g\<in>set gs. g \<noteq> [] \<and> closed_group conn domi g \<and> set g = component conn domi (hd g))"

section \<open>Correctness of the search\<close>

lemma search_invD:
  assumes "search_inv n conn domi c f gs pool sg pm k"
  shows "distinct (sg @ pool @ concat gs)" "set (sg @ pool @ concat gs) = {..<n}"
    "hd sg = f" "sg \<noteq> []" "x \<in> set sg \<Longrightarrow> domi ! x = c" "x \<in> set sg \<Longrightarrow> x \<in> component conn domi f"
    "x \<in> set sg \<Longrightarrow> y \<in> set (conn ! x) \<Longrightarrow> domi ! y = c \<Longrightarrow> y \<in> set sg \<or> y \<in> set pm"
    "y \<in> set pm \<Longrightarrow> \<exists>x\<in>set sg. y \<in> set (conn ! x)" "k \<le> length pm"
    "j < k \<Longrightarrow> domi ! (pm ! j) \<noteq> c" "set pm \<inter> set sg = {}" "distinct pm"
  using assms unfolding search_inv_def by blast+

lemma search_invI:
  assumes "distinct (sg @ pool @ concat gs)" "set (sg @ pool @ concat gs) = {..<n}"
    "hd sg = f" "sg \<noteq> []" "\<forall>x\<in>set sg. domi ! x = c \<and> x \<in> component conn domi f"
    "\<forall>y\<in>set pm. \<exists>x\<in>set sg. y \<in> set (conn ! x)" "set pm \<inter> set sg = {}" "distinct pm"
    "k \<le> length pm" "\<forall>j<k. domi ! (pm ! j) \<noteq> c"
    "\<forall>x\<in>set sg. \<forall>y\<in>set (conn ! x). domi ! y = c \<longrightarrow> y \<in> set sg \<or> y \<in> set pm"
  shows "search_inv n conn domi c f gs pool sg pm k"
  using assms unfolding search_inv_def by blast

lemma search_ctxD:
  assumes "search_ctx n conn domi gs"
  shows "wf_adjacency n conn" "length domi = n" "g \<in> set gs \<Longrightarrow> closed_group conn domi g"
  using assms unfolding search_ctx_def by blast+

lemma add_candidates_prefix: "\<exists>ys. add_candidates ns sg pool pm = pm @ ys"
  by (induction ns arbitrary: pm) (auto, metis append.assoc)

lemma set_add_candidates:
  "set (add_candidates ns sg pool pm) = set pm \<union> {y \<in> set ns. y \<notin> set sg \<and> y \<in> set pool}"
  by (induction ns arbitrary: pm) auto

lemma distinct_add_candidates: "distinct pm \<Longrightarrow> distinct (add_candidates ns sg pool pm)"
  by (induction ns arbitrary: pm) auto

lemma component_step:
  "x \<in> component conn domi f \<Longrightarrow> x < length conn \<Longrightarrow> y \<in> set (conn ! x) \<Longrightarrow>
   domi ! y = domi ! x \<Longrightarrow> y \<in> component conn domi f"
  by (auto simp: component_def same_step_def intro: rtrancl_into_rtrancl)

text \<open>A node in the frontier with the subgroup's decision is still in the pool.\<close>

lemma search_member_in_pool:
  assumes ctx: "search_ctx n conn domi gs"
    and inv: "search_inv n conn domi c f gs pool sg pm k"
    and m: "m \<in> set pm" and dm: "domi ! m = c"
  shows "m \<in> set pool \<and> m < n"
proof -
  from inv m obtain x where x: "x \<in> set sg" "m \<in> set (conn ! x)"
    by (auto simp: search_inv_def)
  from inv x have xn: "x < n" by (auto simp: search_inv_def)
  from ctx xn x have mn: "m < n" and xm: "x \<in> set (conn ! m)"
    by (auto simp: search_ctx_def intro: wf_adjacency_range wf_adjacency_sym)
  from inv m have "m \<notin> set sg" by (auto simp: search_inv_def)
  moreover have "m \<notin> set (concat gs)"
  proof
    assume "m \<in> set (concat gs)"
    then obtain g where g: "g \<in> set gs" "m \<in> set g" by auto
    from inv x dm have "domi ! x = domi ! m" by (auto simp: search_inv_def)
    with ctx g xm have "x \<in> set g" by (auto simp: search_ctx_def closed_group_def)
    with g x inv show False by (auto simp: search_inv_def)
  qed
  moreover from inv mn have "m \<in> set (sg @ pool @ concat gs)" by (simp add: search_inv_def)
  ultimately show ?thesis using mn by auto
qed

lemma search_inv_skip:
  assumes inv: "search_inv n conn domi c f gs pool sg pm k"
    and k: "k < length pm" and d: "domi ! (pm ! k) \<noteq> c"
  shows "search_inv n conn domi c f gs pool sg pm (Suc k)"
  using inv k d by (auto simp: search_inv_def less_Suc_eq)

lemma search_new_neighbour:
  assumes ctx: "search_ctx n conn domi gs"
    and inv: "search_inv n conn domi c f gs pool sg pm k"
    and mp: "m \<in> set pool" and mn: "m < n" and dm: "domi ! m = c"
    and y: "y \<in> set (conn ! m)" and dy: "domi ! y = c"
    and ysg: "y \<notin> set (sg @ [m])"
  shows "y \<in> set (remove1 m pool)"
proof -
  from ctx mn y have yn: "y < n" and my: "m \<in> set (conn ! y)"
    by (auto simp: search_ctx_def intro: wf_adjacency_range wf_adjacency_sym)
  have "y \<notin> set (concat gs)"
  proof
    assume "y \<in> set (concat gs)"
    then obtain g where g: "g \<in> set gs" "y \<in> set g" by auto
    with ctx my dm dy have "m \<in> set g" by (auto simp: search_ctx_def closed_group_def)
    with g mp inv show False by (auto simp: search_inv_def)
  qed
  moreover from inv yn have "y \<in> set (sg @ pool @ concat gs)" by (simp add: search_inv_def)
  moreover from inv have "distinct pool" by (simp add: search_inv_def)
  ultimately show ?thesis using ysg by auto
qed

lemma search_inv_accept:
  assumes ctx: "search_ctx n conn domi gs"
    and inv: "search_inv n conn domi c f gs pool sg pm k"
    and k: "k < length pm" and d: "domi ! (pm ! k) = c"
  defines "m \<equiv> pm ! k"
  shows "search_inv n conn domi c f gs (remove1 m pool) (sg @ [m])
           (add_candidates (conn ! m) (sg @ [m]) (remove1 m pool) (remove1 m pm)) k"
proof -
  let ?pool = "remove1 m pool" and ?sg = "sg @ [m]"
  let ?pm = "add_candidates (conn ! m) ?sg ?pool (remove1 m pm)"
  from k have mpm: "m \<in> set pm" by (simp add: m_def)
  from search_member_in_pool [OF ctx inv mpm] d have mp: "m \<in> set pool" and mn: "m < n"
    by (simp_all add: m_def)
  from inv have I: "distinct (sg @ pool @ concat gs)" "set (sg @ pool @ concat gs) = {..<n}"
      "hd sg = f" "sg \<noteq> []" "\<forall>x\<in>set sg. domi ! x = c \<and> x \<in> component conn domi f"
      "\<forall>y\<in>set pm. \<exists>x\<in>set sg. y \<in> set (conn ! x)" "set pm \<inter> set sg = {}"
      "distinct pm" "\<forall>j<k. domi ! (pm ! j) \<noteq> c"
      "\<forall>x\<in>set sg. \<forall>y\<in>set (conn ! x). domi ! y = c \<longrightarrow> y \<in> set sg \<or> y \<in> set pm"
    by (simp_all add: search_inv_def)
  have rm: "remove1 m pm = take k pm @ drop (Suc k) pm"
    unfolding m_def by (rule remove1_at_index) (use k d I(9) in auto)
  obtain ys where pm': "?pm = remove1 m pm @ ys" using add_candidates_prefix by blast
  have set_pm': "set ?pm = (set pm - {m}) \<union> {y \<in> set (conn ! m). y \<notin> set ?sg \<and> y \<in> set ?pool}"
    using I(8) by (simp add: set_add_candidates)
  have len: "k \<le> length (remove1 m pm)" using rm k by simp
  have prefix: "\<forall>j<k. ?pm ! j = pm ! j"
  proof (intro allI impI)
    fix j assume j: "j < k"
    with len have "?pm ! j = remove1 m pm ! j" by (simp add: pm' nth_append)
    also from j k have "\<dots> = pm ! j" by (simp add: rm nth_append)
    finally show "?pm ! j = pm ! j" .
  qed
  from mpm obtain x where x: "x \<in> set sg" "m \<in> set (conn ! x)" using I(6) by blast
  with I(1,2,5) have xn: "x < n" and "domi ! x = c" "x \<in> component conn domi f" by auto
  with ctx x d have mcomp: "m \<in> component conn domi f"
    by (auto simp: search_ctx_def m_def wf_adjacency_length intro: component_step)
  have closure: "\<forall>x\<in>set ?sg. \<forall>y\<in>set (conn ! x). domi ! y = c \<longrightarrow> y \<in> set ?sg \<or> y \<in> set ?pm"
  proof (intro ballI impI)
    fix x y assume x: "x \<in> set ?sg" and y: "y \<in> set (conn ! x)" and dy: "domi ! y = c"
    show "y \<in> set ?sg \<or> y \<in> set ?pm"
    proof (cases "x = m")
      case True
      show ?thesis
        using search_new_neighbour [OF ctx inv mp mn] d y dy True set_pm'
        by (auto simp: m_def)
    next
      case False
      with x I(10) y dy have "y \<in> set sg \<or> y \<in> set pm" by auto
      then show ?thesis using set_pm' by auto
    qed
  qed
  show ?thesis
    unfolding search_inv_def
  proof (intro conjI)
    show "distinct (?sg @ ?pool @ concat gs)" using I(1) mp by auto
    show "set (?sg @ ?pool @ concat gs) = {..<n}" using I(1,2) mp by auto
    show "hd ?sg = f" "?sg \<noteq> []" using I(3,4) by simp_all
    show "\<forall>x\<in>set ?sg. domi ! x = c \<and> x \<in> component conn domi f"
      using I(5) mcomp d by (auto simp: m_def)
    show "\<forall>y\<in>set ?pm. \<exists>x\<in>set ?sg. y \<in> set (conn ! x)"
      using I(6) set_pm' by auto
    show "set ?pm \<inter> set ?sg = {}" using I(7) set_pm' by auto
    show "distinct ?pm" using I(8) by (simp add: distinct_add_candidates)
    show "k \<le> length ?pm" using len pm' by simp
    show "\<forall>j<k. domi ! (?pm ! j) \<noteq> c" using prefix I(9) by simp
  qed (rule closure)
qed

lemma search_frontier_range:
  assumes ctx: "search_ctx n conn domi gs" and inv: "search_inv n conn domi c f gs pool sg pm k"
    and y: "y \<in> set pm"
  shows "y < n"
proof -
  from search_invD(8) [OF inv y] obtain x where "x \<in> set sg" "y \<in> set (conn ! x)" by blast
  moreover from this search_invD(2) [OF inv] have "x < n" by auto
  ultimately show ?thesis using search_ctxD(1) [OF ctx] by (blast intro: wf_adjacency_range)
qed

lemma search_inv_done:
  assumes inv: "search_inv n conn domi c f gs pool sg pm k" and k: "\<not> k < length pm"
  shows "search_inv n conn domi c f gs pool sg [] 0"
proof -
  have notin: "y \<notin> set pm" if "domi ! y = c" for y
  proof
    assume "y \<in> set pm"
    then obtain j where "j < length pm" "pm ! j = y" by (auto simp: in_set_conv_nth)
    with k search_invD(10) [OF inv, of j] that show False by simp
  qed
  have cl: "\<forall>x\<in>set sg. \<forall>y\<in>set (conn ! x). domi ! y = c \<longrightarrow> y \<in> set sg"
  proof (intro ballI impI)
    fix x y assume "x \<in> set sg" "y \<in> set (conn ! x)" "domi ! y = c"
    with search_invD(7) [OF inv] notin show "y \<in> set sg" by blast
  qed
  have lab: "\<forall>x\<in>set sg. domi ! x = c \<and> x \<in> component conn domi f"
    using search_invD(5,6) [OF inv] by blast
  show ?thesis
    by (rule search_invI [OF search_invD(1-4) [OF inv] lab]) (simp_all add: cl)
qed

lemma member_search_correct:
  assumes "search_ctx n conn domi gs" and "search_inv n conn domi c f gs pool sg pm k"
  shows "\<exists>pool' sg'. member_search conn domi c pool sg pm k = Inr (pool', sg') \<and>
           search_inv n conn domi c f gs pool' sg' [] 0"
  using assms
proof (induction conn domi c pool sg pm k rule: member_search.induct)
  case (1 conn domi c pool sg pm k)
  note ms = member_search.simps [of conn domi c pool sg pm k]
  show ?case
  proof (cases "k < length pm")
    case False
    with "1.prems"(2) show ?thesis by (simp add: ms search_inv_done)
  next
    case True
    let ?m = "pm ! k"
    from True have "?m \<in> set pm" by simp
    with "1.prems" have mn: "?m < n" by (rule search_frontier_range)
    with "1.prems"(1) have dd: "py_get domi ?m = Inr (domi ! ?m)"
      and gc: "py_get conn ?m = Inr (conn ! ?m)"
      by (auto simp: search_ctx_def dest: wf_adjacency_length)
    show ?thesis
    proof (cases "domi ! ?m = c")
      case cT: True
      from search_member_in_pool [OF "1.prems" \<open>?m \<in> set pm\<close> cT]
      have rem: "py_remove ?m pool = Inr (remove1 ?m pool)" by simp
      from search_inv_accept [OF "1.prems" True cT] "1.prems"(1)
        "1.IH"(1) [OF True dd cT refl refl rem refl gc]
      show ?thesis by (simp add: ms True dd cT rem gc Let_def)
    next
      case cF: False
      from search_inv_skip [OF "1.prems"(2) True cF] "1.prems"(1)
        "1.IH"(2) [OF True dd cF]
      show ?thesis by (simp add: ms True dd cF)
    qed
  qed
qed

lemma groups_invD:
  assumes "groups_inv n conn domi pool gs"
  shows "distinct (pool @ concat gs)" "set (pool @ concat gs) = {..<n}"
    "g \<in> set gs \<Longrightarrow> g \<noteq> []" "g \<in> set gs \<Longrightarrow> closed_group conn domi g"
    "g \<in> set gs \<Longrightarrow> set g = component conn domi (hd g)"
  using assms unfolding groups_inv_def by blast+

lemma search_inv_start:
  assumes wf: "wf_adjacency n conn" and inv: "groups_inv n conn domi (f # pool) gs"
  shows "search_inv n conn domi (domi ! f) f gs pool [f] (conn ! f) 0"
proof -
  from groups_invD(2) [OF inv] have fn: "f < n" by auto
  with wf have "f \<notin> set (conn ! f)" "distinct (conn ! f)"
    by (simp_all add: wf_adjacency_irrefl wf_adjacency_distinct)
  moreover from groups_invD(1,2) [OF inv]
  have "distinct ([f] @ pool @ concat gs)" "set ([f] @ pool @ concat gs) = {..<n}"
    by simp_all
  ultimately show ?thesis
    unfolding search_inv_def by (simp add: component_def)
qed

lemma search_result_component:
  assumes inv: "search_inv n conn domi (domi ! f) f gs pool sg [] 0"
  shows "closed_group conn domi sg \<and> set sg = component conn domi f"
proof -
  have cl: "closed_group conn domi sg"
    unfolding closed_group_def
  proof (intro ballI impI)
    fix x y assume x: "x \<in> set sg" and y: "y \<in> set (conn ! x)" and d: "domi ! y = domi ! x"
    from search_invD(5) [OF inv x] d have "domi ! y = domi ! f" by simp
    from search_invD(7) [OF inv x y this] show "y \<in> set sg" by simp
  qed
  have "component conn domi f \<subseteq> set sg"
  proof
    fix y assume "y \<in> component conn domi f"
    then have "(f, y) \<in> (same_step conn domi)\<^sup>*" by (simp add: component_def)
    then show "y \<in> set sg"
    proof (induction rule: rtrancl_induct)
      case base
      from search_invD(3,4) [OF inv] show ?case by (metis list.set_sel(1))
    next
      case (step y z)
      from step(2) have "z \<in> set (conn ! y)" "domi ! z = domi ! y"
        by (simp_all add: same_step_def)
      with cl step(3) show ?case unfolding closed_group_def by blast
    qed
  qed
  with search_invD(6) [OF inv] cl show ?thesis by blast
qed

lemma groups_inv_step:
  assumes ginv: "groups_inv n conn domi (f # pool) gs"
    and sinv: "search_inv n conn domi (domi ! f) f gs pool' sg [] 0"
  shows "groups_inv n conn domi pool' (gs @ [sg])"
proof -
  from search_result_component [OF sinv] search_invD(3,4) [OF sinv]
  have new: "sg \<noteq> [] \<and> closed_group conn domi sg \<and> set sg = component conn domi (hd sg)"
    by simp
  from distinct_rotate3 [OF search_invD(1) [OF sinv]]
  have "distinct (pool' @ concat (gs @ [sg]))" by simp
  moreover from search_invD(2) [OF sinv] have "set (pool' @ concat (gs @ [sg])) = {..<n}"
    by (simp add: Un_ac)
  moreover have "\<forall>g\<in>set (gs @ [sg]). g \<noteq> [] \<and> closed_group conn domi g \<and>
                   set g = component conn domi (hd g)"
  proof
    fix g assume "g \<in> set (gs @ [sg])"
    then consider "g \<in> set gs" | "g = sg" by auto
    then show "g \<noteq> [] \<and> closed_group conn domi g \<and> set g = component conn domi (hd g)"
      using groups_invD(3-5) [OF ginv] new by cases blast+
  qed
  ultimately show ?thesis unfolding groups_inv_def by blast
qed

lemma find_subgroups_correct:
  assumes "wf_adjacency n conn" and "length domi = n" and "groups_inv n conn domi pool gs"
  shows "\<exists>gs'. find_subgroups conn domi pool gs = Inr gs' \<and> groups_inv n conn domi [] gs'"
  using assms
proof (induction conn domi pool gs rule: find_subgroups.induct)
  case (1 conn domi pool gs)
  note fs = find_subgroups.simps [of conn domi pool gs]
  show ?case
  proof (cases pool)
    case Nil
    from fs Nil "1.prems"(3) show ?thesis by simp
  next
    case (Cons f pool')
    from groups_invD(2) [OF "1.prems"(3)] Cons have fn: "f < n" by auto
    with "1.prems"(1,2) have gc: "py_get conn f = Inr (conn ! f)"
      and gd: "py_get domi f = Inr (domi ! f)"
      by (simp_all add: wf_adjacency_length)
    have ctx: "search_ctx n conn domi gs"
      using "1.prems" Cons groups_invD(4) unfolding search_ctx_def by blast
    from "1.prems" Cons have "search_inv n conn domi (domi ! f) f gs pool' [f] (conn ! f) 0"
      by (simp add: search_inv_start)
    from member_search_correct [OF ctx this] obtain pool'' sg where
      ms: "member_search conn domi (domi ! f) pool' [f] (conn ! f) 0 = Inr (pool'', sg)"
      and sinv: "search_inv n conn domi (domi ! f) f gs pool'' sg [] 0" by blast
    from "1.prems"(3) Cons sinv have "groups_inv n conn domi pool'' (gs @ [sg])"
      by (simp add: groups_inv_step)
    with "1.IH" [OF Cons gc gd ms refl] "1.prems"(1,2)
    obtain gs' where "find_subgroups conn domi pool'' (gs @ [sg]) = Inr gs'"
      and "groups_inv n conn domi [] gs'" by blast
    moreover have "find_subgroups conn domi pool gs = find_subgroups conn domi pool'' (gs @ [sg])"
      unfolding fs using Cons gc gd ms by simp
    ultimately show ?thesis by simp
  qed
qed

lemma update_subgroups_correct:
  assumes "wf_adjacency n conn" and "length domi = n"
  shows "\<exists>gs. update_subgroups n conn domi = Inr gs \<and> groups_inv n conn domi [] gs"
proof -
  have "groups_inv n conn domi [0..<n] []" by (simp add: groups_inv_def atLeast0LessThan)
  with find_subgroups_correct [OF assms] show ?thesis by (simp add: update_subgroups_def)
qed

lemma same_step_sym:
  assumes wf: "wf_adjacency n conn"
  shows "sym (same_step conn domi)"
proof (rule symI)
  fix x y assume "(x, y) \<in> same_step conn domi"
  then have x: "x < n" and y: "y \<in> set (conn ! x)" and d: "domi ! y = domi ! x"
    using wf_adjacency_length [OF wf] by (simp_all add: same_step_def)
  from wf x y have "y < n" "x \<in> set (conn ! y)"
    by (blast intro: wf_adjacency_range wf_adjacency_sym)+
  with d show "(y, x) \<in> same_step conn domi"
    using wf_adjacency_length [OF wf] by (simp add: same_step_def)
qed

lemma component_eq:
  assumes "wf_adjacency n conn" and "x \<in> component conn domi y"
  shows "component conn domi x = component conn domi y"
proof -
  from assms have yx: "(y, x) \<in> (same_step conn domi)\<^sup>*" by (simp add: component_def)
  moreover from assms(1) have "sym ((same_step conn domi)\<^sup>*)"
    by (simp add: same_step_sym sym_rtrancl)
  ultimately have "(x, y) \<in> (same_step conn domi)\<^sup>*" by (auto dest: symD)
  with yx show ?thesis
    by (auto simp: component_def intro: rtrancl_trans)
qed

section \<open>Correctness of the size assignment\<close>

lemma assign_members_correct:
  assumes "distinct ms" "distinct tr" "set ms \<subseteq> set tr" "\<forall>i\<in>set ms. i < length ss"
  shows "\<exists>ss' tr'. assign_members ms sz ss tr = Inr (ss', tr') \<and> length ss' = length ss \<and>
           distinct tr' \<and> set tr' = set tr - set ms \<and>
           (\<forall>j<length ss. ss' ! j = (if j \<in> set ms then sz else ss ! j))"
  using assms
proof (induction "ms" arbitrary: ss tr)
  case Nil
  then show ?case by simp
next
  case (Cons i ms)
  from Cons.prems have "distinct ms" "distinct (remove1 i tr)" "set ms \<subseteq> set (remove1 i tr)"
      "\<forall>j\<in>set ms. j < length (ss[i := sz])"
    by auto
  from Cons.IH [OF this] obtain ss' tr' where
    IH: "assign_members ms sz (ss[i := sz]) (remove1 i tr) = Inr (ss', tr')"
      "length ss' = length ss" "distinct tr'" "set tr' = set (remove1 i tr) - set ms"
      "\<forall>j<length ss. ss' ! j = (if j \<in> set ms then sz else ss[i := sz] ! j)"
    by auto
  from Cons.prems have ok: "py_set ss i sz = Inr (ss[i := sz])" "py_remove i tr = Inr (remove1 i tr)"
    by auto
  have "\<forall>j<length ss. ss' ! j = (if j \<in> set (i # ms) then sz else ss ! j)"
    using IH(5) by (simp add: nth_list_update)
  moreover have "set tr' = set tr - set (i # ms)" using IH(4) Cons.prems(2) by auto
  ultimately show ?case using IH(1-3) ok by simp
qed

lemma assign_sizes_correct:
  assumes "distinct (concat gs)" "distinct tr" "set (concat gs) \<subseteq> set tr"
    "\<forall>i\<in>set (concat gs). i < length ss"
  shows "\<exists>ss' tr'. assign_sizes gs ss tr = Inr (ss', tr') \<and> length ss' = length ss \<and>
           set tr' = set tr - set (concat gs) \<and>
           (\<forall>g\<in>set gs. \<forall>i\<in>set g. ss' ! i = length g) \<and>
           (\<forall>j<length ss. j \<notin> set (concat gs) \<longrightarrow> ss' ! j = ss ! j)"
  using assms
proof (induction gs arbitrary: ss tr)
  case Nil
  then show ?case by simp
next
  case (Cons g gs)
  from Cons.prems obtain ss1 tr1 where
    am: "assign_members g (length g) ss tr = Inr (ss1, tr1)" and l1: "length ss1 = length ss"
    and d1: "distinct tr1" and s1: "set tr1 = set tr - set g"
    and v1: "\<forall>j<length ss. ss1 ! j = (if j \<in> set g then length g else ss ! j)"
    using assign_members_correct [of g tr ss "length g"] by auto
  from Cons.prems d1 s1 l1 have "distinct (concat gs)" "distinct tr1"
      "set (concat gs) \<subseteq> set tr1" "\<forall>i\<in>set (concat gs). i < length ss1"
    by auto
  from Cons.IH [OF this] obtain ss' tr' where
    IH: "assign_sizes gs ss1 tr1 = Inr (ss', tr')" "length ss' = length ss1"
      "set tr' = set tr1 - set (concat gs)"
      "\<forall>g\<in>set gs. \<forall>i\<in>set g. ss' ! i = length g"
      "\<forall>j<length ss1. j \<notin> set (concat gs) \<longrightarrow> ss' ! j = ss1 ! j"
    by blast
  have "\<forall>i\<in>set g. ss' ! i = length g"
  proof
    fix i assume i: "i \<in> set g"
    with Cons.prems have "i < length ss" "i \<notin> set (concat gs)" by auto
    with IH(5) l1 v1 i show "ss' ! i = length g" by simp
  qed
  with IH am s1 l1 v1 show ?case by auto
qed

lemma update_subsizes_correct:
  assumes "distinct (concat gs)" "set (concat gs) = {..<n}" "length ss = n"
  shows "\<exists>ss'. update_subsizes n gs ss = Inr ss' \<and> length ss' = n \<and>
           (\<forall>g\<in>set gs. \<forall>i\<in>set g. ss' ! i = length g)"
proof -
  from assms have "distinct (concat gs)" "distinct [0..<n]" "set (concat gs) \<subseteq> set [0..<n]"
      "\<forall>i\<in>set (concat gs). i < length ss"
    by auto
  from assign_sizes_correct [OF this] assms show ?thesis
    by (auto simp: update_subsizes_def atLeast0LessThan)
qed



lemma assign_members_Inr:
  assumes "assign_members ms sz ss tr = Inr (ss', tr')" and "distinct tr"
  shows "distinct ms \<and> set ms \<subseteq> set tr \<and> distinct tr' \<and> set tr' = set tr - set ms \<and>
         length ss' = length ss"
  using assms
proof (induction ms arbitrary: ss tr)
  case (Cons i ms)
  from Cons.prems obtain ss1 tr1 where
    s: "py_set ss i sz = Inr ss1" "py_remove i tr = Inr tr1" "assign_members ms sz ss1 tr1 = Inr (ss', tr')"
    by (auto split: sum.splits)
  from s(1) have l1: "length ss1 = length ss" by (auto simp: py_set_def split: if_splits)
  from s(2) have i: "i \<in> set tr" and tr1: "tr1 = remove1 i tr"
    by (auto simp: py_remove_def split: if_splits)
  with Cons.prems(2) have "distinct tr1" by simp
  from Cons.IH [OF s(3) this] tr1 Cons.prems(2) i l1 show ?case by auto
qed simp

lemma assign_members_Inl:
  "assign_members ms sz ss tr = Inl e \<Longrightarrow> \<forall>i\<in>set ms. i < length ss \<Longrightarrow> e = ValueError"
proof (induction ms arbitrary: ss tr)
  case (Cons i ms)
  then show ?case by (auto simp: py_remove_def split: sum.splits if_splits)
qed simp

lemma assign_sizes_Inr:
  assumes "assign_sizes gs ss tr = Inr (ss', tr')" and "distinct tr"
  shows "distinct (concat gs) \<and> set (concat gs) \<subseteq> set tr"
  using assms
proof (induction gs arbitrary: ss tr)
  case (Cons g gs)
  from Cons.prems obtain ss1 tr1 where
    a: "assign_members g (length g) ss tr = Inr (ss1, tr1)" "assign_sizes gs ss1 tr1 = Inr (ss', tr')"
    by (auto split: sum.splits)
  note G = assign_members_Inr [OF a(1) Cons.prems(2)]
  from Cons.IH [OF a(2)] G have "distinct (concat gs)" "set (concat gs) \<subseteq> set tr - set g" by auto
  with G show ?case by auto
qed simp

lemma assign_sizes_Inl:
  "assign_sizes gs ss tr = Inl e \<Longrightarrow> \<forall>i\<in>set (concat gs). i < length ss \<Longrightarrow> distinct tr \<Longrightarrow>
     e = ValueError"
proof (induction gs arbitrary: ss tr)
  case (Cons g gs)
  show ?case
  proof (cases "assign_members g (length g) ss tr")
    case (Inl e')
    with Cons.prems assign_members_Inl [OF Inl] show ?thesis by simp
  next
    case (Inr r)
    obtain ss1 tr1 where r: "r = (ss1, tr1)" by (cases r)
    note G = assign_members_Inr [OF Inr [unfolded r] Cons.prems(3)]
    from Cons.prems Inr r have "assign_sizes gs ss1 tr1 = Inl e" by simp
    from Cons.IH [OF this] Cons.prems(2) G show ?thesis by simp
  qed
qed simp

section \<open>Properties of the subgroup detector\<close>

lemma groups_inv_member_component:
  assumes wf: "wf_adjacency n conn" and gi: "groups_inv n conn domi [] gs"
    and g: "g \<in> set gs" and x: "x \<in> set g"
  shows "set g = component conn domi x"
proof -
  from groups_invD(5) [OF gi g] have hd: "set g = component conn domi (hd g)" .
  with x have "x \<in> component conn domi (hd g)" by simp
  from component_eq [OF wf this] hd show ?thesis by simp
qed

lemma distinct_concat_member: "distinct (concat gs) \<Longrightarrow> g \<in> set gs \<Longrightarrow> distinct g"
  by (induction gs) auto

text \<open>
  C1 (partition): on a well-formed topology with one decision per node, the subgroup
  search of lines 214--254 finishes without an exception, and its subgroups are non-empty
  and hold every node index \<open>0..net_size-1\<close> exactly once.
\<close>

theorem update_subgroups_partition:
  assumes "wf_adjacency n conn" and "length deci_domi = n"
  shows "\<exists>subgroups. update_subgroups n conn deci_domi = Inr subgroups \<and>
           distinct (concat subgroups) \<and> set (concat subgroups) = {..<n} \<and>
           [] \<notin> set subgroups"
proof -
  from update_subgroups_correct [OF assms] obtain gs where
    ev: "update_subgroups n conn deci_domi = Inr gs" and gi: "groups_inv n conn deci_domi [] gs"
    by blast
  from groups_invD(3) [OF gi] have "[] \<notin> set gs" by blast
  with ev groups_invD(1,2) [OF gi] show ?thesis by simp
qed

theorem update_subgroups_partition_witness:
  "wf_adjacency 5 [[1], [0, 2], [1, 3], [2, 4], [3]] \<and> length [0, 0, 1, 1, 1::nat] = 5 \<and>
   (\<exists>subgroups. update_subgroups 5 [[1], [0, 2], [1, 3], [2, 4], [3]] [0, 0, 1, 1, 1] = Inr subgroups \<and>
      distinct (concat subgroups) \<and> set (concat subgroups) = {..<5} \<and> [] \<notin> set subgroups)"
proof -
  have wf: "wf_adjacency 5 [[1], [0, 2], [1, 3], [2, 4], [3]]"
    by (simp add: wf_adjacency_def less_Suc_eq numeral_eq_Suc)
  have len: "length [0, 0, 1, 1, 1::nat] = 5" by simp
  from update_subgroups_partition [OF wf len] wf len show ?thesis by blast
qed

text \<open>
  C2 (refinement): every subgroup the search returns is exactly the same-decision
  connected component of each of its members: the search implements the specification
  \<open>component\<close>.
\<close>

theorem update_subgroups_components:
  assumes "wf_adjacency n conn" and "length deci_domi = n"
    and "update_subgroups n conn deci_domi = Inr subgroups"
    and "g \<in> set subgroups" and "x \<in> set g"
  shows "set g = component conn deci_domi x"
proof -
  from update_subgroups_correct [OF assms(1,2)] assms(3)
  have "groups_inv n conn deci_domi [] subgroups" by auto
  from groups_inv_member_component [OF assms(1) this assms(4,5)] show ?thesis .
qed

theorem update_subgroups_components_witness:
  "set [2, 3, 4] = component [[1], [0, 2], [1, 3], [2, 4], [3]] [0, 0, 1, 1, 1] 3"
proof -
  have wf: "wf_adjacency 5 [[1], [0, 2], [1, 3], [2, 4], [3]]"
    by (simp add: wf_adjacency_def less_Suc_eq numeral_eq_Suc)
  have len: "length [0, 0, 1, 1, 1::nat] = 5" by simp
  have ev: "update_subgroups 5 [[1], [0, 2], [1, 3], [2, 4], [3]] [0, 0, 1, 1, 1] =
              Inr [[0, 1], [2, 3, 4]]"
    by code_simp
  show ?thesis
    using update_subgroups_components [OF wf len ev, of "[2, 3, 4]" 3] by simp
qed

text \<open>
  C3 (invariant): after the subgroup search, the size assignment of lines 256--266 never
  stops the program, and every node's \<open>subsizes\<close> entry is the number of nodes in its
  same-decision component.
\<close>

theorem update_subsizes_component_card:
  assumes wf: "wf_adjacency n conn" and len: "length deci_domi = n"
    and lss: "length subsizes = n"
    and ev: "update_subgroups n conn deci_domi = Inr subgroups"
  shows "\<exists>subsizes'. update_subsizes n subgroups subsizes = Inr subsizes' \<and>
           length subsizes' = n \<and> (\<forall>i<n. subsizes' ! i = card (component conn deci_domi i))"
proof -
  from update_subgroups_correct [OF wf len] ev
  have gi: "groups_inv n conn deci_domi [] subgroups" by auto
  from groups_invD(1,2) [OF gi]
  have "distinct (concat subgroups)" "set (concat subgroups) = {..<n}" by simp_all
  from update_subsizes_correct [OF this lss] obtain ss' where
    ss: "update_subsizes n subgroups subsizes = Inr ss'" "length ss' = n"
      "\<forall>g\<in>set subgroups. \<forall>i\<in>set g. ss' ! i = length g" by blast
  have "ss' ! i = card (component conn deci_domi i)" if i: "i < n" for i
  proof -
    from i groups_invD(2) [OF gi] obtain g where g: "g \<in> set subgroups" "i \<in> set g" by auto
    from distinct_concat_member [OF groups_invD(1) [OF gi, simplified] g(1)]
    have "card (set g) = length g" by (rule distinct_card)
    with ss(3) g groups_inv_member_component [OF wf gi g] show ?thesis by simp
  qed
  with ss(1,2) show ?thesis by blast
qed

theorem update_subsizes_component_card_witness:
  "\<exists>subsizes'. update_subsizes 5 [[0, 1], [2, 3, 4]] [0, 0, 0, 0, 0] = Inr subsizes' \<and>
     length subsizes' = 5 \<and>
     (\<forall>i<5. subsizes' ! i = card (component [[1], [0, 2], [1, 3], [2, 4], [3]] [0, 0, 1, 1, 1] i))"
proof -
  have wf: "wf_adjacency 5 [[1], [0, 2], [1, 3], [2, 4], [3]]"
    by (simp add: wf_adjacency_def less_Suc_eq numeral_eq_Suc)
  have len: "length [0, 0, 1, 1, 1::nat] = 5" by simp
  have lss: "length [0, 0, 0, 0, 0::nat] = 5" by simp
  have ev: "update_subgroups 5 [[1], [0, 2], [1, 3], [2, 4], [3]] [0, 0, 1, 1, 1] =
              Inr [[0, 1], [2, 3, 4]]"
    by code_simp
  from update_subsizes_component_card [OF wf len lss ev] show ?thesis .
qed

lemma drop_remove1_distinct:
  assumes "distinct pm" "k < length pm" "f \<in> set (drop (Suc k) pm)"
  shows "f \<in> set (drop k (remove1 (pm ! k) pm))"
proof -
  have pm: "pm = take k pm @ pm ! k # drop (Suc k) pm" using assms(2) by (simp add: id_take_nth_drop)
  have "distinct (take k pm @ pm ! k # drop (Suc k) pm)" using assms(1) by (subst (asm) pm)
  then have "pm ! k \<notin> set (take k pm)" by simp
  then have "remove1 (pm ! k) pm = take k pm @ drop (Suc k) pm"
    by (subst pm) (simp add: remove1_append)
  with assms(2,3) show ?thesis by simp
qed

lemma member_search_lost_member:
  assumes "distinct pm" and "f \<in> set (drop k pm)" and "f \<notin> set pool" and "deci_domi ! f = c"
    and "\<forall>x\<in>set pm. x < n" and "length conn = n" and "length deci_domi = n"
    and "\<forall>i<n. \<forall>y\<in>set (conn ! i). y < n"
  shows "member_search conn deci_domi c pool sg pm k = Inl ValueError"
  using assms
proof (induction conn deci_domi c pool sg pm k rule: member_search.induct)
  case (1 conn deci_domi c pool sg pm k)
  note ms = member_search.simps [of conn deci_domi c pool sg pm k]
  from "1.prems"(2) have k: "k < length pm" by (cases "k < length pm") simp_all
  have x: "pm ! k < n" using "1.prems"(5) k by simp
  then have gd: "py_get deci_domi (pm ! k) = Inr (deci_domi ! (pm ! k))" using "1.prems"(7) by simp
  show ?case
  proof (cases "deci_domi ! (pm ! k) = c")
    case False
    with "1.prems"(4) have "pm ! k \<noteq> f" by auto
    with "1.prems"(2) k have "f \<in> set (drop (Suc k) pm)" by (metis Cons_nth_drop_Suc set_ConsD)
    with "1.IH"(2) [OF k gd False] "1.prems"(1,3-8) k gd False show ?thesis by (simp add: ms)
  next
    case dc: True
    show ?thesis
    proof (cases "pm ! k \<in> set pool")
      case False
      with k gd dc show ?thesis by (simp add: ms)
    next
      case inpool: True
      with "1.prems"(3) have ne: "pm ! k \<noteq> f" by auto
      let ?pool = "remove1 (pm ! k) pool" and ?sg = "sg @ [pm ! k]"
      let ?ns = "conn ! (pm ! k)"
      have rem: "py_remove (pm ! k) pool = Inr ?pool" using inpool by simp
      have gc: "py_get conn (pm ! k) = Inr ?ns" using x "1.prems"(6) by simp
      let ?pm = "add_candidates ?ns ?sg ?pool (remove1 (pm ! k) pm)"
      from "1.prems"(2) k ne have "f \<in> set (drop (Suc k) pm)" by (metis Cons_nth_drop_Suc set_ConsD)
      from drop_remove1_distinct [OF "1.prems"(1) k this]
      have f1: "f \<in> set (drop k (remove1 (pm ! k) pm))" .
      obtain ys where "?pm = remove1 (pm ! k) pm @ ys" using add_candidates_prefix by blast
      with f1 have "f \<in> set (drop k ?pm)" by simp
      moreover have "distinct ?pm" using "1.prems"(1) by (simp add: distinct_add_candidates)
      moreover have "f \<notin> set ?pool" using "1.prems"(3) by (meson notin_set_remove1)
      moreover have "\<forall>y\<in>set ?pm. y < n"
        using "1.prems"(5,8) x by (auto simp: set_add_candidates dest: in_set_remove1)
      ultimately have "member_search conn deci_domi c ?pool ?sg ?pm k = Inl ValueError"
        using "1.IH"(1) [OF k gd dc refl refl rem refl gc] "1.prems"(4,6-8) by simp
      with k gd dc rem gc show ?thesis by (simp add: ms Let_def)
    qed
  qed
qed

text \<open>
  C4 (error): the search trusts the topology. A self-loop at node 0, the first seed,
  puts node 0 among its own potential members after it has left the pool; when the scan
  reaches it, \<open>n_pool.remove(new_member)\<close> (line 238) raises \<open>ValueError\<close>, whatever
  the rest of the topology and the decisions are. Nothing in the code rejects such a
  topology beforehand.
\<close>

theorem update_subgroups_unchecked_topology:
  assumes "0 < n" and "length conn = n" and "length deci_domi = n"
    and "\<forall>i<n. \<forall>y\<in>set (conn ! i). y < n" and "distinct (conn ! 0)" and "0 \<in> set (conn ! 0)"
  shows "update_subgroups n conn deci_domi = Inl ValueError"
proof -
  have upt: "[0..<n] = 0 # [1..<n]" using assms(1) by (simp add: upt_rec)
  have "member_search conn deci_domi (deci_domi ! 0) [1..<n] [0] (conn ! 0) 0 = Inl ValueError"
    using assms by (intro member_search_lost_member [where n = n]) auto
  with assms(1-3) show ?thesis
    unfolding update_subgroups_def upt by (subst find_subgroups.simps) simp
qed

theorem update_subgroups_unchecked_topology_witness:
  "0 < (3::nat) \<and> length [[2, 0], [0], [1]] = 3 \<and> length [0, 1, 0::nat] = 3 \<and>
   list_all (list_all (\<lambda>y. y < 3)) [[2, 0], [0], [1::nat]] \<and> distinct ([[2, 0], [0], [1::nat]] ! 0) \<and>
   0 \<in> set ([[2, 0], [0], [1::nat]] ! 0) \<and>
   update_subgroups 3 [[2, 0], [0], [1]] [0, 1, 0] = Inl ValueError"
proof -
  have r: "\<forall>i<3. \<forall>y\<in>set ([[2, 0], [0], [1::nat]] ! i). y < 3" by (simp add: less_Suc_eq numeral_eq_Suc)
  from update_subgroups_unchecked_topology [of 3 "[[2, 0], [0], [1]]" "[0, 1, 0]"] r
  show ?thesis by simp
qed

lemma one_sided_edge_example: "update_subgroups 2 [[], [0]] [0, 0] = Inl ValueError"
  by code_simp

text \<open>
  C25. The consistency check of lines 264--266 catches an unassigned node: when the
  subgroups are duplicate-free and in range but miss a node, the program stops
  (\<open>sys.exit\<close>).
\<close>

theorem update_subsizes_missing_node:
  assumes "distinct (concat gs)" and "set (concat gs) \<subseteq> {..<n}" and "length ss = n"
    and "i < n" and "i \<notin> set (concat gs)"
  shows "update_subsizes n gs ss = Inl SysExit"
proof -
  from assms(1-3) have "distinct [0..<n]" "set (concat gs) \<subseteq> set [0..<n]"
    "\<forall>i\<in>set (concat gs). i < length ss" by auto
  from assign_sizes_correct [OF assms(1) this] obtain ss' tr' where
    a: "assign_sizes gs ss [0..<n] = Inr (ss', tr')" "set tr' = set [0..<n] - set (concat gs)" by blast
  with assms(4,5) have "tr' \<noteq> []" by auto
  with a(1) show ?thesis by (simp add: update_subsizes_def)
qed

theorem update_subsizes_missing_node_witness:
  "update_subsizes 3 [[0], [2]] [0, 0, 0] = Inl SysExit"
  using update_subsizes_missing_node [of "[[0], [2]]" 3 "[0, 0, 0]" 1] by simp

text \<open>
  C26. A node assigned to two subgroups is caught earlier: the second
  \<open>traverse_list.remove(i)\<close> (line 263) raises \<open>ValueError\<close>.
\<close>

theorem update_subsizes_double_assignment:
  assumes "\<forall>i\<in>set (concat gs). i < length ss" and "\<not> distinct (concat gs)"
  shows "update_subsizes n gs ss = Inl ValueError"
proof (cases "assign_sizes gs ss [0..<n]")
  case (Inl e)
  from assign_sizes_Inl [OF Inl assms(1)] Inl show ?thesis by (simp add: update_subsizes_def)
next
  case (Inr r)
  obtain ss' tr' where "r = (ss', tr')" by (cases r)
  from assign_sizes_Inr [OF Inr [unfolded this]] assms(2) show ?thesis by simp
qed

theorem update_subsizes_double_assignment_witness:
  "update_subsizes 3 [[0, 1], [1, 2]] [0, 0, 0] = Inl ValueError"
  using update_subsizes_double_assignment [of "[[0, 1], [1, 2]]" "[0, 0, 0]" 3] by simp

end
