(* ===== verification/Distributions.thy ===== *)
theory Distributions
  imports Prelude
begin

text \<open>
  The distribution store of \<open>probabilistic_convergence.py\<close>: the configuration
  constants, the numpy row operations the update uses (\<open>+\<close>, \<open>-\<close>, scaling,
  division, \<open>np.sum\<close>, the L1 difference of line 300), the normalisation of the random
  initial matrix (lines 146--150) and \<open>np.argmax\<close> per row (lines 152 and 212). A
  distribution is a row of \<open>real\<close>s: the model computes exactly where the program
  computes with floats. \<open>dist_ok D\<close> is the invariant the spec asks for: length
  \<open>D\<close>, no negative entry, sum 1.
\<close>

section \<open>Configuration\<close>

text \<open>The module-level constants \<open>net_size\<close>, \<open>deci_num\<close>, \<open>dist_diff_thres\<close>, \<open>dist_diff_power\<close>.\<close>

record sim_config =
  net_size :: nat
  deci_num :: nat
  dist_diff_thres :: real
  dist_diff_power :: real

definition default_config :: sim_config where
  "default_config = \<lparr>net_size = 30, deci_num = 30, dist_diff_thres = 3 / 10,
                      dist_diff_power = 3 / 10\<rparr>"

section \<open>Row operations\<close>

definition vec_add :: "dist \<Rightarrow> dist \<Rightarrow> dist" where
  "vec_add xs ys = map2 (+) xs ys"

definition vec_sub :: "dist \<Rightarrow> dist \<Rightarrow> dist" where
  "vec_sub xs ys = map2 (-) xs ys"

definition vec_scale :: "dist \<Rightarrow> real \<Rightarrow> dist" where
  "vec_scale xs a = map (\<lambda>x. x * a) xs"

definition vec_div :: "dist \<Rightarrow> real \<Rightarrow> dist" where
  "vec_div xs a = map (\<lambda>x. x / a) xs"

text \<open>\<open>row / np.sum(row)\<close>, as lines 150, 286--287, 332--333 and 344--345 write it.\<close>

definition normalize_dist :: "dist \<Rightarrow> dist" where
  "normalize_dist xs = vec_div xs (sum_list xs)"

text \<open>Line 300: \<open>np.sum(abs(a - b))\<close>.\<close>

definition dist_diff :: "dist \<Rightarrow> dist \<Rightarrow> real" where
  "dist_diff xs ys = sum_list (map abs (vec_sub xs ys))"

section \<open>Initial distributions and dominant decisions\<close>

text \<open>Lines 148--150: each row of the random matrix is divided by its sum.\<close>

definition init_dist :: "matrix \<Rightarrow> matrix" where
  "init_dist deci_dist = map normalize_dist deci_dist"

text \<open>
  \<open>np.argmax\<close> of a row: the first index of the largest entry; an empty row raises
  \<open>ValueError\<close>. The scan keeps the index and value of the best entry so far and
  replaces it only on a strictly larger entry.
\<close>

fun argmax_from :: "real list \<Rightarrow> nat \<Rightarrow> nat \<Rightarrow> real \<Rightarrow> nat" where
  "argmax_from [] i best m = best"
| "argmax_from (x # xs) i best m =
     (if m < x then argmax_from xs (Suc i) i x else argmax_from xs (Suc i) best m)"

definition argmax :: "real list \<Rightarrow> nat result" where
  "argmax row = (case row of [] \<Rightarrow> Inl ValueError | x # xs \<Rightarrow> Inr (argmax_from xs 1 0 x))"

text \<open>Lines 152 and 212: \<open>deci_domi = np.argmax(deci_dist, axis=1)\<close>.\<close>

definition dominant_decisions :: "matrix \<Rightarrow> nat list result" where
  "dominant_decisions deci_dist = map_res argmax deci_dist"

section \<open>The distribution invariant\<close>

definition dist_ok :: "nat \<Rightarrow> dist \<Rightarrow> bool" where
  "dist_ok D row \<longleftrightarrow> length row = D \<and> list_all (\<lambda>x. 0 \<le> x) row \<and> sum_list row = 1"

definition matrix_ok :: "nat \<Rightarrow> nat \<Rightarrow> matrix \<Rightarrow> bool" where
  "matrix_ok N D m \<longleftrightarrow> length m = N \<and> list_all (dist_ok D) m"


section \<open>Lemmas on the row operations and the invariant\<close>

lemma length_vec_add [simp]: "length (vec_add xs ys) = min (length xs) (length ys)"
  by (simp add: vec_add_def)

lemma length_vec_scale [simp]: "length (vec_scale xs a) = length xs"
  by (simp add: vec_scale_def)

lemma length_vec_div [simp]: "length (vec_div xs a) = length xs"
  by (simp add: vec_div_def)

lemma length_normalize_dist [simp]: "length (normalize_dist xs) = length xs"
  by (simp add: normalize_dist_def)

lemma nth_vec_add [simp]: "i < length xs \<Longrightarrow> i < length ys \<Longrightarrow> vec_add xs ys ! i = xs ! i + ys ! i"
  by (simp add: vec_add_def)

lemma nth_vec_scale [simp]: "i < length xs \<Longrightarrow> vec_scale xs a ! i = xs ! i * a"
  by (simp add: vec_scale_def)

lemma nth_vec_div [simp]: "i < length xs \<Longrightarrow> vec_div xs a ! i = xs ! i / a"
  by (simp add: vec_div_def)

lemma sum_vec_add: "length xs = length ys \<Longrightarrow> sum_list (vec_add xs ys) = sum_list xs + sum_list ys"
  by (induction xs ys rule: list_induct2) (simp_all add: vec_add_def)

lemma sum_vec_scale: "sum_list (vec_scale xs a) = sum_list xs * a"
  by (induction xs) (simp_all add: vec_scale_def algebra_simps)

lemma sum_vec_div: "sum_list (vec_div xs a) = sum_list xs / a"
  by (induction xs) (simp_all add: vec_div_def add_divide_distrib)

lemma nonneg_vec_add: "list_all (\<lambda>x. 0 \<le> x) xs \<Longrightarrow> list_all (\<lambda>x. 0 \<le> x) ys \<Longrightarrow>
   list_all (\<lambda>x. 0 \<le> x) (vec_add xs ys)"
  by (induction xs ys rule: list_induct2') (simp_all add: vec_add_def)

lemma nonneg_vec_scale: "list_all (\<lambda>x. 0 \<le> x) xs \<Longrightarrow> 0 \<le> a \<Longrightarrow> list_all (\<lambda>x. 0 \<le> x) (vec_scale xs a)"
  by (induction xs) (simp_all add: vec_scale_def)

lemma nonneg_vec_div: "list_all (\<lambda>x. 0 \<le> x) xs \<Longrightarrow> 0 \<le> a \<Longrightarrow> list_all (\<lambda>x. 0 \<le> x) (vec_div xs a)"
  by (induction xs) (simp_all add: vec_div_def)

lemma normalize_dist_ok:
  assumes "length xs = D" "list_all (\<lambda>x. 0 \<le> x) xs" "0 < sum_list xs"
  shows "dist_ok D (normalize_dist xs)"
  using assms by (simp add: dist_ok_def normalize_dist_def sum_vec_div nonneg_vec_div)

lemma dist_ok_sum: "dist_ok D xs \<Longrightarrow> sum_list xs = 1"
  by (simp add: dist_ok_def)

lemma dist_ok_nonneg: "dist_ok D xs \<Longrightarrow> i < length xs \<Longrightarrow> 0 \<le> xs ! i"
  by (simp add: dist_ok_def list_all_length)

lemma dist_ok_length: "dist_ok D xs \<Longrightarrow> length xs = D"
  by (simp add: dist_ok_def)

lemma matrix_ok_row: "matrix_ok N D m \<Longrightarrow> i < N \<Longrightarrow> dist_ok D (m ! i)"
  by (simp add: matrix_ok_def list_all_length)

lemma matrix_ok_update:
  assumes "matrix_ok N D m" and "dist_ok D r"
  shows "matrix_ok N D (m[i := r])"
proof -
  have "dist_ok D (m[i := r] ! j)" if "j < length m" for j
    using assms that by (cases "i = j") (simp_all add: matrix_ok_def list_all_length)
  with assms show ?thesis by (simp add: matrix_ok_def list_all_length)
qed

lemma dist_diff_nonneg: "0 \<le> dist_diff xs ys"
  unfolding dist_diff_def by (rule sum_list_nonneg) auto

lemma dist_diff_self: "dist_diff xs xs = 0"
  by (induction xs) (simp_all add: dist_diff_def vec_sub_def)

section \<open>np.argmax returns the first index of the maximum\<close>

lemma argmax_from_correct:
  assumes "b < length p" "p ! b = m" "\<forall>j<length p. p ! j \<le> m" "\<forall>j<b. p ! j < m"
  shows "argmax_from xs (length p) b m < length (p @ xs) \<and>
         (\<forall>j<length (p @ xs). (p @ xs) ! j \<le> (p @ xs) ! argmax_from xs (length p) b m) \<and>
         (\<forall>j<argmax_from xs (length p) b m. (p @ xs) ! j < (p @ xs) ! argmax_from xs (length p) b m)"
  using assms
proof (induction xs arbitrary: p b m)
  case Nil
  then show ?case by simp
next
  case (Cons x xs)
  show ?case
  proof (cases "m < x")
    case True
    have "length p < length (p @ [x])" "(p @ [x]) ! length p = x"
      "\<forall>j<length (p @ [x]). (p @ [x]) ! j \<le> x" "\<forall>j<length p. (p @ [x]) ! j < x"
      using Cons.prems True by (auto simp: nth_append less_Suc_eq)
    from Cons.IH [OF this] True show ?thesis by simp
  next
    case False
    have "b < length (p @ [x])" "(p @ [x]) ! b = m"
      "\<forall>j<length (p @ [x]). (p @ [x]) ! j \<le> m" "\<forall>j<b. (p @ [x]) ! j < m"
      using Cons.prems False by (auto simp: nth_append less_Suc_eq)
    from Cons.IH [OF this] False show ?thesis by simp
  qed
qed

lemma argmax_correct:
  assumes "row \<noteq> []"
  shows "\<exists>d. argmax row = Inr d \<and> d < length row \<and> (\<forall>j<length row. row ! j \<le> row ! d) \<and>
           (\<forall>j<d. row ! j < row ! d)"
proof -
  obtain x xs where row: "row = x # xs" using assms by (cases row) auto
  from argmax_from_correct [of 0 "[x]" x xs] show ?thesis
    by (simp add: argmax_def row)
qed

lemma dominant_decisions_ok:
  assumes "matrix_ok N D m" and "0 < D"
  shows "\<exists>deci_domi. dominant_decisions m = Inr deci_domi \<and> length deci_domi = N \<and>
           (\<forall>i<N. deci_domi ! i < D \<and> (\<forall>j<D. m ! i ! j \<le> m ! i ! (deci_domi ! i)) \<and>
                  (\<forall>j<deci_domi ! i. m ! i ! j < m ! i ! (deci_domi ! i)))"
proof -
  have "\<exists>d. argmax row = Inr d \<and> d < D \<and> (\<forall>j<D. row ! j \<le> row ! d) \<and> (\<forall>j<d. row ! j < row ! d)"
    if "row \<in> set m" for row
  proof -
    from that assms(1) have "length row = D" by (auto simp: matrix_ok_def dist_ok_def list_all_iff)
    with assms(2) argmax_correct [of row] show ?thesis by auto
  qed
  from map_res_Inr [of m argmax "\<lambda>row d. d < D \<and> (\<forall>j<D. row ! j \<le> row ! d) \<and> (\<forall>j<d. row ! j < row ! d)", OF this]
  show ?thesis using assms(1) by (auto simp: dominant_decisions_def matrix_ok_def)
qed

section \<open>Properties of the dominant decision\<close>

text \<open>
  C23. \<open>np.argmax\<close> per row picks, for every node, a decision of maximal probability,
  and on a tie the lowest such index: every earlier decision has a strictly smaller
  probability. This is the tie rule the specification fixes (sections 3 and 9).
\<close>

theorem dominant_decisions_lowest_index:
  assumes "matrix_ok N D m" and "0 < D"
  shows "\<exists>deci_domi. dominant_decisions m = Inr deci_domi \<and> length deci_domi = N \<and>
           (\<forall>i<N. deci_domi ! i < D \<and> (\<forall>j<D. m ! i ! j \<le> m ! i ! (deci_domi ! i)) \<and>
                  (\<forall>j<deci_domi ! i. m ! i ! j < m ! i ! (deci_domi ! i)))"
  using dominant_decisions_ok [OF assms] .

theorem dominant_decisions_lowest_index_witness:
  "matrix_ok 2 3 [[1/4, 1/2, 1/4], [1/3, 1/3, 1/3]] \<and>
   dominant_decisions [[1/4, 1/2, 1/4], [1/3, 1/3, 1/3]] = Inr [1, 0]"
proof -
  have ok: "matrix_ok 2 3 [[1/4, 1/2, 1/4], [1/3, 1/3, 1/3 :: real]]"
    by (simp add: matrix_ok_def dist_ok_def)
  from dominant_decisions_lowest_index [OF ok] obtain dd where
    "dominant_decisions [[1/4, 1/2, 1/4], [1/3, 1/3, 1/3]] = Inr dd" by auto
  moreover have "dominant_decisions [[1/4, 1/2, 1/4], [1/3, 1/3, 1/3 :: real]] = Inr [1, 0]"
    by (simp add: dominant_decisions_def argmax_def)
  ultimately show ?thesis using ok by simp
qed

end
