(* ===== verification/Sharpen.thy ===== *)
theory Sharpen
  imports Distributions
begin

text \<open>
  The unipolarity step of \<open>probabilistic_convergence.py\<close> (lines 302--333): the
  bubble sort of a copy of the averaged distribution that carries the decision indices
  along (\<open>dist_temp\<close>, \<open>sort_index\<close>), the linear multiplier from \<open>small_end\<close> to
  \<open>large_end\<close> over the ranks, and the final renormalisation.
\<close>

section \<open>Bubble sort with the index list\<close>

definition swap_adj :: "'a list \<Rightarrow> nat \<Rightarrow> 'a list" where
  "swap_adj xs k = xs[k := xs ! Suc k, Suc k := xs ! k]"

text \<open>Lines 318--326: one comparison, swapping both lists when \<open>dist_temp[k] > dist_temp[k+1]\<close>.\<close>

definition bubble_step :: "nat \<Rightarrow> real list \<times> nat list \<Rightarrow> real list \<times> nat list" where
  "bubble_step k st =
     (case st of (dist_temp, sort_index) \<Rightarrow>
        if dist_temp ! k > dist_temp ! Suc k
        then (swap_adj dist_temp k, swap_adj sort_index k) else st)"

text \<open>Line 317: \<open>for k in range(m)\<close>.\<close>

definition bubble_pass :: "nat \<Rightarrow> real list \<times> nat list \<Rightarrow> real list \<times> nat list" where
  "bubble_pass m st = fold bubble_step [0..<m] st"

text \<open>Lines 314--326: the copy, \<open>sort_index = range(deci_num)\<close> and \<open>for j in range(deci_num-1)\<close>.\<close>

definition bubble_sort_index :: "nat \<Rightarrow> dist \<Rightarrow> real list \<times> nat list" where
  "bubble_sort_index deci_n row =
     fold (\<lambda>j. bubble_pass (deci_n - 1 - j)) [0..<deci_n - 1] (row, [0..<deci_n])"

section \<open>The linear multiplier\<close>

text \<open>
  Line 329: \<open>small_end + float(j)/(deci_num-1) * (large_end-small_end)\<close>. With one
  decision the divisor is zero and Python raises \<open>ZeroDivisionError\<close>.
\<close>

definition multiplier :: "nat \<Rightarrow> real \<Rightarrow> real \<Rightarrow> nat \<Rightarrow> real result" where
  "multiplier deci_n small_end large_end j =
     (if int deci_n - 1 = 0 then Inl ZeroDivisionError
      else Inr (small_end + real j / real_of_int (int deci_n - 1) * (large_end - small_end)))"

text \<open>Lines 328--330: each entry, taken in ascending rank, is multiplied in place.\<close>

definition apply_multipliers :: "nat \<Rightarrow> real \<Rightarrow> real \<Rightarrow> nat list \<Rightarrow> dist \<Rightarrow> dist result" where
  "apply_multipliers deci_n small_end large_end sort_index row =
     fold_res (\<lambda>j row.
         case multiplier deci_n small_end large_end j of
           Inl e \<Rightarrow> Inl e
         | Inr multiplier_j \<Rightarrow> Inr (row[sort_index ! j := row ! (sort_index ! j) * multiplier_j]))
       [0..<deci_n] row"

text \<open>
  Lines 305--333, the branch taken when \<open>dist_diff_max < dist_diff_thres\<close>:
  \<open>1.0/deci_num\<close> raises \<open>ZeroDivisionError\<close> when there is no decision; the ratio is
  raised to \<open>dist_diff_power\<close> (\<open>np.power\<close>, \<open>powr\<close> here, with \<open>0 powr p = 0\<close>).
\<close>

definition sharpen :: "sim_config \<Rightarrow> real \<Rightarrow> dist \<Rightarrow> dist result" where
  "sharpen cfg dist_diff_max row =
     (if deci_num cfg = 0 then Inl ZeroDivisionError
      else
        (let dist_diff_ratio = dist_diff_max / dist_diff_thres cfg;
             small_end = 1 / real (deci_num cfg) * dist_diff_ratio powr dist_diff_power cfg;
             large_end = 2 / real (deci_num cfg) - small_end;
             sort_index = snd (bubble_sort_index (deci_num cfg) row)
         in case apply_multipliers (deci_num cfg) small_end large_end sort_index row of
              Inl e \<Rightarrow> Inl e
            | Inr row' \<Rightarrow> Inr (normalize_dist row')))"

section \<open>Reference definitions for the proofs\<close>

text \<open>
  \<open>vstep\<close> is the comparison step on the values alone; \<open>sorted_suffix s vs\<close> says
  that positions from \<open>s\<close> on hold their final sorted values, the invariant of the outer
  loop; \<open>index_inv\<close> ties \<open>dist_temp\<close> to \<open>sort_index\<close>. \<open>rank_mult\<close> is the
  multiplier of rank \<open>j\<close> once the divisor is known to be non-zero, and
  \<open>scale_ranks\<close> is the multiplier loop without the error branch.
\<close>

definition vstep :: "nat \<Rightarrow> real list \<Rightarrow> real list" where
  "vstep k vs = (if vs ! k > vs ! Suc k then swap_adj vs k else vs)"

definition sorted_suffix :: "nat \<Rightarrow> real list \<Rightarrow> bool" where
  "sorted_suffix s vs \<longleftrightarrow> (\<forall>a b. a \<le> b \<longrightarrow> b < length vs \<longrightarrow> s \<le> b \<longrightarrow> vs ! a \<le> vs ! b)"

definition index_inv :: "nat \<Rightarrow> dist \<Rightarrow> real list \<times> nat list \<Rightarrow> bool" where
  "index_inv D row st \<longleftrightarrow>
     length (snd st) = D \<and> map (nth row) (snd st) = fst st \<and> mset (snd st) = mset [0..<D]"

text \<open>\<open>key_step\<close> is one comparison of the bubble sort acting on the index list alone.\<close>

definition key_step :: "real list \<Rightarrow> nat \<Rightarrow> nat list \<Rightarrow> nat list" where
  "key_step drow k idx = (if drow ! (idx ! k) > drow ! (idx ! Suc k) then swap_adj idx k else idx)"

definition rank_mult :: "nat \<Rightarrow> real \<Rightarrow> real \<Rightarrow> nat \<Rightarrow> real" where
  "rank_mult D s l j = s + real j / real (D - 1) * (l - s)"

definition scale_ranks :: "nat \<Rightarrow> real \<Rightarrow> real \<Rightarrow> nat list \<Rightarrow> nat \<Rightarrow> dist \<Rightarrow> dist" where
  "scale_ranks D s l idx n row =
     fold (\<lambda>j r. r[idx ! j := r ! (idx ! j) * rank_mult D s l j]) [0..<n] row"

section \<open>Sorting the values\<close>

lemma fst_bubble_step: "fst (bubble_step k st) = vstep k (fst st)"
  by (simp add: bubble_step_def vstep_def split: prod.splits)

lemma fst_bubble_pass: "fst (bubble_pass m st) = fold vstep [0..<m] (fst st)"
  unfolding bubble_pass_def
  by (induction m arbitrary: st) (simp_all add: fst_bubble_step)

lemma length_swap_adj [simp]: "length (swap_adj xs k) = length xs"
  by (simp add: swap_adj_def)

lemma mset_swap_adj: "Suc k < length xs \<Longrightarrow> mset (swap_adj xs k) = mset xs"
  by (simp add: swap_adj_def mset_swap)

lemma length_fold_vstep [simp]: "length (fold vstep ks vs) = length vs"
  by (induction ks arbitrary: vs) (simp_all add: vstep_def)

lemma vstep_facts:
  assumes "Suc k < length vs"
  shows "mset (vstep k vs) = mset vs" "\<forall>i. i \<noteq> k \<longrightarrow> i \<noteq> Suc k \<longrightarrow> vstep k vs ! i = vs ! i"
    "vstep k vs ! k \<le> vstep k vs ! Suc k"
    "vstep k vs ! Suc k = max (vs ! k) (vs ! Suc k)"
  using assms by (auto simp: vstep_def swap_adj_def mset_swap nth_list_update)

text \<open>One pass over \<open>[0..<m]\<close> brings the largest of the first \<open>m + 1\<close> values to position \<open>m\<close>.\<close>

lemma bubble_pass_max:
  assumes "m < length vs"
  shows "mset (fold vstep [0..<m] vs) = mset vs \<and>
         (\<forall>i>m. fold vstep [0..<m] vs ! i = vs ! i) \<and>
         (\<forall>j\<le>m. fold vstep [0..<m] vs ! j \<le> fold vstep [0..<m] vs ! m)"
  using assms
proof (induction m)
  case 0
  then show ?case by simp
next
  case (Suc m)
  let ?w = "fold vstep [0..<m] vs"
  from Suc have IH: "mset ?w = mset vs" "\<forall>i>m. ?w ! i = vs ! i" "\<forall>j\<le>m. ?w ! j \<le> ?w ! m"
    by simp_all
  from Suc.prems have len: "Suc m < length ?w" by simp
  note F = vstep_facts [OF len]
  have "\<forall>j\<le>Suc m. vstep m ?w ! j \<le> vstep m ?w ! Suc m"
  proof (intro allI impI)
    fix j assume "j \<le> Suc m"
    then consider "j < m" | "j = m" | "j = Suc m" by linarith
    then show "vstep m ?w ! j \<le> vstep m ?w ! Suc m"
    proof cases
      case 1
      then have "vstep m ?w ! j = ?w ! j" using F(2) by simp
      also have "\<dots> \<le> ?w ! m" using IH(3) 1 by simp
      also have "\<dots> \<le> vstep m ?w ! Suc m" using F(4) by simp
      finally show ?thesis .
    next
      case 2
      with F(3) show ?thesis by simp
    qed simp
  qed
  moreover have "\<forall>i>Suc m. vstep m ?w ! i = vs ! i"
    using F(2) IH(2) by simp
  ultimately show ?case using F(1) IH(1) by simp
qed

lemma mset_take_eq:
  assumes "mset xs = mset ys" and "drop n xs = drop n ys"
  shows "mset (take n xs) = mset (take n ys)"
proof -
  have "mset (take n xs) + mset (drop n xs) = mset (take n ys) + mset (drop n ys)"
    using assms(1) by (simp flip: mset_append)
  with assms(2) show ?thesis by simp
qed

lemma pass_sorted_suffix:
  assumes m: "m < length vs" and s: "sorted_suffix (Suc m) vs"
  shows "sorted_suffix m (fold vstep [0..<m] vs)"
proof -
  let ?w = "fold vstep [0..<m] vs"
  from bubble_pass_max [OF m] have M: "mset ?w = mset vs" "\<forall>i>m. ?w ! i = vs ! i"
    "\<forall>j\<le>m. ?w ! j \<le> ?w ! m" by simp_all
  have "drop (Suc m) ?w = drop (Suc m) vs"
    using M(2) by (intro nth_equalityI) simp_all
  with M(1) have "set (take (Suc m) ?w) = set (take (Suc m) vs)"
    by (metis mset_take_eq set_mset_mset)
  then have pre: "\<exists>a'\<le>m. vs ! a' = ?w ! a" if "a \<le> m" for a
  proof -
    from that m have "?w ! a \<in> set (take (Suc m) ?w)" by (intro nth_in_take) simp_all
    with \<open>set (take (Suc m) ?w) = _\<close> obtain a' where "a' < Suc m" "vs ! a' = ?w ! a"
      by (auto dest: in_take_nth)
    then show ?thesis by (intro exI [of _ a']) simp
  qed
  show ?thesis
    unfolding sorted_suffix_def
  proof (intro allI impI)
    fix a b assume ab: "a \<le> b" and b: "b < length ?w" and mb: "m \<le> b"
    show "?w ! a \<le> ?w ! b"
    proof (cases "b = m")
      case True
      with ab M(3) show ?thesis by simp
    next
      case False
      with mb have bm: "Suc m \<le> b" by simp
      with M(2) have wb: "?w ! b = vs ! b" by simp
      show ?thesis
      proof (cases "a \<le> m")
        case True
        from pre [OF True] obtain a' where "a' \<le> m" "vs ! a' = ?w ! a" by blast
        with bm b have "vs ! a' \<le> vs ! b"
          using s [unfolded sorted_suffix_def, rule_format, of a' b] by simp
        with \<open>vs ! a' = ?w ! a\<close> wb show ?thesis by simp
      next
        case False
        with M(2) s ab b bm wb show ?thesis unfolding sorted_suffix_def by simp
      qed
    qed
  qed
qed

lemma fst_fold_passes:
  "fst (fold (\<lambda>j. bubble_pass (D - 1 - j)) js st) = fold (\<lambda>j. fold vstep [0..<D - 1 - j]) js (fst st)"
  by (induction js arbitrary: st) (simp_all add: fst_bubble_pass)

lemma passes_invariant:
  assumes "j \<le> D - 1" and "length row = D"
  shows "length (fold (\<lambda>j. fold vstep [0..<D - 1 - j]) [0..<j] row) = D \<and>
         mset (fold (\<lambda>j. fold vstep [0..<D - 1 - j]) [0..<j] row) = mset row \<and>
         sorted_suffix (D - j) (fold (\<lambda>j. fold vstep [0..<D - 1 - j]) [0..<j] row)"
  using assms(1)
proof (induction j)
  case 0
  with assms(2) show ?case by (simp add: sorted_suffix_def)
next
  case (Suc j)
  let ?vs = "fold (\<lambda>j. fold vstep [0..<D - 1 - j]) [0..<j] row"
  from Suc have IH: "length ?vs = D" "mset ?vs = mset row" "sorted_suffix (D - j) ?vs" by simp_all
  from Suc.prems have m: "D - 1 - j < length ?vs" and eq: "Suc (D - 1 - j) = D - j"
    using IH(1) by simp_all
  from pass_sorted_suffix [OF m] IH(3) eq have "sorted_suffix (D - 1 - j) (fold vstep [0..<D - 1 - j] ?vs)"
    by simp
  moreover from bubble_pass_max [OF m] have "mset (fold vstep [0..<D - 1 - j] ?vs) = mset ?vs" by simp
  moreover have "fold (\<lambda>j. fold vstep [0..<D - 1 - j]) [0..<Suc j] row = fold vstep [0..<D - 1 - j] ?vs"
    by simp
  moreover have "D - Suc j = D - 1 - j" by simp
  ultimately show ?case using IH(1,2) by (simp only: length_fold_vstep)
qed

lemma sorted_suffix_one:
  assumes "sorted_suffix 1 vs"
  shows "sorted vs"
  unfolding sorted_iff_nth_mono
proof (intro allI impI)
  fix a b assume ab: "a \<le> b" and b: "b < length vs"
  show "vs ! a \<le> vs ! b"
  proof (cases b)
    case 0
    with ab show ?thesis by simp
  next
    case (Suc b')
    with assms ab b show ?thesis unfolding sorted_suffix_def by simp
  qed
qed

lemma fold_passes_sort:
  assumes "length row = D"
  shows "fold (\<lambda>j. fold vstep [0..<D - 1 - j]) [0..<D - 1] row = sort row"
proof -
  let ?vs = "fold (\<lambda>j. fold vstep [0..<D - 1 - j]) [0..<D - 1] row"
  from passes_invariant [OF order_refl assms]
  have inv: "mset ?vs = mset row" "sorted_suffix (D - (D - 1)) ?vs" by simp_all
  have "sorted ?vs"
  proof (cases D)
    case 0
    with assms passes_invariant [OF order_refl assms] show ?thesis by simp
  next
    case (Suc D')
    with inv(2) show ?thesis by (simp add: sorted_suffix_one)
  qed
  with inv(1) show ?thesis by (simp add: properties_for_sort)
qed

lemma bubble_sort_values:
  assumes "length row = D"
  shows "fst (bubble_sort_index D row) = sort row"
  unfolding bubble_sort_index_def fst_fold_passes using fold_passes_sort [OF assms] by simp

lemma map_swap_adj: "Suc k < length xs \<Longrightarrow> map f (swap_adj xs k) = swap_adj (map f xs) k"
  by (simp add: swap_adj_def map_update)

lemma bubble_step_index_inv:
  assumes "index_inv D row st" and "Suc k < D"
  shows "index_inv D row (bubble_step k st)"
proof -
  obtain vs idx where st: "st = (vs, idx)" by (cases st)
  from assms st have len: "Suc k < length idx" and vs: "vs = map (nth row) idx"
    by (simp_all add: index_inv_def)
  from assms st len vs show ?thesis
    by (auto simp: index_inv_def bubble_step_def map_swap_adj mset_swap_adj)
qed

lemma fold_bubble_step_index_inv:
  "index_inv D row st \<Longrightarrow> (\<forall>k\<in>set ks. Suc k < D) \<Longrightarrow> index_inv D row (fold bubble_step ks st)"
  by (induction ks arbitrary: st) (simp_all add: bubble_step_index_inv)

lemma bubble_sort_index_inv:
  assumes "length row = D"
  shows "index_inv D row (bubble_sort_index D row)"
proof -
  have start: "index_inv D row (row, [0..<D])"
    using assms map_nth [of row] by (simp add: index_inv_def)
  have "index_inv D row (fold (\<lambda>j. bubble_pass (D - 1 - j)) js st)"
    if "index_inv D row st" for js st
    using that
  proof (induction js arbitrary: st)
    case (Cons j js)
    have "index_inv D row (bubble_pass (D - 1 - j) st)"
      unfolding bubble_pass_def
      by (rule fold_bubble_step_index_inv [OF Cons.prems]) auto
    with Cons.IH show ?case by simp
  qed simp
  with start show ?thesis by (simp add: bubble_sort_index_def)
qed

lemma swap_adj_decomp:
  assumes "Suc k < length xs"
  shows "swap_adj xs k = take k xs @ [xs ! Suc k, xs ! k] @ drop (Suc (Suc k)) xs"
proof (rule nth_equalityI)
  fix i assume "i < length (swap_adj xs k)"
  then have i: "i < length xs" by simp
  consider "i < k" | "i = k" | "i = Suc k" | "Suc k < i" by linarith
  then show "swap_adj xs k ! i = (take k xs @ [xs ! Suc k, xs ! k] @ drop (Suc (Suc k)) xs) ! i"
  proof cases
    case 4
    define m where "m = i - Suc (Suc k)"
    with 4 have im: "i = Suc (Suc k) + m" by simp
    have "(take k xs @ [xs ! Suc k, xs ! k] @ drop (Suc (Suc k)) xs) ! (Suc (Suc k) + m) =
            xs ! (Suc (Suc k) + m)"
      using assms i im by (simp add: nth_append min_def)
    moreover have "swap_adj xs k ! (Suc (Suc k) + m) = xs ! (Suc (Suc k) + m)"
      by (simp add: swap_adj_def nth_list_update)
    ultimately show ?thesis by (simp only: im)
  qed (use assms i in \<open>simp_all add: swap_adj_def nth_append nth_list_update\<close>)
qed (use assms in simp)

lemma filter_swap_adj:
  assumes "Suc k < length xs" and "\<not> (P (xs ! k) \<and> P (xs ! Suc k))"
  shows "filter P (swap_adj xs k) = filter P xs"
proof -
  let ?as = "take k xs" and ?bs = "drop (Suc (Suc k)) xs" and ?a = "xs ! k" and ?b = "xs ! Suc k"
  have xs: "xs = ?as @ [?a, ?b] @ ?bs"
    using assms(1) by (metis Cons_nth_drop_Suc Suc_lessD append_Cons append_Nil append_take_drop_id)
  have ab: "filter P [?b, ?a] = filter P [?a, ?b]" by (cases "P ?a") (use assms(2) in simp_all)
  have "filter P (?as @ [?b, ?a] @ ?bs) = filter P (?as @ [?a, ?b] @ ?bs)"
    by (simp only: filter_append ab)
  with xs show ?thesis by (simp only: swap_adj_decomp [OF assms(1)])
qed

lemma key_step_facts:
  assumes "Suc k < length idx"
  shows "length (key_step drow k idx) = length idx" "mset (key_step drow k idx) = mset idx"
    "map (nth drow) (key_step drow k idx) = vstep k (map (nth drow) idx)"
    "filter (\<lambda>x. c = drow ! x) (key_step drow k idx) = filter (\<lambda>x. c = drow ! x) idx"
  using assms filter_swap_adj [OF assms, of "\<lambda>x. c = drow ! x"]
  by (auto simp: key_step_def vstep_def mset_swap_adj map_swap_adj)

lemma fold_key_step_facts:
  assumes "\<forall>k\<in>set ks. Suc k < length idx"
  shows "length (fold (key_step drow) ks idx) = length idx \<and> mset (fold (key_step drow) ks idx) = mset idx \<and>
         map (nth drow) (fold (key_step drow) ks idx) = fold vstep ks (map (nth drow) idx) \<and>
         filter (\<lambda>x. c = drow ! x) (fold (key_step drow) ks idx) = filter (\<lambda>x. c = drow ! x) idx"
  using assms by (induction ks arbitrary: idx) (simp_all add: key_step_facts)

lemma fold_key_passes_facts:
  assumes "length idx = L"
  shows "length (fold (\<lambda>j. fold (key_step drow) [0..<L - 1 - j]) js idx) = L \<and>
         mset (fold (\<lambda>j. fold (key_step drow) [0..<L - 1 - j]) js idx) = mset idx \<and>
         map (nth drow) (fold (\<lambda>j. fold (key_step drow) [0..<L - 1 - j]) js idx) =
           fold (\<lambda>j. fold vstep [0..<L - 1 - j]) js (map (nth drow) idx) \<and>
         filter (\<lambda>x. c = drow ! x) (fold (\<lambda>j. fold (key_step drow) [0..<L - 1 - j]) js idx) =
           filter (\<lambda>x. c = drow ! x) idx"
  using assms
proof (induction js arbitrary: idx)
  case (Cons j js)
  have "\<forall>k\<in>set [0..<L - 1 - j]. Suc k < length idx" using Cons.prems by auto
  note F = fold_key_step_facts [OF this, of drow c]
  from Cons.IH [of "fold (key_step drow) [0..<L - 1 - j] idx"] F Cons.prems show ?case by simp
qed simp

lemma key_passes_sort_key:
  "fold (\<lambda>j. fold (key_step drow) [0..<length idx - 1 - j]) [0..<length idx - 1] idx = sort_key (nth drow) idx"
proof -
  let ?ys = "fold (\<lambda>j. fold (key_step drow) [0..<length idx - 1 - j]) [0..<length idx - 1] idx"
  note F = fold_key_passes_facts [OF refl, where drow = drow and js = "[0..<length idx - 1]" and idx = idx]
  have "map (nth drow) ?ys = sort (map (nth drow) idx)"
    using F [where c = 0] fold_passes_sort [of "map (nth drow) idx"] by simp
  then have "sorted (map (nth drow) ?ys)" by simp
  moreover have "mset ?ys = mset idx" using F [where c = 0] by simp
  moreover have "filter (\<lambda>x. drow ! k = drow ! x) ?ys = filter (\<lambda>x. drow ! k = drow ! x) idx" for k
    using F [where c = "drow ! k"] by simp
  ultimately show ?thesis by (intro properties_for_sort_key [symmetric]) simp_all
qed

lemma fold_bubble_step_key:
  assumes "\<forall>k\<in>set ks. Suc k < length idx"
  shows "fold bubble_step ks (map (nth row) idx, idx) =
    (map (nth row) (fold (key_step row) ks idx), fold (key_step row) ks idx)"
  using assms
proof (induction ks arbitrary: idx)
  case (Cons k ks)
  then have k: "Suc k < length idx" by simp
  have "bubble_step k (map (nth row) idx, idx) = (map (nth row) (key_step row k idx), key_step row k idx)"
    using k by (simp add: bubble_step_def key_step_def map_swap_adj)
  moreover have "\<forall>m\<in>set ks. Suc m < length (key_step row k idx)"
    using Cons.prems key_step_facts(1) [OF k, of row] by simp
  ultimately show ?case using Cons.IH by simp
qed simp

lemma bubble_sort_index_sort_key:
  assumes "length row = D"
  shows "snd (bubble_sort_index D row) = sort_key (nth row) [0..<D]"
proof -
  have "fold (\<lambda>j. bubble_pass (D - 1 - j)) js (map (nth row) idx, idx) =
      (map (nth row) (fold (\<lambda>j. fold (key_step row) [0..<D - 1 - j]) js idx),
       fold (\<lambda>j. fold (key_step row) [0..<D - 1 - j]) js idx)"
    if "length idx = D" for js idx
    using that
  proof (induction js arbitrary: idx)
    case (Cons j js)
    have "\<forall>k\<in>set [0..<D - 1 - j]. Suc k < length idx" using Cons.prems by auto
    note B = fold_bubble_step_key [OF this, of row]
    have "length (fold (key_step row) [0..<D - 1 - j] idx) = D"
      using fold_key_step_facts [OF \<open>\<forall>k\<in>set [0..<D - 1 - j]. Suc k < length idx\<close>, of row 0] Cons.prems
      by simp
    with Cons.IH B show ?case by (simp add: bubble_pass_def)
  qed simp
  from this [of "[0..<D]" "[0..<D - 1]"] have
    "snd (bubble_sort_index D row) = fold (\<lambda>j. fold (key_step row) [0..<D - 1 - j]) [0..<D - 1] [0..<D]"
    using assms map_nth [of row] by (simp add: bubble_sort_index_def)
  with key_passes_sort_key [of row "[0..<D]"] show ?thesis by simp
qed

lemma bubble_sort_index_correct:
  assumes "length row = D"
  shows "\<exists>sort_index. bubble_sort_index D row = (sort row, sort_index) \<and>
           mset sort_index = mset [0..<D] \<and> map (nth row) sort_index = sort row"
proof -
  from bubble_sort_index_inv [OF assms] bubble_sort_values [OF assms]
  show ?thesis unfolding index_inv_def by (metis prod.collapse)
qed

section \<open>The multiplier loop\<close>

lemma multiplier_ok: "2 \<le> D \<Longrightarrow> multiplier D s l j = Inr (rank_mult D s l j)"
  by (simp add: multiplier_def rank_mult_def of_nat_diff)

lemma apply_multipliers_eq:
  "2 \<le> D \<Longrightarrow> apply_multipliers D s l idx row = Inr (scale_ranks D s l idx D row)"
  unfolding apply_multipliers_def scale_ranks_def
  by (rule fold_res_Inr) (simp add: multiplier_ok)

lemma scale_ranks_nth:
  assumes "distinct idx" "n \<le> length idx" "\<forall>j<length idx. idx ! j < length row"
  shows "length (scale_ranks D s l idx n row) = length row \<and>
         (\<forall>j<n. scale_ranks D s l idx n row ! (idx ! j) = row ! (idx ! j) * rank_mult D s l j) \<and>
         (\<forall>x. x \<notin> (!) idx ` {..<n} \<longrightarrow> scale_ranks D s l idx n row ! x = row ! x)"
  using assms(2)
proof (induction n)
  case 0
  then show ?case by (simp add: scale_ranks_def)
next
  case (Suc n)
  let ?r = "scale_ranks D s l idx n row"
  from Suc have IH: "length ?r = length row"
    "\<forall>j<n. ?r ! (idx ! j) = row ! (idx ! j) * rank_mult D s l j"
    "\<forall>x. x \<notin> (!) idx ` {..<n} \<longrightarrow> ?r ! x = row ! x" by simp_all
  have step: "scale_ranks D s l idx (Suc n) row = ?r[idx ! n := ?r ! (idx ! n) * rank_mult D s l n]"
    by (simp add: scale_ranks_def)
  from Suc.prems assms(1) have notin: "idx ! n \<notin> (!) idx ` {..<n}"
    by (auto simp: nth_eq_iff_index_eq)
  from Suc.prems assms(3) IH(1) have inr: "idx ! n < length ?r" by simp
  have A: "\<forall>j<Suc n. scale_ranks D s l idx (Suc n) row ! (idx ! j) = row ! (idx ! j) * rank_mult D s l j"
  proof (intro allI impI)
    fix j assume j: "j < Suc n"
    show "scale_ranks D s l idx (Suc n) row ! (idx ! j) = row ! (idx ! j) * rank_mult D s l j"
    proof (cases "j = n")
      case True
      with inr IH(3) notin show ?thesis by (simp add: step)
    next
      case False
      with j Suc.prems assms(1) have "idx ! j \<noteq> idx ! n" by (simp add: nth_eq_iff_index_eq)
      with False j IH(2) show ?thesis by (simp add: step)
    qed
  qed
  have B: "\<forall>x. x \<notin> (!) idx ` {..<Suc n} \<longrightarrow> scale_ranks D s l idx (Suc n) row ! x = row ! x"
    using IH(3) by (auto simp: step lessThan_Suc)
  from A B IH(1) show ?case by (simp add: step)
qed

section \<open>Sums over ranks\<close>

lemma sum_list_lessThan: "sum_list v = (\<Sum>j<length v. v ! j)"
  by (simp add: sum_list_sum_nth atLeast0LessThan)

lemma lessThan_last:
  fixes D :: nat
  assumes "0 < D"
  shows "{..<D} = insert (D - 1) {..<D - 1}"
proof -
  from assms obtain n where "D = Suc n" by (cases D) auto
  then show ?thesis by (simp add: lessThan_Suc)
qed

lemma rank_sum_less:
  fixes v :: "real list" and m :: "nat \<Rightarrow> real"
  assumes len: "length v = D" and D: "2 \<le> D" and nn: "\<forall>j<D. 0 \<le> v ! j"
    and s1: "sum_list v = 1" and top: "v ! (D - 1) < 1" and mono: "\<forall>j<D - 1. m j < m (D - 1)"
  shows "(\<Sum>j<D. v ! j * m j) < m (D - 1)"
proof -
  let ?t = "m (D - 1)"
  from D have D0: "0 < D" by simp
  from s1 len have S: "(\<Sum>j<D. v ! j) = 1" by (simp add: sum_list_lessThan)
  with D0 have "(\<Sum>j<D - 1. v ! j) = 1 - v ! (D - 1)"
    by (simp add: lessThan_last)
  with top have pos: "0 < (\<Sum>j<D - 1. v ! j)" by simp
  obtain j0 where j0: "j0 < D - 1" "0 < v ! j0"
  proof (rule ccontr)
    assume "\<not> thesis"
    with that have "\<forall>j<D - 1. v ! j \<le> 0" by (meson not_less)
    then have "(\<Sum>j<D - 1. v ! j) \<le> 0" by (intro sum_nonpos) simp
    with pos show False by simp
  qed
  have gap: "0 < (\<Sum>j<D - 1. v ! j * (?t - m j))"
  proof (rule sum_pos2 [of _ j0])
    show "0 < v ! j0 * (?t - m j0)" using j0 mono by simp
    show "0 \<le> v ! j * (?t - m j)" if "j \<in> {..<D - 1}" for j
      using that nn mono by (simp add: less_imp_le)
  qed (use j0 in simp_all)
  have "?t - (\<Sum>j<D. v ! j * m j) = (\<Sum>j<D. v ! j) * ?t - (\<Sum>j<D. v ! j * m j)"
    using S by simp
  also have "\<dots> = (\<Sum>j<D. v ! j * (?t - m j))"
    by (simp add: sum_distrib_right sum_subtractf right_diff_distrib)
  also have "\<dots> = (\<Sum>j<D - 1. v ! j * (?t - m j))"
    using D0 by (simp add: lessThan_last)
  finally show ?thesis using gap by simp
qed

lemma rank_sum_pos:
  fixes v :: "real list" and m :: "nat \<Rightarrow> real"
  assumes "0 < D" and "\<forall>j<D. 0 \<le> v ! j" and "\<forall>j<D. 0 \<le> m j" and "0 < v ! (D - 1)" and "0 < m (D - 1)"
  shows "0 < (\<Sum>j<D. v ! j * m j)"
  using assms by (intro sum_pos2 [of _ "D - 1"]) simp_all

lemma rank_mult_facts:
  assumes "2 \<le> D" and "s < l"
  shows "rank_mult D s l (D - 1) = l" "j < k \<Longrightarrow> rank_mult D s l j < rank_mult D s l k"
    "0 \<le> s \<Longrightarrow> 0 \<le> rank_mult D s l j"
proof -
  from assms(1) have D1: "0 < real (D - 1)" by simp
  show "rank_mult D s l (D - 1) = l" using D1 by (simp add: rank_mult_def)
  show "rank_mult D s l j < rank_mult D s l k" if "j < k"
    using that D1 assms(2) by (simp add: rank_mult_def divide_strict_right_mono)
  show "0 \<le> rank_mult D s l j" if "0 \<le> s"
    using that D1 assms(2) by (simp add: rank_mult_def)
qed

lemma sharpen_ends:
  assumes "0 < thres" "0 \<le> mx" "mx < thres" "0 < p" "0 < D"
  defines "s \<equiv> 1 / real D * (mx / thres) powr p"
  shows "0 \<le> s" "s < 1 / real D" "s < 2 / real D - s" "0 < 2 / real D - s"
proof -
  have r: "0 \<le> mx / thres" "mx / thres < 1" using assms(1-3) by simp_all
  have "(mx / thres) powr p < 1"
  proof (cases "mx = 0")
    case True
    then show ?thesis by simp
  next
    case False
    with assms(1,2) have "0 < mx / thres" by (intro divide_pos_pos) simp_all
    with r assms(4) show ?thesis by (simp add: powr01_less_one)
  qed
  moreover have "0 \<le> (mx / thres) powr p" by simp
  ultimately show "0 \<le> s" "s < 1 / real D" using assms(5)
    by (simp_all add: s_def divide_strict_right_mono)
  then show "s < 2 / real D - s" "0 < 2 / real D - s" by (simp_all add: field_simps)
qed

lemma perm_upt_facts:
  assumes "mset idx = mset [0..<D]"
  shows "length idx = D" "set idx = {..<D}" "distinct idx"
proof -
  show len: "length idx = D" using mset_eq_length [OF assms] by simp
  show st: "set idx = {..<D}" using mset_eq_setD [OF assms] by (simp add: atLeast0LessThan)
  from st len have "card (set idx) = length idx" by simp
  then show "distinct idx" by (rule card_distinct)
qed

lemma sort_dist_facts:
  assumes ok: "dist_ok D row" and D: "0 < D"
  shows "length (sort row) = D" "\<forall>j<D. 0 \<le> sort row ! j" "sum_list (sort row) = 1"
    "sorted (sort row)" "0 < sort row ! (D - 1)"
proof -
  from ok show len: "length (sort row) = D" by (simp add: dist_ok_def)
  from ok have "\<forall>x\<in>set row. 0 \<le> x" by (simp add: dist_ok_def list_all_iff)
  then show nn: "\<forall>j<D. 0 \<le> sort row ! j"
  proof (intro allI impI)
    fix j assume "\<forall>x\<in>set row. 0 \<le> x" "j < D"
    with len have "sort row ! j \<in> set row" using nth_mem [of j "sort row"] by simp
    with \<open>\<forall>x\<in>set row. 0 \<le> x\<close> show "0 \<le> sort row ! j" by blast
  qed
  have "sum_list (sort row) = sum_list row" by (simp flip: sum_mset_sum_list)
  with ok show s1: "sum_list (sort row) = 1" by (simp add: dist_ok_def)
  show srt: "sorted (sort row)" by simp
  show "0 < sort row ! (D - 1)"
  proof (rule ccontr)
    assume "\<not> 0 < sort row ! (D - 1)"
    moreover have "sort row ! j \<le> sort row ! (D - 1)" if "j < D" for j
      using srt len that by (intro sorted_nth_mono) auto
    ultimately have "\<forall>j<D. sort row ! j \<le> 0" by force
    then have "(\<Sum>j<D. sort row ! j) \<le> 0" by (intro sum_nonpos) simp
    with s1 len show False by (simp add: sum_list_lessThan)
  qed
qed

lemma scaled_row_facts:
  assumes perm: "mset idx = mset [0..<D]" and v: "map (nth row) idx = sort row"
    and len: "length row = D" and nn: "\<forall>x<D. 0 \<le> row ! x"
    and mnn: "\<forall>j. 0 \<le> rank_mult D s l j"
  shows "length (scale_ranks D s l idx D row) = D"
    "\<forall>j<D. scale_ranks D s l idx D row ! (idx ! j) = sort row ! j * rank_mult D s l j"
    "sum_list (scale_ranks D s l idx D row) = (\<Sum>j<D. sort row ! j * rank_mult D s l j)"
    "\<forall>x<D. 0 \<le> scale_ranks D s l idx D row ! x"
proof -
  let ?r = "scale_ranks D s l idx D row"
  note P = perm_upt_facts [OF perm]
  have rng: "\<forall>j<length idx. idx ! j < length row"
    using P(1,2) len nth_mem by fastforce
  from scale_ranks_nth [OF P(3) _ rng, of D D s l] P(1)
  have F: "length ?r = length row" "\<forall>j<D. ?r ! (idx ! j) = row ! (idx ! j) * rank_mult D s l j"
    by simp_all
  have vj: "row ! (idx ! j) = sort row ! j" if "j < D" for j
    using that P(1) nth_map [of j idx "nth row"] v by simp
  show len': "length ?r = D" using F(1) len by simp
  show A: "\<forall>j<D. ?r ! (idx ! j) = sort row ! j * rank_mult D s l j"
    using F(2) vj by simp
  have bij: "bij_betw ((!) idx) {..<D} {..<D}"
    using bij_betw_nth [OF P(3)] P(1,2) by simp
  have "sum_list ?r = (\<Sum>x<D. ?r ! x)" by (simp add: sum_list_lessThan len')
  also have "\<dots> = (\<Sum>j<D. ?r ! (idx ! j))"
    using sum.reindex_bij_betw [OF bij, of "(!) ?r"] by simp
  also have "\<dots> = (\<Sum>j<D. sort row ! j * rank_mult D s l j)"
    using A by simp
  finally show "sum_list ?r = (\<Sum>j<D. sort row ! j * rank_mult D s l j)" .
  show "\<forall>x<D. 0 \<le> ?r ! x"
  proof (intro allI impI)
    fix x assume "x < D"
    with P(1,2) obtain j where j: "j < D" "idx ! j = x" by (metis in_set_conv_nth lessThan_iff)
    with vj nn have "0 \<le> sort row ! j" by (metis P(1,2) lessThan_iff nth_mem)
    moreover from A j have "?r ! x = sort row ! j * rank_mult D s l j" by auto
    ultimately show "0 \<le> ?r ! x" using mnn by simp
  qed
qed

section \<open>Sharpening\<close>

lemma sharpen_eq:
  fixes mx :: real
  assumes D: "deci_num cfg = D" "2 \<le> D" and len: "length row = D"
  defines "s \<equiv> 1 / real D * (mx / dist_diff_thres cfg) powr dist_diff_power cfg"
  shows "\<exists>idx. snd (bubble_sort_index D row) = idx \<and> mset idx = mset [0..<D] \<and> map (nth row) idx = sort row \<and>
           sharpen cfg mx row = Inr (normalize_dist (scale_ranks D s (2 / real D - s) idx D row))"
proof -
  from bubble_sort_index_correct [OF len] obtain idx where
    b: "bubble_sort_index D row = (sort row, idx)" "mset idx = mset [0..<D]"
       "map (nth row) idx = sort row" by blast
  from D have "deci_num cfg \<noteq> 0" by simp
  with D b have "sharpen cfg mx row = Inr (normalize_dist (scale_ranks D s (2 / real D - s) idx D row))"
    by (simp add: sharpen_def s_def Let_def apply_multipliers_eq)
  moreover from b(1) have "snd (bubble_sort_index D row) = idx" by simp
  ultimately show ?thesis using b(2,3) by blast
qed

lemma sort_top_index:
  assumes perm: "mset idx = mset [0..<D]" and v: "map (nth row) idx = sort row"
    and len: "length row = D" and d: "d < D" and uniq: "\<forall>x<D. x \<noteq> d \<longrightarrow> row ! x < row ! d"
  shows "idx ! (D - 1) = d"
proof (rule ccontr)
  assume ne: "idx ! (D - 1) \<noteq> d"
  note P = perm_upt_facts [OF perm]
  from d P(1,2) obtain j where j: "j < D" "idx ! j = d" by (metis in_set_conv_nth lessThan_iff)
  from d have D1: "D - 1 < D" by simp
  have vj: "row ! (idx ! k) = sort row ! k" if "k < D" for k
    using that P(1) nth_map [of k idx "nth row"] v by simp
  have "sort row ! j \<le> sort row ! (D - 1)"
    using j len by (intro sorted_nth_mono) auto
  with vj [OF j(1)] vj [OF D1] j have "row ! d \<le> row ! (idx ! (D - 1))" by simp
  moreover from D1 P(1,2) have "idx ! (D - 1) < D" by (metis lessThan_iff nth_mem)
  ultimately show False using uniq ne by fastforce
qed

lemma sharpen_scaled:
  assumes ok: "dist_ok (deci_num cfg) row" and D2: "2 \<le> deci_num cfg"
    and thr: "0 < dist_diff_thres cfg" and pw: "0 < dist_diff_power cfg"
    and mx: "0 \<le> dist_diff_max" "dist_diff_max < dist_diff_thres cfg"
  obtains idx s l where
    "sharpen cfg dist_diff_max row =
       Inr (normalize_dist (scale_ranks (deci_num cfg) s l idx (deci_num cfg) row))"
    "mset idx = mset [0..<deci_num cfg]" "map (nth row) idx = sort row"
    "0 \<le> s" "s < l"
    "\<forall>j<deci_num cfg. scale_ranks (deci_num cfg) s l idx (deci_num cfg) row ! (idx ! j) =
       sort row ! j * rank_mult (deci_num cfg) s l j"
    "sum_list (scale_ranks (deci_num cfg) s l idx (deci_num cfg) row) =
       (\<Sum>j<deci_num cfg. sort row ! j * rank_mult (deci_num cfg) s l j)"
    "0 < sum_list (scale_ranks (deci_num cfg) s l idx (deci_num cfg) row)"
    "length (scale_ranks (deci_num cfg) s l idx (deci_num cfg) row) = deci_num cfg"
    "\<forall>x<deci_num cfg. 0 \<le> scale_ranks (deci_num cfg) s l idx (deci_num cfg) row ! x"
    "snd (bubble_sort_index (deci_num cfg) row) = idx"
proof -
  define D where "D = deci_num cfg"
  define s where "s = 1 / real D * (dist_diff_max / dist_diff_thres cfg) powr dist_diff_power cfg"
  define l where "l = 2 / real D - s"
  from ok D2 have len: "length row = D" and D: "2 \<le> D" by (simp_all add: D_def dist_ok_def)
  from sharpen_eq [OF D_def [symmetric] D len] obtain idx where
    idx: "mset idx = mset [0..<D]" "map (nth row) idx = sort row"
      "sharpen cfg dist_diff_max row = Inr (normalize_dist (scale_ranks D s l idx D row))"
      "snd (bubble_sort_index D row) = idx"
    by (auto simp: s_def l_def)
  from sharpen_ends [OF thr mx pw, of D] D have ends: "0 \<le> s" "s < l" "0 < l"
    by (simp_all add: s_def l_def)
  note M = rank_mult_facts [OF D ends(2)]
  from ok have nn: "\<forall>x<D. 0 \<le> row ! x" using len by (simp add: dist_ok_nonneg D_def)
  note R = scaled_row_facts [OF idx(1,2) len nn allI [OF M(3) [OF ends(1)]]]
  note V = sort_dist_facts [OF ok [folded D_def]]
  from D have D0: "0 < D" by simp
  have "0 < (\<Sum>j<D. sort row ! j * rank_mult D s l j)"
    using V(2,5) [OF D0] M(1,3) ends D0 by (intro rank_sum_pos) simp_all
  with R idx ends that show ?thesis by (simp add: D_def)
qed

lemma sharpen_result_ok:
  assumes "dist_ok (deci_num cfg) row" and "2 \<le> deci_num cfg"
    and "0 < dist_diff_thres cfg" and "0 < dist_diff_power cfg"
    and "0 \<le> dist_diff_max" "dist_diff_max < dist_diff_thres cfg"
  shows "\<exists>row'. sharpen cfg dist_diff_max row = Inr row' \<and> dist_ok (deci_num cfg) row'"
proof -
  obtain idx s l where
    S: "sharpen cfg dist_diff_max row =
          Inr (normalize_dist (scale_ranks (deci_num cfg) s l idx (deci_num cfg) row))"
    and R: "0 < sum_list (scale_ranks (deci_num cfg) s l idx (deci_num cfg) row)"
      "length (scale_ranks (deci_num cfg) s l idx (deci_num cfg) row) = deci_num cfg"
      "\<forall>x<deci_num cfg. 0 \<le> scale_ranks (deci_num cfg) s l idx (deci_num cfg) row ! x"
    by (rule sharpen_scaled [OF assms]) blast
  from R have "dist_ok (deci_num cfg) (normalize_dist (scale_ranks (deci_num cfg) s l idx (deci_num cfg) row))"
    by (intro normalize_dist_ok) (simp_all add: list_all_length)
  with S show ?thesis by simp
qed

lemma rank_of_position:
  assumes "mset idx = mset [0..<D]" and "x < D"
  obtains p where "p < D" "idx ! p = x"
  using assms perm_upt_facts [OF assms(1)] by (metis in_set_conv_nth lessThan_iff)

lemma sorted_rank_less:
  assumes "map (nth row) idx = sort row" and "length idx = D"
    and "p < D" "q < D" and "row ! (idx ! p) < row ! (idx ! q)"
  shows "p < q"
proof (rule ccontr)
  assume "\<not> p < q"
  moreover have "length (sort row) = D" using assms(1,2) by (metis length_map)
  ultimately have "sort row ! q \<le> sort row ! p"
    using assms(3) by (intro sorted_nth_mono) simp_all
  with assms show False using nth_map [of p idx "nth row"] nth_map [of q idx "nth row"] by simp
qed

lemma sorted_wrt_filter_pairs:
  "sorted_wrt R (filter P xs) \<Longrightarrow> sorted_wrt (\<lambda>x y. P x \<longrightarrow> P y \<longrightarrow> R x y) xs"
  by (induction xs) (auto split: if_splits)

lemma stable_tie_positions:
  assumes sk: "idx = sort_key (nth row) [0..<D]" and p: "p < D" "idx ! p = i"
    and q: "q < D" "idx ! q = j" and ij: "i < j" and tie: "row ! i = row ! j"
  shows "p < q"
proof (rule ccontr)
  assume "\<not> p < q"
  moreover from p q ij have "p \<noteq> q" by auto
  ultimately have qp: "q < p" by simp
  let ?P = "\<lambda>y. row ! y = row ! i"
  have "filter ?P idx = filter ?P [0..<D]" using sk by (simp add: sort_key_stable)
  moreover have "sorted_wrt (<) (filter ?P [0..<D])" by (intro sorted_wrt_filter) (simp add: sorted_wrt_upt)
  ultimately have "sorted_wrt (\<lambda>x y. ?P x \<longrightarrow> ?P y \<longrightarrow> x < y) idx"
    by (intro sorted_wrt_filter_pairs) simp
  moreover have "length idx = D" using sk by simp
  ultimately have "?P (idx ! q) \<longrightarrow> ?P (idx ! p) \<longrightarrow> idx ! q < idx ! p"
    using qp p(1) by (simp add: sorted_wrt_iff_nth_less)
  with p q tie ij show False by simp
qed

text \<open>
  C6. Sharpening keeps a distribution a distribution: for a row that is a probability
  distribution over at least two decisions and a maximal difference below the threshold,
  \<open>sharpen\<close> raises no exception and returns a row of the same length, non-negative,
  summing to one.
\<close>

theorem sharpen_dist_ok:
  assumes "dist_ok (deci_num cfg) row" and "2 \<le> deci_num cfg"
    and "0 < dist_diff_thres cfg" and "0 < dist_diff_power cfg"
    and "0 \<le> dist_diff_max" "dist_diff_max < dist_diff_thres cfg"
  shows "\<exists>row'. sharpen cfg dist_diff_max row = Inr row' \<and> dist_ok (deci_num cfg) row'"
  using sharpen_result_ok [OF assms] .

text \<open>
  C7. Sharpening raises a unique dominant decision: when decision \<open>d\<close> has strictly
  the largest probability and that probability is below one, its probability after
  \<open>sharpen\<close> is strictly larger.
\<close>

theorem sharpen_raises_unique_dominant:
  assumes ok: "dist_ok (deci_num cfg) row" and D2: "2 \<le> deci_num cfg"
    and thr: "0 < dist_diff_thres cfg" and pw: "0 < dist_diff_power cfg"
    and mx: "0 \<le> dist_diff_max" "dist_diff_max < dist_diff_thres cfg"
    and d: "d < deci_num cfg" and uniq: "\<forall>x<deci_num cfg. x \<noteq> d \<longrightarrow> row ! x < row ! d"
    and lt1: "row ! d < 1"
  shows "\<exists>row'. sharpen cfg dist_diff_max row = Inr row' \<and> row ! d < row' ! d"
proof -
  define D where "D = deci_num cfg"
  obtain idx s l where
    S: "sharpen cfg dist_diff_max row = Inr (normalize_dist (scale_ranks D s l idx D row))"
    and idx: "mset idx = mset [0..<D]" "map (nth row) idx = sort row"
    and ends: "0 \<le> s" "s < l"
    and R: "\<forall>j<D. scale_ranks D s l idx D row ! (idx ! j) = sort row ! j * rank_mult D s l j"
      "sum_list (scale_ranks D s l idx D row) = (\<Sum>j<D. sort row ! j * rank_mult D s l j)"
      "0 < sum_list (scale_ranks D s l idx D row)"
      "length (scale_ranks D s l idx D row) = D"
    by (rule sharpen_scaled [OF ok D2 thr pw mx]) (simp add: D_def)
  let ?r = "scale_ranks D s l idx D row"
  let ?S = "\<Sum>j<D. sort row ! j * rank_mult D s l j"
  from ok D2 have len: "length row = D" and D: "2 \<le> D" by (simp_all add: D_def dist_ok_def)
  note M = rank_mult_facts [OF D ends(2)]
  note V = sort_dist_facts [OF ok [folded D_def]]
  from D have D0: "0 < D" and D1: "D - 1 < D" by simp_all
  from d uniq have dD: "d < D" and uq: "\<forall>x<D. x \<noteq> d \<longrightarrow> row ! x < row ! d"
    by (simp_all add: D_def)
  have top: "idx ! (D - 1) = d" by (rule sort_top_index [OF idx(1,2) len dD uq])
  have sd: "sort row ! (D - 1) = row ! d"
    using top nth_map [of "D - 1" idx "nth row"] idx(2) perm_upt_facts(1) [OF idx(1)] D1 by simp
  have "\<exists>x<D. x \<noteq> d"
  proof (cases "d = 0")
    case True with D show ?thesis by (intro exI [of _ 1]) simp
  next
    case False with D0 show ?thesis by (intro exI [of _ 0]) simp
  qed
  then obtain x where x: "x < D" "x \<noteq> d" by blast
  from ok len have nn: "\<forall>x<D. 0 \<le> row ! x" by (simp add: dist_ok_nonneg D_def)
  with x uq have pos: "0 < row ! d" by (meson order_le_less_trans)
  have Sl: "?S < l"
    using rank_sum_less [of "sort row" D "rank_mult D s l"] V(1,2,3) D sd lt1 M(1,2) by simp
  have rd: "?r ! d = row ! d * l" using R(1) D1 top sd M(1) by metis
  have "normalize_dist ?r ! d = row ! d * l / ?S"
    using rd R(2,4) dD by (simp add: normalize_dist_def)
  moreover have "row ! d < row ! d * l / ?S"
    using pos R(2,3) Sl by (simp add: pos_less_divide_eq)
  ultimately show ?thesis using S by simp
qed

text \<open>
  C5. The bubble sort of lines 314--326 sorts: \<open>dist_temp\<close> ends equal to \<open>sort\<close> of
  the row, and \<open>sort_index\<close> is a permutation of the decisions that lists them in the
  order of that sorted row.
\<close>

theorem bubble_sort_index_sorts:
  assumes "length row = D"
  shows "fst (bubble_sort_index D row) = sort row \<and>
         mset (snd (bubble_sort_index D row)) = mset [0..<D] \<and>
         map (nth row) (snd (bubble_sort_index D row)) = sort row"
  using bubble_sort_index_correct [OF assms] by auto

theorem bubble_sort_index_sorts_witness:
  "length [3/10, 1/2, 1/5 :: real] = 3 \<and>
   fst (bubble_sort_index 3 [3/10, 1/2, 1/5]) = sort [3/10, 1/2, 1/5] \<and>
   mset (snd (bubble_sort_index 3 [3/10, 1/2, 1/5])) = mset [0..<3] \<and>
   map (nth [3/10, 1/2, 1/5]) (snd (bubble_sort_index 3 [3/10, 1/2, 1/5])) = sort [3/10, 1/2, 1/5 :: real]"
  using bubble_sort_index_sorts [of "[3/10, 1/2, 1/5]" 3] by simp

text \<open>
  C34. The bubble sort is stable: \<open>sort_index\<close> is the stable sort of the decision
  indices by their probabilities, so tied decisions keep their index order. This is what
  decides which of two tied decisions gets the larger multiplier (C8).
\<close>

theorem bubble_sort_index_stable:
  assumes "length row = D"
  shows "snd (bubble_sort_index D row) = sort_key (nth row) [0..<D]"
  by (rule bubble_sort_index_sort_key [OF assms])

theorem bubble_sort_index_stable_witness:
  "length [1/2, 1/4, 1/4 :: real] = 3 \<and>
   snd (bubble_sort_index 3 [1/2, 1/4, 1/4 :: real]) = sort_key (nth [1/2, 1/4, 1/4 :: real]) [0..<3] \<and>
   sort_key (nth [1/2, 1/4, 1/4 :: real]) [0..<3] = [1, 2, 0]"
  using bubble_sort_index_stable [of "[1/2, 1/4, 1/4 :: real]" 3] by (simp add: upt_rec)

theorem sharpen_dist_ok_witness:
  "dist_ok (deci_num \<lparr>net_size = 2, deci_num = 2, dist_diff_thres = 3/10, dist_diff_power = 3/10\<rparr>) [1/4, 3/4] \<and>
   (\<exists>row'. sharpen \<lparr>net_size = 2, deci_num = 2, dist_diff_thres = 3/10, dist_diff_power = 3/10\<rparr> 0 [1/4, 3/4] = Inr row' \<and>
     dist_ok 2 row')"
  using sharpen_dist_ok [of "\<lparr>net_size = 2, deci_num = 2, dist_diff_thres = 3/10, dist_diff_power = 3/10\<rparr>" "[1/4, 3/4]" 0]
  by (simp add: dist_ok_def)

theorem sharpen_raises_unique_dominant_witness:
  "dist_ok 2 [1/4, 3/4] \<and>
   (\<exists>row'. sharpen \<lparr>net_size = 2, deci_num = 2, dist_diff_thres = 3/10, dist_diff_power = 3/10\<rparr> 0 [1/4, 3/4] = Inr row' \<and>
     [1/4, 3/4] ! 1 < row' ! (1::nat))"
  using sharpen_raises_unique_dominant [of "\<lparr>net_size = 2, deci_num = 2, dist_diff_thres = 3/10, dist_diff_power = 3/10\<rparr>" "[1/4, 3/4]" 0 1]
  by (simp add: dist_ok_def numeral_2_eq_2 less_Suc_eq)

text \<open>
  C8. The specification promises that sharpening raises the dominant decision; on a tie
  it does not. The bubble sort is stable, so of two tied decisions the lower index gets
  the lower rank and the smaller multiplier: when decisions \<open>i < j\<close> share the largest
  probability, the decision \<open>np.argmax\<close> calls dominant (the lowest such index) ends
  strictly below \<open>j\<close> after the step.
\<close>

theorem sharpen_tie_demotes_argmax:
  assumes ok: "dist_ok (deci_num cfg) row" and D2: "2 \<le> deci_num cfg"
    and thr: "0 < dist_diff_thres cfg" and pw: "0 < dist_diff_power cfg"
    and mx: "0 \<le> dist_diff_max" "dist_diff_max < dist_diff_thres cfg"
    and ij: "i < j" "j < deci_num cfg" and tie: "row ! i = row ! j"
    and top: "\<forall>x<deci_num cfg. row ! x \<le> row ! i"
  shows "\<exists>row'. sharpen cfg dist_diff_max row = Inr row' \<and> row' ! i < row' ! j"
proof -
  define D where "D = deci_num cfg"
  obtain idx s l where
    S: "sharpen cfg dist_diff_max row = Inr (normalize_dist (scale_ranks D s l idx D row))"
    and idx: "mset idx = mset [0..<D]" "map (nth row) idx = sort row"
    and ends: "0 \<le> s" "s < l"
    and R: "\<forall>j<D. scale_ranks D s l idx D row ! (idx ! j) = sort row ! j * rank_mult D s l j"
      "0 < sum_list (scale_ranks D s l idx D row)"
      "length (scale_ranks D s l idx D row) = D"
    and bs: "snd (bubble_sort_index D row) = idx"
    by (rule sharpen_scaled [OF ok D2 thr pw mx]) (unfold D_def, blast)
  let ?r = "scale_ranks D s l idx D row"
  from ok D2 have len: "length row = D" and D: "2 \<le> D" by (simp_all add: D_def dist_ok_def)
  have sk: "idx = sort_key (nth row) [0..<D]" using bs bubble_sort_index_sort_key [OF len] by simp
  from ij have iD: "i < D" and jD: "j < D" by (simp_all add: D_def)
  obtain p where p: "p < D" "idx ! p = i" by (rule rank_of_position [OF idx(1) iD])
  obtain q where q: "q < D" "idx ! q = j" by (rule rank_of_position [OF idx(1) jD])
  have pq: "p < q" by (rule stable_tie_positions [OF sk p q ij(1) tie])
  note M = rank_mult_facts [OF D ends(2)]
  have li: "length idx = D" by (rule perm_upt_facts(1) [OF idx(1)])
  have vp: "sort row ! p = row ! i"
  proof -
    have "sort row ! p = map (nth row) idx ! p" using idx(2) by simp
    also have "\<dots> = row ! i" using p li by simp
    finally show ?thesis .
  qed
  have vq: "sort row ! q = row ! j"
  proof -
    have "sort row ! q = map (nth row) idx ! q" using idx(2) by simp
    also have "\<dots> = row ! j" using q li by simp
    finally show ?thesis .
  qed
  note V = sort_dist_facts [OF ok [folded D_def]]
  from D have D1: "D - 1 < D" by simp
  have "sort row ! (D - 1) \<in> set (sort row)" by (rule nth_mem) (use D len in simp)
  then have "sort row ! (D - 1) \<in> set row" by simp
  then obtain x where x: "x < D" "row ! x = sort row ! (D - 1)" using len by (auto simp: in_set_conv_nth)
  from top x(1) have "row ! x \<le> row ! i" by (simp add: D_def)
  with x(2) V(5) [of] D have pos: "0 < row ! i" by simp
  have "?r ! (idx ! p) = sort row ! p * rank_mult D s l p" using R(1) p(1) by blast
  with p(2) vp have ri: "?r ! i = row ! i * rank_mult D s l p" by simp
  have "?r ! (idx ! q) = sort row ! q * rank_mult D s l q" using R(1) q(1) by blast
  with q(2) vq tie have rj: "?r ! j = row ! i * rank_mult D s l q" by simp
  have "?r ! i < ?r ! j" using ri rj pos M(2) [OF pq] by simp
  then have "normalize_dist ?r ! i < normalize_dist ?r ! j"
    using R(2,3) iD jD by (simp add: normalize_dist_def divide_strict_right_mono)
  with S show ?thesis by simp
qed

theorem sharpen_tie_demotes_argmax_witness:
  "dist_ok (deci_num \<lparr>net_size = 2, deci_num = 2, dist_diff_thres = 3/10, dist_diff_power = 3/10\<rparr>) [1/2, 1/2] \<and>
   list_all (\<lambda>x. [1/2, 1/2 :: real] ! x \<le> [1/2, 1/2] ! 0) [0..<2] \<and>
   (\<exists>row'. sharpen \<lparr>net_size = 2, deci_num = 2, dist_diff_thres = 3/10, dist_diff_power = 3/10\<rparr> 0 [1/2, 1/2] = Inr row' \<and>
     row' ! 0 < row' ! (1::nat))"
proof -
  have ok: "dist_ok 2 [1/2, 1/2 :: real]" by (simp add: dist_ok_def)
  have top: "\<forall>x<2. [1/2, 1/2 :: real] ! x \<le> [1/2, 1/2] ! 0" by (simp add: less_Suc_eq numeral_2_eq_2)
  from sharpen_tie_demotes_argmax [of "\<lparr>net_size = 2, deci_num = 2, dist_diff_thres = 3/10, dist_diff_power = 3/10\<rparr>"
      "[1/2, 1/2]" 0 0 1] ok top
  show ?thesis by (simp add: upt_rec)
qed

lemma sharpen_tie_example:
  "sharpen \<lparr>net_size = 2, deci_num = 2, dist_diff_thres = 3/10, dist_diff_power = 3/10\<rparr> 0 [1/2, 1/2] = Inr [0, 1]"
  by (simp add: sharpen_def bubble_sort_index_def bubble_pass_def bubble_step_def
      apply_multipliers_def multiplier_def normalize_dist_def vec_div_def Let_def upt_rec)

text \<open>
  C9. With a single decision the divisor \<open>deci_num - 1\<close> of line 329 is zero: sharpening
  raises \<open>ZeroDivisionError\<close> for every row.
\<close>

theorem sharpen_single_decision_error:
  "deci_num cfg = 1 \<Longrightarrow> sharpen cfg mx row = Inl ZeroDivisionError"
  by (simp add: sharpen_def apply_multipliers_def multiplier_def Let_def)

theorem sharpen_single_decision_error_witness:
  "sharpen \<lparr>net_size = 2, deci_num = 1, dist_diff_thres = 3/10, dist_diff_power = 3/10\<rparr> 0 [1] = Inl ZeroDivisionError"
  using sharpen_single_decision_error [of "\<lparr>net_size = 2, deci_num = 1, dist_diff_thres = 3/10, dist_diff_power = 3/10\<rparr>" 0 "[1]"]
  by simp

lemma sum_lessThan_real: "(\<Sum>j<n. real j) = real n * (real n - 1) / 2"
  by (induction n) (simp_all add: algebra_simps divide_simps)

lemma map_res_Inr_map: "\<forall>x\<in>set xs. f x = Inr (g x) \<Longrightarrow> map_res f xs = Inr (map g xs)"
  by (induction xs) simp_all

text \<open>
  C21. The bounds of the linear multiplier: below the threshold, \<open>small_end\<close> lies in
  \<open>[0, 1/deci_num)\<close> and \<open>large_end\<close> in \<open>(1/deci_num, 2/deci_num]\<close>; the
  multipliers of the ranks raise nothing and lie between the two ends; and, as the
  comment of line 310 says, their average is \<open>1/deci_num\<close> (they sum to one).
\<close>

theorem multiplier_bounds:
  assumes D: "2 \<le> deci_n" and thr: "0 < thres" and mx: "0 \<le> mx"
    "mx < thres" and pw: "0 < p"
    and se: "small_end = 1 / real deci_n * (mx / thres) powr p"
    and le: "large_end = 2 / real deci_n - small_end"
  shows "0 \<le> small_end \<and> small_end < 1 / real deci_n \<and> 1 / real deci_n < large_end \<and>
         large_end \<le> 2 / real deci_n \<and>
         (\<exists>ms. map_res (multiplier deci_n small_end large_end) [0..<deci_n] = Inr ms \<and>
            length ms = deci_n \<and> (\<forall>j<deci_n. small_end \<le> ms ! j \<and> ms ! j \<le> large_end) \<and>
            sum_list ms = 1)"
proof -
  from D have D0: "0 < deci_n" by simp
  note E = sharpen_ends [OF thr mx pw D0, folded se]
  let ?m = "rank_mult deci_n small_end large_end"
  have ms: "map_res (multiplier deci_n small_end large_end) [0..<deci_n] = Inr (map ?m [0..<deci_n])"
    using D by (intro map_res_Inr_map) (simp add: multiplier_ok)
  from D have D1: "0 < real deci_n - 1" by simp
  have rng: "small_end \<le> ?m j \<and> ?m j \<le> large_end" if "j < deci_n" for j
  proof -
    from that D have "real j \<le> real (deci_n - 1)" by simp
    with D1 have "real j / real (deci_n - 1) \<le> 1" "0 \<le> real j / real (deci_n - 1)"
      by (simp_all add: divide_le_eq_1)
    moreover from E le have "0 \<le> large_end - small_end" by simp
    ultimately have "real j / real (deci_n - 1) * (large_end - small_end) \<le> 1 * (large_end - small_end)"
      "0 \<le> real j / real (deci_n - 1) * (large_end - small_end)"
      by (intro mult_right_mono, simp_all)
    then show ?thesis by (simp add: rank_mult_def)
  qed
  have "sum_list (map ?m [0..<deci_n]) = (\<Sum>j<deci_n. ?m j)"
    by (simp add: sum_list_distinct_conv_sum_set atLeast0LessThan)
  also have "\<dots> = real deci_n * small_end +
                 (large_end - small_end) / real (deci_n - 1) * (\<Sum>j<deci_n. real j)"
    by (simp add: rank_mult_def sum.distrib sum_distrib_left sum_divide_distrib algebra_simps)
  also have "\<dots> = real deci_n * (small_end + large_end) / 2"
    using D1 D by (simp add: sum_lessThan_real of_nat_diff field_simps)
  also have "\<dots> = 1" using le D0 by simp
  finally have "sum_list (map ?m [0..<deci_n]) = 1" .
  with ms rng E le show ?thesis by simp
qed

theorem multiplier_bounds_witness:
  "map_res (multiplier 2 0 1) [0..<2] = Inr [0, 1]"
proof -
  from multiplier_bounds [of 2 "3/10" 0 "3/10" 0 1] obtain ms where
    "map_res (multiplier 2 0 1) [0..<2] = Inr ms" by auto
  moreover have "map_res (multiplier 2 0 1) [0..<2] = Inr [0, 1]"
    by (simp add: multiplier_def upt_rec)
  ultimately show ?thesis by simp
qed

text \<open>
  C22. Sharpening keeps the order of the probabilities: the multipliers grow with the
  rank, so an entry strictly smaller than another stays strictly smaller.
\<close>

theorem sharpen_preserves_order:
  assumes ok: "dist_ok (deci_num cfg) row" and D2: "2 \<le> deci_num cfg"
    and thr: "0 < dist_diff_thres cfg" and pw: "0 < dist_diff_power cfg"
    and mx: "0 \<le> dist_diff_max" "dist_diff_max < dist_diff_thres cfg"
    and ab: "a < deci_num cfg" "b < deci_num cfg" and lt: "row ! a < row ! b"
  shows "\<exists>row'. sharpen cfg dist_diff_max row = Inr row' \<and> row' ! a < row' ! b"
proof -
  define D where "D = deci_num cfg"
  obtain idx s l where
    S: "sharpen cfg dist_diff_max row = Inr (normalize_dist (scale_ranks D s l idx D row))"
    and idx: "mset idx = mset [0..<D]" "map (nth row) idx = sort row"
    and ends: "0 \<le> s" "s < l"
    and R: "\<forall>j<D. scale_ranks D s l idx D row ! (idx ! j) = sort row ! j * rank_mult D s l j"
      "0 < sum_list (scale_ranks D s l idx D row)"
      "length (scale_ranks D s l idx D row) = D"
    by (rule sharpen_scaled [OF ok D2 thr pw mx]) (simp add: D_def)
  let ?r = "scale_ranks D s l idx D row"
  from D2 have D: "2 \<le> D" by (simp add: D_def)
  note M = rank_mult_facts [OF D ends(2)]
  from ab obtain p q where pq: "p < D" "idx ! p = a" "q < D" "idx ! q = b"
    using rank_of_position [OF idx(1)] by (metis D_def)
  have li: "length idx = D" using perm_upt_facts(1) [OF idx(1)] .
  have vp: "sort row ! p = row ! a" and vq: "sort row ! q = row ! b"
    using pq li idx(2) nth_map [of p idx "nth row"] nth_map [of q idx "nth row"] by (simp_all flip: idx(2))
  have "p < q" using sorted_rank_less [OF idx(2) li pq(1,3)] pq lt by simp
  then have mpq: "rank_mult D s l p < rank_mult D s l q" by (rule M(2))
  from ok ab have nn: "0 \<le> row ! a" by (simp add: dist_ok_def list_all_length D_def)
  with lt have pb: "0 < row ! b" by simp
  have "row ! a * rank_mult D s l p \<le> row ! b * rank_mult D s l p"
    using lt M(3) [OF ends(1)] by (simp add: mult_right_mono)
  also have "\<dots> < row ! b * rank_mult D s l q" using pb mpq by simp
  finally have lt': "row ! a * rank_mult D s l p < row ! b * rank_mult D s l q" .
  from R(1) pq(1) have "?r ! (idx ! p) = sort row ! p * rank_mult D s l p" by blast
  moreover from R(1) pq(3) have "?r ! (idx ! q) = sort row ! q * rank_mult D s l q" by blast
  ultimately have "?r ! a < ?r ! b" using lt' pq(2,4) vp vq by simp
  then have "?r ! a / sum_list ?r < ?r ! b / sum_list ?r" using R(2) by (simp add: divide_strict_right_mono)
  with R(3) ab S show ?thesis by (simp add: normalize_dist_def D_def)
qed

theorem sharpen_preserves_order_witness:
  "dist_ok 2 [1/4, 3/4] \<and>
   (\<exists>row'. sharpen \<lparr>net_size = 2, deci_num = 2, dist_diff_thres = 3/10, dist_diff_power = 3/10\<rparr> 0 [1/4, 3/4] = Inr row' \<and> row' ! 0 < row' ! 1)"
  using sharpen_preserves_order [of "\<lparr>net_size = 2, deci_num = 2, dist_diff_thres = 3/10, dist_diff_power = 3/10\<rparr>" "[1/4, 3/4]" 0 0 1]
  by (simp add: dist_ok_def)

end
