(* ===== verification/Updater.thy ===== *)
theory Updater
  imports Topology Sharpen
begin

text \<open>
  The convergence classifier and the distribution updater of
  \<open>probabilistic_convergence.py\<close> (lines 268--345): the snapshot \<open>deci_dist_t\<close>, the
  per-node convergence test, the equal-weight average of a converged node followed by
  the pairwise differences and the sharpening step, and the subgroup-size weighted
  average of a divergent node. Nodes are updated one after the other in
  \<open>range(net_size)\<close>, each writing its row of \<open>deci_dist\<close> in place.
\<close>

section \<open>The convergence classifier\<close>

text \<open>
  Lines 271--276: \<open>converged\<close> starts true and the loop over the neighbours breaks at
  the first one whose dominant decision differs; neighbours after it are not read.
\<close>

fun converged_scan :: "nat \<Rightarrow> nat list \<Rightarrow> node list \<Rightarrow> bool result" where
  "converged_scan host_domi deci_domi [] = Inr True"
| "converged_scan host_domi deci_domi (neighbor # ns) =
     (case py_get deci_domi neighbor of
        Inl e \<Rightarrow> Inl e
      | Inr d \<Rightarrow> if host_domi \<noteq> d then Inr False else converged_scan host_domi deci_domi ns)"

section \<open>Averaging\<close>

text \<open>Lines 282--284: the neighbours' snapshot rows are added with weight one.\<close>

fun sum_rows :: "matrix \<Rightarrow> node list \<Rightarrow> dist \<Rightarrow> dist result" where
  "sum_rows deci_dist_t [] row = Inr row"
| "sum_rows deci_dist_t (neighbor # ns) row =
     (case py_get deci_dist_t neighbor of
        Inl e \<Rightarrow> Inl e
      | Inr r \<Rightarrow> sum_rows deci_dist_t ns (vec_add row r))"

text \<open>Lines 340--342: the neighbours' snapshot rows weighted by their subgroup sizes.\<close>

fun sum_weighted_rows :: "matrix \<Rightarrow> nat list \<Rightarrow> node list \<Rightarrow> dist \<Rightarrow> dist result" where
  "sum_weighted_rows deci_dist_t subsizes [] row = Inr row"
| "sum_weighted_rows deci_dist_t subsizes (neighbor # ns) row =
     (case py_get deci_dist_t neighbor of
        Inl e \<Rightarrow> Inl e
      | Inr r \<Rightarrow>
          (case py_get subsizes neighbor of
             Inl e \<Rightarrow> Inl e
           | Inr w \<Rightarrow> sum_weighted_rows deci_dist_t subsizes ns (vec_add row (vec_scale r (real w)))))"

section \<open>The pairwise differences and the sharpening step\<close>

text \<open>Lines 292--299: the pairs \<open>(comb_pool[j], comb_pool[k])\<close> with \<open>j < k\<close>, in loop order.\<close>

definition comb_pairs :: "node list \<Rightarrow> (node \<times> node) list" where
  "comb_pairs comb_pool =
     concat (map (\<lambda>j. map (\<lambda>k. (comb_pool ! j, comb_pool ! k)) [Suc j..<length comb_pool])
                 [0..<length comb_pool])"

text \<open>
  Line 300: the L1 difference of the two rows, read from the matrix passed in. The code
  passes the live \<open>deci_dist\<close>, in which the rows of the nodes already visited in this
  round, and the host's own row, hold their new values.
\<close>

definition pair_diffs :: "matrix \<Rightarrow> node list \<Rightarrow> real list result" where
  "pair_diffs deci_dist comb_pool =
     map_res (\<lambda>(j_node, k_node).
         case py_get deci_dist j_node of
           Inl e \<Rightarrow> Inl e
         | Inr a \<Rightarrow> (case py_get deci_dist k_node of Inl e \<Rightarrow> Inl e | Inr b \<Rightarrow> Inr (dist_diff a b)))
       (comb_pairs comb_pool)"

text \<open>
  Lines 292--336: \<open>max(dist_diff)\<close> raises \<open>ValueError\<close> on an empty list (a node
  without neighbours); below the threshold the row is sharpened, otherwise kept.
\<close>

definition sharpen_step :: "sim_config \<Rightarrow> matrix \<Rightarrow> node list \<Rightarrow> dist \<Rightarrow> dist result" where
  "sharpen_step cfg diff_rows comb_pool row =
     (case pair_diffs diff_rows comb_pool of
        Inl e \<Rightarrow> Inl e
      | Inr dist_diff_list \<Rightarrow>
          (case py_max dist_diff_list of
             Inl e \<Rightarrow> Inl e
           | Inr dist_diff_max \<Rightarrow>
               (if dist_diff_max < dist_diff_thres cfg then sharpen cfg dist_diff_max row
                else Inr row)))"

section \<open>One node, one round\<close>

text \<open>
  Lines 271--345 for node \<open>i\<close>. A converged node's row is first set to the normalised
  equal-weight average (line 287); the differences are then read from that matrix and
  the row is sharpened in place. A divergent node's row is the normalised average
  weighted by \<open>subsizes\<close>.
\<close>

definition update_node ::
  "sim_config \<Rightarrow> adjacency \<Rightarrow> nat list \<Rightarrow> nat list \<Rightarrow> matrix \<Rightarrow> node \<Rightarrow> matrix \<Rightarrow> matrix result" where
  "update_node cfg conn deci_domi subsizes deci_dist_t i deci_dist =
     (case py_get deci_domi i of
        Inl e \<Rightarrow> Inl e
      | Inr host_domi \<Rightarrow>
     (case py_get conn i of
        Inl e \<Rightarrow> Inl e
      | Inr neighbors \<Rightarrow>
     (case converged_scan host_domi deci_domi neighbors of
        Inl e \<Rightarrow> Inl e
      | Inr converged \<Rightarrow>
     (case py_get deci_dist_t i of
        Inl e \<Rightarrow> Inl e
      | Inr host_row \<Rightarrow>
        (if converged then
          (case sum_rows deci_dist_t neighbors (vec_scale host_row 1) of
             Inl e \<Rightarrow> Inl e
           | Inr acc \<Rightarrow>
          (case py_set deci_dist i (normalize_dist acc) of
             Inl e \<Rightarrow> Inl e
           | Inr deci_dist' \<Rightarrow>
          (case sharpen_step cfg deci_dist' (i # neighbors) (normalize_dist acc) of
             Inl e \<Rightarrow> Inl e
           | Inr row' \<Rightarrow> Inr (deci_dist'[i := row']))))
         else
          (case py_get subsizes i of
             Inl e \<Rightarrow> Inl e
           | Inr host_size \<Rightarrow>
          (case sum_weighted_rows deci_dist_t subsizes neighbors (vec_scale host_row (real host_size)) of
             Inl e \<Rightarrow> Inl e
           | Inr acc \<Rightarrow> py_set deci_dist i (normalize_dist acc))))))))"

text \<open>Lines 269--270: the snapshot copy and the loop over all nodes in index order.\<close>

definition evolve :: "sim_config \<Rightarrow> adjacency \<Rightarrow> nat list \<Rightarrow> nat list \<Rightarrow> matrix \<Rightarrow> matrix result" where
  "evolve cfg conn deci_domi subsizes deci_dist =
     (let deci_dist_t = deci_dist
      in fold_res (update_node cfg conn deci_domi subsizes deci_dist_t) [0..<net_size cfg] deci_dist)"

section \<open>The round as the specification describes it\<close>

text \<open>
  The specification (section 4.3) computes every node's next row from the snapshot
  alone: the averages, and also the pairwise differences of the sharpening step, read
  \<open>deci_dist_t\<close>. \<open>next_row_snapshot\<close> is that rule for one node, built from the same
  pieces as the code, and \<open>evolve_snapshot\<close> applies it to every node.
\<close>

definition next_row_snapshot ::
  "sim_config \<Rightarrow> adjacency \<Rightarrow> nat list \<Rightarrow> nat list \<Rightarrow> matrix \<Rightarrow> node \<Rightarrow> dist result" where
  "next_row_snapshot cfg conn deci_domi subsizes snap i =
     (let ns = conn ! i
      in if list_all (\<lambda>n. deci_domi ! i = deci_domi ! n) ns
         then sharpen_step cfg snap (i # ns)
                (normalize_dist (fold (\<lambda>n r. vec_add r (snap ! n)) ns (vec_scale (snap ! i) 1)))
         else Inr (normalize_dist
                (fold (\<lambda>n r. vec_add r (vec_scale (snap ! n) (real (subsizes ! n)))) ns
                   (vec_scale (snap ! i) (real (subsizes ! i))))))"

definition evolve_snapshot ::
  "sim_config \<Rightarrow> adjacency \<Rightarrow> nat list \<Rightarrow> nat list \<Rightarrow> matrix \<Rightarrow> matrix result" where
  "evolve_snapshot cfg conn deci_domi subsizes snap =
     map_res (next_row_snapshot cfg conn deci_domi subsizes snap) [0..<net_size cfg]"

text \<open>
  The conditions under which a round of the updater is well defined: a well-formed
  topology in which every node has a neighbour, one dominant decision and one positive
  subgroup size per node, at least two decisions, and positive threshold and power.
\<close>

definition updater_pre :: "sim_config \<Rightarrow> adjacency \<Rightarrow> nat list \<Rightarrow> nat list \<Rightarrow> bool" where
  "updater_pre cfg conn deci_domi subsizes \<longleftrightarrow>
     wf_adjacency (net_size cfg) conn \<and> (\<forall>i<net_size cfg. conn ! i \<noteq> []) \<and>
     length deci_domi = net_size cfg \<and> length subsizes = net_size cfg \<and>
     (\<forall>i<net_size cfg. 0 < subsizes ! i) \<and>
     2 \<le> deci_num cfg \<and> 0 < dist_diff_thres cfg \<and> 0 < dist_diff_power cfg"

section \<open>Evaluation of the pieces on in-range input\<close>

lemma converged_scan_eq:
  "\<forall>n\<in>set ns. n < length deci_domi \<Longrightarrow>
     converged_scan h deci_domi ns = Inr (list_all (\<lambda>n. h = deci_domi ! n) ns)"
  by (induction ns) auto

lemma sum_rows_eq:
  "\<forall>n\<in>set ns. n < length dt \<Longrightarrow> sum_rows dt ns row = Inr (fold (\<lambda>n r. vec_add r (dt ! n)) ns row)"
  by (induction ns arbitrary: row) auto

lemma sum_weighted_rows_eq:
  "\<forall>n\<in>set ns. n < length dt \<and> n < length ss \<Longrightarrow>
     sum_weighted_rows dt ss ns row =
       Inr (fold (\<lambda>n r. vec_add r (vec_scale (dt ! n) (real (ss ! n)))) ns row)"
  by (induction ns arbitrary: row) auto

lemma fold_vec_add_ok:
  assumes "\<forall>n\<in>set ns. dist_ok D (dt ! n)" and "length row = D" and "list_all (\<lambda>x. 0 \<le> x) row"
  shows "length (fold (\<lambda>n r. vec_add r (dt ! n)) ns row) = D \<and>
         list_all (\<lambda>x. 0 \<le> x) (fold (\<lambda>n r. vec_add r (dt ! n)) ns row) \<and>
         sum_list (fold (\<lambda>n r. vec_add r (dt ! n)) ns row) = sum_list row + real (length ns)"
  using assms
proof (induction ns arbitrary: row)
  case (Cons n ns)
  from Cons.prems have ok: "dist_ok D (dt ! n)" by simp
  then have "length (vec_add row (dt ! n)) = D" "list_all (\<lambda>x. 0 \<le> x) (vec_add row (dt ! n))"
    "sum_list (vec_add row (dt ! n)) = sum_list row + 1"
    using Cons.prems by (auto simp: dist_ok_def sum_vec_add intro: nonneg_vec_add)
  with Cons.IH [of "vec_add row (dt ! n)"] Cons.prems show ?case by simp
qed simp

lemma fold_vec_add_weighted_ok:
  assumes "\<forall>n\<in>set ns. dist_ok D (dt ! n)" and "length row = D" and "list_all (\<lambda>x. 0 \<le> x) row"
  shows "length (fold (\<lambda>n r. vec_add r (vec_scale (dt ! n) (real (ss ! n)))) ns row) = D \<and>
         list_all (\<lambda>x. 0 \<le> x) (fold (\<lambda>n r. vec_add r (vec_scale (dt ! n) (real (ss ! n)))) ns row) \<and>
         sum_list row \<le> sum_list (fold (\<lambda>n r. vec_add r (vec_scale (dt ! n) (real (ss ! n)))) ns row)"
  using assms
proof (induction ns arbitrary: row)
  case (Cons n ns)
  let ?v = "vec_scale (dt ! n) (real (ss ! n))"
  from Cons.prems have ok: "dist_ok D (dt ! n)" by simp
  then have "length (vec_add row ?v) = D" "list_all (\<lambda>x. 0 \<le> x) (vec_add row ?v)"
    "sum_list (vec_add row ?v) = sum_list row + real (ss ! n)"
    using Cons.prems
    by (auto simp: dist_ok_def sum_vec_add sum_vec_scale intro!: nonneg_vec_add nonneg_vec_scale)
  with Cons.IH [of "vec_add row ?v"] Cons.prems show ?case by simp
qed simp

lemma comb_pairs_set:
  "(a, b) \<in> set (comb_pairs pool) \<Longrightarrow> a \<in> set pool \<and> b \<in> set pool"
  by (auto simp: comb_pairs_def)

lemma comb_pairs_Cons_Cons: "comb_pairs (a # b # ns) \<noteq> []"
  by (simp add: comb_pairs_def upt_conv_Cons)

lemma pair_diffs_ok:
  assumes "\<forall>n\<in>set pool. n < length dd"
  shows "\<exists>ds. pair_diffs dd pool = Inr ds \<and> length ds = length (comb_pairs pool) \<and>
           list_all (\<lambda>x. 0 \<le> x) ds"
proof -
  let ?f = "\<lambda>(j_node, k_node). case py_get dd j_node of Inl e \<Rightarrow> Inl e
              | Inr a \<Rightarrow> (case py_get dd k_node of Inl e \<Rightarrow> Inl e | Inr b \<Rightarrow> Inr (dist_diff a b))"
  have "\<exists>y. ?f x = Inr y \<and> 0 \<le> y" if "x \<in> set (comb_pairs pool)" for x
  proof -
    obtain j k where x: "x = (j, k)" by (cases x)
    with that comb_pairs_set [of j k pool] assms have "j < length dd" "k < length dd" by auto
    with x show ?thesis by (simp add: dist_diff_nonneg)
  qed
  from map_res_Inr [of "comb_pairs pool" ?f "\<lambda>_ y. 0 \<le> y", OF this] show ?thesis
    unfolding pair_diffs_def by (auto simp: list_all_length)
qed

lemma py_max_nonneg:
  assumes "ds \<noteq> []" and "list_all (\<lambda>x. 0 \<le> x) ds"
  shows "\<exists>mx. py_max ds = Inr mx \<and> 0 \<le> mx"
proof -
  from assms(1) obtain y ys where ds: "ds = y # ys" by (cases ds) auto
  from assms(2) ds have "0 \<le> y" by simp
  also have "y \<le> Max (set (y # ys))" by simp
  finally show ?thesis using ds by simp
qed

lemma sharpen_step_ok:
  assumes ok: "dist_ok (deci_num cfg) row" and D2: "2 \<le> deci_num cfg"
    and thr: "0 < dist_diff_thres cfg" and pw: "0 < dist_diff_power cfg"
    and rng: "\<forall>n\<in>set (a # b # ns). n < length dd"
  shows "\<exists>row'. sharpen_step cfg dd (a # b # ns) row = Inr row' \<and> dist_ok (deci_num cfg) row'"
proof -
  from pair_diffs_ok [OF rng] obtain ds where
    ds: "pair_diffs dd (a # b # ns) = Inr ds" "length ds = length (comb_pairs (a # b # ns))"
        "list_all (\<lambda>x. 0 \<le> x) ds" by blast
  from ds(2) comb_pairs_Cons_Cons have "ds \<noteq> []" by (metis length_0_conv)
  from py_max_nonneg [OF this ds(3)] obtain mx where mx: "py_max ds = Inr mx" "0 \<le> mx" by blast
  show ?thesis
  proof (cases "mx < dist_diff_thres cfg")
    case True
    from sharpen_result_ok [OF ok D2 thr pw mx(2) True] ds(1) mx(1) True show ?thesis
      by (simp add: sharpen_step_def)
  next
    case False
    with ds(1) mx(1) ok show ?thesis by (simp add: sharpen_step_def)
  qed
qed

section \<open>The normalisation invariant\<close>

lemma matrix_ok_length: "matrix_ok N D m \<Longrightarrow> length m = N"
  by (simp add: matrix_ok_def)

lemma converged_row_ok:
  assumes dt: "matrix_ok N D dt" and i: "i < N" and rng: "\<forall>n\<in>set ns. n < N"
  shows "\<exists>acc. sum_rows dt ns (vec_scale (dt ! i) 1) = Inr acc \<and> dist_ok D (normalize_dist acc)"
proof -
  let ?row = "vec_scale (dt ! i) 1"
  from matrix_ok_row [OF dt i] have row: "length ?row = D" "list_all (\<lambda>x. 0 \<le> x) ?row"
    "sum_list ?row = 1" by (simp_all add: dist_ok_def sum_vec_scale nonneg_vec_scale)
  from rng dt have nok: "\<forall>n\<in>set ns. dist_ok D (dt ! n)" by (simp add: matrix_ok_row)
  note F = fold_vec_add_ok [OF nok row(1,2)]
  from rng matrix_ok_length [OF dt] have "\<forall>n\<in>set ns. n < length dt" by simp
  moreover have "dist_ok D (normalize_dist (fold (\<lambda>n r. vec_add r (dt ! n)) ns ?row))"
    using F row(3) by (intro normalize_dist_ok) simp_all
  ultimately show ?thesis by (simp add: sum_rows_eq)
qed

lemma divergent_row_ok:
  assumes dt: "matrix_ok N D dt" and i: "i < N" and rng: "\<forall>n\<in>set ns. n < N"
    and ss: "length ss = N" and pos: "0 < ss ! i"
  shows "\<exists>acc. sum_weighted_rows dt ss ns (vec_scale (dt ! i) (real (ss ! i))) = Inr acc \<and>
           dist_ok D (normalize_dist acc)"
proof -
  let ?row = "vec_scale (dt ! i) (real (ss ! i))"
  from matrix_ok_row [OF dt i] have row: "length ?row = D" "list_all (\<lambda>x. 0 \<le> x) ?row"
    "sum_list ?row = real (ss ! i)" by (simp_all add: dist_ok_def sum_vec_scale nonneg_vec_scale)
  from rng dt have nok: "\<forall>n\<in>set ns. dist_ok D (dt ! n)" by (simp add: matrix_ok_row)
  note F = fold_vec_add_weighted_ok [OF nok row(1,2), of ss]
  from rng ss matrix_ok_length [OF dt] have "\<forall>n\<in>set ns. n < length dt \<and> n < length ss" by simp
  moreover have "dist_ok D (normalize_dist (fold (\<lambda>n r. vec_add r (vec_scale (dt ! n) (real (ss ! n)))) ns ?row))"
    using F row(3) pos by (intro normalize_dist_ok) simp_all
  ultimately show ?thesis by (simp add: sum_weighted_rows_eq)
qed

lemma update_node_row:
  assumes wf: "wf_adjacency N conn" and i: "i < N" and nb: "conn ! i \<noteq> []"
    and ld: "length deci_domi = N" and ls: "length subsizes = N" and pos: "0 < subsizes ! i"
    and D2: "2 \<le> deci_num cfg" and thr: "0 < dist_diff_thres cfg" and pw: "0 < dist_diff_power cfg"
    and dt: "matrix_ok N (deci_num cfg) dt" and dd: "matrix_ok N (deci_num cfg) dd"
  shows "\<exists>row'. update_node cfg conn deci_domi subsizes dt i dd = Inr (dd[i := row']) \<and>
           dist_ok (deci_num cfg) row' \<and>
           (\<not> list_all (\<lambda>n. deci_domi ! i = deci_domi ! n) (conn ! i) \<longrightarrow>
              Inr row' = next_row_snapshot cfg conn deci_domi subsizes dt i)"
proof -
  let ?ns = "conn ! i"
  let ?c = "list_all (\<lambda>n. deci_domi ! i = deci_domi ! n) ?ns"
  have rng: "\<forall>n\<in>set ?ns. n < N" using wf_adjacency_range [OF wf i] by blast
  from wf have lc: "length conn = N" by (rule wf_adjacency_length)
  from dt have ldt: "length dt = N" by (rule matrix_ok_length)
  from dd have ldd: "length dd = N" by (rule matrix_ok_length)
  have pre: "py_get deci_domi i = Inr (deci_domi ! i)" "py_get conn i = Inr ?ns"
    "converged_scan (deci_domi ! i) deci_domi ?ns = Inr ?c" "py_get dt i = Inr (dt ! i)"
    using i ld lc ldt rng by (simp_all add: converged_scan_eq)
  show ?thesis
  proof (cases ?c)
    case True
    from converged_row_ok [OF dt i rng] obtain acc where
      acc: "sum_rows dt ?ns (vec_scale (dt ! i) 1) = Inr acc"
        "dist_ok (deci_num cfg) (normalize_dist acc)" by blast
    let ?dd1 = "dd[i := normalize_dist acc]"
    from nb obtain n ns where ns: "?ns = n # ns" by (cases ?ns) auto
    from rng ns i ldd have "\<forall>m\<in>set (i # n # ns). m < length ?dd1" by auto
    from sharpen_step_ok [OF acc(2) D2 thr pw this] obtain row' where
      r: "sharpen_step cfg ?dd1 (i # n # ns) (normalize_dist acc) = Inr row'"
         "dist_ok (deci_num cfg) row'" by blast
    from r(1) ns have "sharpen_step cfg ?dd1 (i # ?ns) (normalize_dist acc) = Inr row'"
      by simp
    moreover from pre(3) True have "converged_scan (deci_domi ! i) deci_domi ?ns = Inr True"
      by simp
    ultimately have "update_node cfg conn deci_domi subsizes dt i dd = Inr (dd[i := row'])"
      using pre(1,2,4) acc(1) i ldd by (simp add: update_node_def)
    with r(2) True show ?thesis by blast
  next
    case False
    from divergent_row_ok [OF dt i rng ls pos] obtain acc where
      acc: "sum_weighted_rows dt subsizes ?ns (vec_scale (dt ! i) (real (subsizes ! i))) = Inr acc"
        "dist_ok (deci_num cfg) (normalize_dist acc)" by blast
    from rng ls ldt have "\<forall>n\<in>set ?ns. n < length dt \<and> n < length subsizes" by simp
    from acc(1) [unfolded sum_weighted_rows_eq [OF this]] False
    have "Inr (normalize_dist acc) = next_row_snapshot cfg conn deci_domi subsizes dt i"
      by (simp add: next_row_snapshot_def Let_def)
    moreover from pre(3) False have "converged_scan (deci_domi ! i) deci_domi ?ns = Inr False"
      by simp
    ultimately have "update_node cfg conn deci_domi subsizes dt i dd = Inr (dd[i := normalize_dist acc])"
      using pre(1,2,4) acc(1) i ldd ls by (simp add: update_node_def)
    with acc(2) \<open>Inr (normalize_dist acc) = _\<close> show ?thesis by blast
  qed
qed

lemma updater_preD:
  assumes "updater_pre cfg conn deci_domi subsizes"
  shows "wf_adjacency (net_size cfg) conn" "\<forall>i<net_size cfg. conn ! i \<noteq> []"
    "length deci_domi = net_size cfg" "length subsizes = net_size cfg"
    "\<forall>i<net_size cfg. 0 < subsizes ! i" "2 \<le> deci_num cfg" "0 < dist_diff_thres cfg"
    "0 < dist_diff_power cfg"
  using assms unfolding updater_pre_def by blast+

lemma evolve_prefix:
  assumes pre: "updater_pre cfg conn deci_domi subsizes"
    and dt: "matrix_ok (net_size cfg) (deci_num cfg) dt" and k: "k \<le> net_size cfg"
  shows "\<exists>dd. fold_res (update_node cfg conn deci_domi subsizes dt) [0..<k] dt = Inr dd \<and>
           matrix_ok (net_size cfg) (deci_num cfg) dd \<and>
           (\<forall>j<k. \<not> list_all (\<lambda>n. deci_domi ! j = deci_domi ! n) (conn ! j) \<longrightarrow>
              Inr (dd ! j) = next_row_snapshot cfg conn deci_domi subsizes dt j) \<and>
           (\<forall>j. k \<le> j \<longrightarrow> dd ! j = dt ! j)"
  using k
proof (induction k)
  case 0
  with dt show ?case by simp
next
  case (Suc k)
  note P = updater_preD [OF pre]
  from Suc obtain dd where dd: "fold_res (update_node cfg conn deci_domi subsizes dt) [0..<k] dt = Inr dd"
    "matrix_ok (net_size cfg) (deci_num cfg) dd"
    "\<forall>j<k. \<not> list_all (\<lambda>n. deci_domi ! j = deci_domi ! n) (conn ! j) \<longrightarrow>
       Inr (dd ! j) = next_row_snapshot cfg conn deci_domi subsizes dt j"
    "\<forall>j. k \<le> j \<longrightarrow> dd ! j = dt ! j" by auto
  from Suc.prems have k: "k < net_size cfg" by simp
  from P(2,5) k have nb: "conn ! k \<noteq> []" and ps: "0 < subsizes ! k" by simp_all
  from update_node_row [OF P(1) k nb P(3,4) ps P(6,7,8) dt dd(2)] obtain row' where
    r: "update_node cfg conn deci_domi subsizes dt k dd = Inr (dd[k := row'])"
       "dist_ok (deci_num cfg) row'"
       "\<not> list_all (\<lambda>n. deci_domi ! k = deci_domi ! n) (conn ! k) \<longrightarrow>
          Inr row' = next_row_snapshot cfg conn deci_domi subsizes dt k" by blast
  from dd(2) k have lk: "k < length dd" by (simp add: matrix_ok_length)
  have "fold_res (update_node cfg conn deci_domi subsizes dt) [0..<Suc k] dt = Inr (dd[k := row'])"
    using dd(1) r(1) by (simp add: fold_res_append)
  moreover have "matrix_ok (net_size cfg) (deci_num cfg) (dd[k := row'])"
    using matrix_ok_update [OF dd(2) r(2)] .
  moreover have "\<forall>j<Suc k. \<not> list_all (\<lambda>n. deci_domi ! j = deci_domi ! n) (conn ! j) \<longrightarrow>
       Inr (dd[k := row'] ! j) = next_row_snapshot cfg conn deci_domi subsizes dt j"
    using dd(3) r(3) lk by (auto simp: less_Suc_eq nth_list_update)
  moreover have "\<forall>j. Suc k \<le> j \<longrightarrow> dd[k := row'] ! j = dt ! j"
    using dd(4) by simp
  ultimately show ?case by blast
qed

lemma weighted_pair_average:
  "length h = length n \<Longrightarrow>
     vec_div (vec_add (vec_scale h 3) (vec_scale n 1)) 4 = map2 (\<lambda>a b. (3 * a + b) / 4) h n"
  by (induction h n rule: list_induct2) (simp_all add: vec_div_def vec_add_def vec_scale_def)

section \<open>Properties of a round of the updater\<close>

text \<open>
  C10. The normalisation invariant (specification, section 8.1): when every row of
  \<open>deci_dist\<close> is a probability distribution and the round is well defined
  (\<open>updater_pre\<close>), the update of all nodes raises nothing and leaves every row a
  probability distribution.
\<close>

theorem evolve_preserves_distributions:
  assumes pre: "updater_pre cfg conn deci_domi subsizes"
    and dd: "matrix_ok (net_size cfg) (deci_num cfg) deci_dist"
  shows "\<exists>deci_dist'. evolve cfg conn deci_domi subsizes deci_dist = Inr deci_dist' \<and>
           matrix_ok (net_size cfg) (deci_num cfg) deci_dist'"
  using evolve_prefix [OF pre dd order_refl] by (auto simp: evolve_def)

text \<open>
  C11. On the divergent branch the code follows the snapshot rule of the specification:
  the new row of every node with a neighbour of another dominant decision is the
  subgroup-size weighted average of the snapshot rows, as \<open>next_row_snapshot\<close>
  computes it.
\<close>

theorem evolve_divergent_rows_follow_snapshot:
  assumes pre: "updater_pre cfg conn deci_domi subsizes"
    and dd: "matrix_ok (net_size cfg) (deci_num cfg) deci_dist"
  shows "\<exists>deci_dist'. evolve cfg conn deci_domi subsizes deci_dist = Inr deci_dist' \<and>
           (\<forall>i<net_size cfg. \<not> list_all (\<lambda>n. deci_domi ! i = deci_domi ! n) (conn ! i) \<longrightarrow>
              Inr (deci_dist' ! i) = next_row_snapshot cfg conn deci_domi subsizes deci_dist i)"
  using evolve_prefix [OF pre dd order_refl] by (auto simp: evolve_def)

text \<open>
  The pairwise differences of a converged node are read from the live
  \<open>deci_dist\<close> (line 300), not from the snapshot the specification prescribes. Two
  connected nodes with the same row \<open>[3/5, 2/5]\<close>: node 0 sees difference 0 and is
  sharpened to \<open>[1, 0]\<close>; node 1 then compares its average with that new row, sees
  difference \<open>4/5\<close> and is not sharpened. Under the snapshot rule both become \<open>[1, 0]\<close>.
\<close>

theorem evolve_reads_updated_rows:
  "evolve \<lparr>net_size = 2, deci_num = 2, dist_diff_thres = 3/10, dist_diff_power = 3/10\<rparr>
      [[1], [0]] [0, 0] [2, 2] [[3/5, 2/5], [3/5, 2/5]] = Inr [[1, 0], [3/5, 2/5]] \<and>
   evolve_snapshot \<lparr>net_size = 2, deci_num = 2, dist_diff_thres = 3/10, dist_diff_power = 3/10\<rparr>
      [[1], [0]] [0, 0] [2, 2] [[3/5, 2/5], [3/5, 2/5]] = Inr [[1, 0], [1, 0]]"
  by (simp add: evolve_def evolve_snapshot_def next_row_snapshot_def update_node_def
      sharpen_step_def pair_diffs_def comb_pairs_def dist_diff_def vec_sub_def sharpen_def
      bubble_sort_index_def bubble_pass_def bubble_step_def apply_multipliers_def multiplier_def
      normalize_dist_def vec_div_def vec_add_def vec_scale_def Let_def upt_rec swap_adj_def)

text \<open>
  C12. A node without neighbours is always converged; its list of pairwise differences
  is empty and \<open>max(dist_diff)\<close> raises \<open>ValueError\<close> (line 301). The specification
  (section 8.6) expects such a node to keep its distribution. When node 0 is isolated
  the round stops with \<open>ValueError\<close> at the first node.
\<close>

theorem evolve_isolated_node_error:
  assumes "0 < net_size cfg" and "conn \<noteq> []" and "conn ! 0 = []"
    and "deci_domi \<noteq> []" and "deci_dist \<noteq> []"
  shows "evolve cfg conn deci_domi subsizes deci_dist = Inl ValueError"
proof -
  from assms(1) have "[0..<net_size cfg] = 0 # [1..<net_size cfg]" by (simp add: upt_conv_Cons)
  with assms(2-5) show ?thesis
    by (simp add: evolve_def update_node_def sharpen_step_def pair_diffs_def comb_pairs_def)
qed

text \<open>
  C13. The weighted-average boundary case of the specification (section 8.5): a
  divergent node of subgroup size 3 with one neighbour of subgroup size 1 gets the row
  \<open>(3 * host + neighbour) / 4\<close>, entry by entry, and no other row changes.
\<close>

theorem divergent_update_weighted_average:
  assumes "conn ! i = [j]" and "i < length conn"
    and "i < length deci_domi" and "j < length deci_domi" and "deci_domi ! i \<noteq> deci_domi ! j"
    and "i < length subsizes" and "j < length subsizes" and "subsizes ! i = 3" and "subsizes ! j = 1"
    and "i < length dt" and "j < length dt" and "dist_ok D (dt ! i)" and "dist_ok D (dt ! j)"
    and "i < length dd"
  shows "update_node cfg conn deci_domi subsizes dt i dd =
           Inr (dd[i := map2 (\<lambda>h n. (3 * h + n) / 4) (dt ! i) (dt ! j)])"
proof -
  from assms(12,13) have "length (dt ! i) = length (dt ! j)" "sum_list (dt ! i) = 1"
    "sum_list (dt ! j) = 1" by (simp_all add: dist_ok_def)
  then have "normalize_dist (vec_add (vec_scale (dt ! i) 3) (vec_scale (dt ! j) 1)) =
               map2 (\<lambda>h n. (3 * h + n) / 4) (dt ! i) (dt ! j)"
    by (simp add: normalize_dist_def sum_vec_add sum_vec_scale weighted_pair_average)
  with assms(1-11,14) show ?thesis
    by (simp add: update_node_def)
qed

theorem evolve_preserves_distributions_witness:
  "updater_pre \<lparr>net_size = 2, deci_num = 2, dist_diff_thres = 3/10, dist_diff_power = 3/10\<rparr> [[1], [0]] [0, 1] [1, 3] \<and>
   matrix_ok 2 2 [[3/5, 2/5], [1/5, 4/5]] \<and>
   (\<exists>deci_dist'. evolve \<lparr>net_size = 2, deci_num = 2, dist_diff_thres = 3/10, dist_diff_power = 3/10\<rparr> [[1], [0]] [0, 1] [1, 3] [[3/5, 2/5], [1/5, 4/5]] = Inr deci_dist' \<and>
      matrix_ok 2 2 deci_dist')"
  using evolve_preserves_distributions [of "\<lparr>net_size = 2, deci_num = 2, dist_diff_thres = 3/10, dist_diff_power = 3/10\<rparr>" "[[1], [0]]" "[0, 1]" "[1, 3]"
      "[[3/5, 2/5], [1/5, 4/5]]"]
  by (simp add: updater_pre_def wf_adjacency_def matrix_ok_def dist_ok_def numeral_2_eq_2 less_Suc_eq)

theorem evolve_divergent_rows_follow_snapshot_witness:
  "updater_pre \<lparr>net_size = 2, deci_num = 2, dist_diff_thres = 3/10, dist_diff_power = 3/10\<rparr> [[1], [0]] [0, 1] [1, 3] \<and>
   (\<exists>deci_dist'. evolve \<lparr>net_size = 2, deci_num = 2, dist_diff_thres = 3/10, dist_diff_power = 3/10\<rparr> [[1], [0]] [0, 1] [1, 3] [[3/5, 2/5], [1/5, 4/5]] = Inr deci_dist' \<and>
      Inr (deci_dist' ! 0) = next_row_snapshot \<lparr>net_size = 2, deci_num = 2, dist_diff_thres = 3/10, dist_diff_power = 3/10\<rparr> [[1], [0]] [0, 1] [1, 3] [[3/5, 2/5], [1/5, 4/5]] 0)"
proof -
  have pre: "updater_pre \<lparr>net_size = 2, deci_num = 2, dist_diff_thres = 3/10, dist_diff_power = 3/10\<rparr> [[1], [0]] [0, 1] [1, 3]"
    by (simp add: updater_pre_def wf_adjacency_def numeral_2_eq_2 less_Suc_eq)
  have ok: "matrix_ok (net_size \<lparr>net_size = 2, deci_num = 2, dist_diff_thres = 3/10, dist_diff_power = 3/10\<rparr>) (deci_num \<lparr>net_size = 2, deci_num = 2, dist_diff_thres = 3/10, dist_diff_power = 3/10\<rparr>) [[3/5, 2/5], [1/5, 4/5]]"
    by (simp add: matrix_ok_def dist_ok_def)
  from evolve_divergent_rows_follow_snapshot [OF pre ok] obtain dd' where
    dd': "evolve \<lparr>net_size = 2, deci_num = 2, dist_diff_thres = 3/10, dist_diff_power = 3/10\<rparr> [[1], [0]] [0, 1] [1, 3] [[3/5, 2/5], [1/5, 4/5]] = Inr dd'"
      "\<forall>i<net_size \<lparr>net_size = 2, deci_num = 2, dist_diff_thres = 3/10, dist_diff_power = 3/10\<rparr>. \<not> list_all (\<lambda>n. [0, 1::nat] ! i = [0, 1] ! n) ([[1], [0]] ! i) \<longrightarrow>
         Inr (dd' ! i) = next_row_snapshot \<lparr>net_size = 2, deci_num = 2, dist_diff_thres = 3/10, dist_diff_power = 3/10\<rparr> [[1], [0]] [0, 1] [1, 3] [[3/5, 2/5], [1/5, 4/5]] i"
    by blast
  from dd'(2) have "Inr (dd' ! 0) = next_row_snapshot \<lparr>net_size = 2, deci_num = 2, dist_diff_thres = 3/10, dist_diff_power = 3/10\<rparr> [[1], [0]] [0, 1] [1, 3] [[3/5, 2/5], [1/5, 4/5]] 0"
    by (drule_tac x = 0 in spec) simp
  with dd'(1) pre show ?thesis by blast
qed

theorem evolve_isolated_node_error_witness:
  "evolve \<lparr>net_size = 1, deci_num = 2, dist_diff_thres = 3/10, dist_diff_power = 3/10\<rparr>
     [[]] [0] [1] [[1/2, 1/2]] = Inl ValueError"
  using evolve_isolated_node_error [of "\<lparr>net_size = 1, deci_num = 2, dist_diff_thres = 3/10, dist_diff_power = 3/10\<rparr>"
      "[[]]" "[0]" "[[1/2, 1/2]]" "[1]"]
  by simp

theorem divergent_update_weighted_average_witness:
  "update_node \<lparr>net_size = 2, deci_num = 2, dist_diff_thres = 3/10, dist_diff_power = 3/10\<rparr> [[1], [0]] [0, 1] [3, 1] [[1/2, 1/2], [1/4, 3/4]] 0 [[1/2, 1/2], [1/4, 3/4]] =
     Inr [[7/16, 9/16], [1/4, 3/4]]"
  using divergent_update_weighted_average [of "[[1], [0]]" 0 1 "[0, 1]" "[3, 1]"
      "[[1/2, 1/2], [1/4, 3/4]]" 2 "[[1/2, 1/2], [1/4, 3/4]]" "\<lparr>net_size = 2, deci_num = 2, dist_diff_thres = 3/10, dist_diff_power = 3/10\<rparr>"]
  by (simp add: dist_ok_def)

text \<open>
  C27. The update of node \<open>i\<close> writes row \<open>i\<close> only: when it succeeds, the matrix
  keeps its length and every other row. The per-node writes of a round go to disjoint
  slots, as section 5 of the specification requires; what differs from the
  specification is where the differences are read (\<open>evolve_reads_updated_rows\<close>).
\<close>

theorem update_node_frame:
  assumes "update_node cfg conn deci_domi subsizes deci_dist_t i deci_dist = Inr deci_dist'"
  shows "length deci_dist' = length deci_dist \<and> (\<forall>j. j \<noteq> i \<longrightarrow> deci_dist' ! j = deci_dist ! j)"
  using assms by (auto simp: update_node_def py_set_def split: sum.splits if_splits)

theorem update_node_frame_witness:
  "length [[7/16, 9/16], [1/4, 3/4]] = length [[1/2, 1/2], [1/4, 3/4 :: real]] \<and>
   [[7/16, 9/16], [1/4, 3/4]] ! 1 = [[1/2, 1/2], [1/4, 3/4 :: real]] ! 1"
proof -
  have eq: "update_node \<lparr>net_size = 2, deci_num = 2, dist_diff_thres = 3/10, dist_diff_power = 3/10\<rparr> [[1], [0]] [0, 1] [3, 1] [[1/2, 1/2], [1/4, 3/4]] 0 [[1/2, 1/2], [1/4, 3/4]] =
      Inr [[7/16, 9/16], [1/4, 3/4]]"
    by (simp add: update_node_def normalize_dist_def vec_div_def vec_add_def vec_scale_def)
  from update_node_frame [OF eq] show ?thesis by simp
qed

end
