(* ===== verification/Round.thy ===== *)
theory Round
  imports Subgroups Updater
begin

text \<open>
  The simulation cycle of \<open>probabilistic_convergence.py\<close> (lines 145--212 and
  378--388): the state the cycle carries, its initialisation, one round of the algorithm
  (dominant decisions, subgroups, subgroup sizes, distribution evolution), the handling
  of the window events that pause and stop the cycle, and the cycle itself, both as a
  function over a finite sequence of event batches and as a step relation.
\<close>

section \<open>State and initialisation\<close>

text \<open>
  The module-level variables the cycle reads and writes. The drawing state (window,
  bar graph, timers) is left out: nothing the algorithm computes depends on it.
\<close>

record sim_state =
  deci_dist :: matrix
  deci_domi :: "nat list"
  subgroups :: "node list list"
  subsizes :: "nat list"
  sim_exit :: bool
  sim_pause :: bool
  iter_count :: nat

text \<open>
  Lines 145--155 and 188--190: the random matrix \<open>np.random.rand(net_size, deci_num)\<close>
  is the input \<open>raw\<close>; its rows are normalised, the dominant decisions computed, the
  subgroups emptied and the sizes zeroed; the cycle starts paused.
\<close>

definition init_state :: "sim_config \<Rightarrow> matrix \<Rightarrow> sim_state result" where
  "init_state cfg raw =
     (let dd = init_dist raw
      in case dominant_decisions dd of
           Inl e \<Rightarrow> Inl e
         | Inr domi \<Rightarrow>
             Inr \<lparr>deci_dist = dd, deci_domi = domi, subgroups = [],
                  subsizes = replicate (net_size cfg) 0, sim_exit = False, sim_pause = True,
                  iter_count = 0\<rparr>)"

section \<open>One round\<close>

text \<open>
  Lines 211--345: the three preparation steps and the evolution, each of which may
  raise; the state is updated only when all of them succeed.
\<close>

definition sim_round :: "sim_config \<Rightarrow> adjacency \<Rightarrow> sim_state \<Rightarrow> sim_state result" where
  "sim_round cfg conn st =
     (case dominant_decisions (deci_dist st) of
        Inl e \<Rightarrow> Inl e
      | Inr domi \<Rightarrow>
     (case update_subgroups (net_size cfg) conn domi of
        Inl e \<Rightarrow> Inl e
      | Inr sgs \<Rightarrow>
     (case update_subsizes (net_size cfg) sgs (subsizes st) of
        Inl e \<Rightarrow> Inl e
      | Inr ss \<Rightarrow>
     (case evolve cfg conn domi ss (deci_dist st) of
        Inl e \<Rightarrow> Inl e
      | Inr dd \<Rightarrow> Inr (st\<lparr>deci_dist := dd, deci_domi := domi, subgroups := sgs, subsizes := ss\<rparr>)))))"

section \<open>Events and the cycle\<close>

datatype key = K_SPACE | K_ESCAPE | K_q | K_other

datatype event = QUIT | KEYUP key | OTHER_EVENT

text \<open>
  Lines 196--203: the close button stops the cycle; releasing space toggles the pause;
  releasing Esc or Q stops the cycle.
\<close>

fun handle_event :: "event \<Rightarrow> sim_state \<Rightarrow> sim_state" where
  "handle_event QUIT st = st\<lparr>sim_exit := True\<rparr>"
| "handle_event (KEYUP k) st =
     (let st' = (if k = K_SPACE then st\<lparr>sim_pause := \<not> sim_pause st\<rparr> else st)
      in if k = K_ESCAPE \<or> k = K_q then st'\<lparr>sim_exit := True\<rparr> else st')"
| "handle_event OTHER_EVENT st = st"

text \<open>
  Lines 194--212 and 386--388, one pass of \<open>while not sim_exit\<close>: the events of this
  pass are handled in order; a paused cycle skips the rest (\<open>continue\<close>); otherwise a
  round runs and \<open>iter_count\<close> grows. A stop requested in this pass takes effect at the
  loop test, after the round.
\<close>

definition sim_iteration :: "sim_config \<Rightarrow> adjacency \<Rightarrow> event list \<Rightarrow> sim_state \<Rightarrow> sim_state result" where
  "sim_iteration cfg conn events st =
     (let st' = fold handle_event events st
      in if sim_pause st' then Inr st'
         else (case sim_round cfg conn st' of
                 Inl e \<Rightarrow> Inl e
               | Inr st'' \<Rightarrow> Inr (st''\<lparr>iter_count := Suc (iter_count st'')\<rparr>)))"

text \<open>The cycle over a finite sequence of event batches, one batch per pass.\<close>

fun sim_run :: "sim_config \<Rightarrow> adjacency \<Rightarrow> event list list \<Rightarrow> sim_state \<Rightarrow> sim_state result" where
  "sim_run cfg conn [] st = Inr st"
| "sim_run cfg conn (events # rest) st =
     (if sim_exit st then Inr st
      else (case sim_iteration cfg conn events st of
              Inl e \<Rightarrow> Inl e
            | Inr st' \<Rightarrow> sim_run cfg conn rest st'))"

text \<open>The same cycle as a step relation, with the states reachable from the start.\<close>

inductive sim_step :: "sim_config \<Rightarrow> adjacency \<Rightarrow> sim_state \<Rightarrow> sim_state \<Rightarrow> bool"
  for cfg conn where
  pass: "\<not> sim_exit st \<Longrightarrow> sim_iteration cfg conn events st = Inr st' \<Longrightarrow> sim_step cfg conn st st'"

inductive reachable :: "sim_config \<Rightarrow> adjacency \<Rightarrow> matrix \<Rightarrow> sim_state \<Rightarrow> bool"
  for cfg conn raw where
  start: "init_state cfg raw = Inr st \<Longrightarrow> reachable cfg conn raw st"
| step: "reachable cfg conn raw st \<Longrightarrow> sim_step cfg conn st st' \<Longrightarrow> reachable cfg conn raw st'"

inductive_cases sim_stepE: "sim_step cfg conn st st'"

section \<open>Conditions on the network and the state\<close>

definition net_ok :: "sim_config \<Rightarrow> adjacency \<Rightarrow> bool" where
  "net_ok cfg conn \<longleftrightarrow>
     wf_adjacency (net_size cfg) conn \<and> (\<forall>i<net_size cfg. conn ! i \<noteq> []) \<and>
     2 \<le> deci_num cfg \<and> 0 < dist_diff_thres cfg \<and> 0 < dist_diff_power cfg"

definition state_ok :: "sim_config \<Rightarrow> sim_state \<Rightarrow> bool" where
  "state_ok cfg st \<longleftrightarrow>
     matrix_ok (net_size cfg) (deci_num cfg) (deci_dist st) \<and> length (subsizes st) = net_size cfg"

text \<open>
  The random input matrix: one row per node, one entry per decision, entries
  non-negative and each row with a positive sum (\<open>np.random.rand\<close> draws from
  \<open>[0, 1)\<close>).
\<close>

definition raw_ok :: "sim_config \<Rightarrow> matrix \<Rightarrow> bool" where
  "raw_ok cfg raw \<longleftrightarrow>
     length raw = net_size cfg \<and>
     list_all (\<lambda>r. length r = deci_num cfg \<and> list_all (\<lambda>x. 0 \<le> x) r \<and> 0 < sum_list r) raw"

section \<open>Lemmas\<close>

lemma net_okD:
  assumes "net_ok cfg conn"
  shows "wf_adjacency (net_size cfg) conn" "\<forall>i<net_size cfg. conn ! i \<noteq> []"
    "2 \<le> deci_num cfg" "0 < dist_diff_thres cfg" "0 < dist_diff_power cfg"
  using assms unfolding net_ok_def by blast+

lemma state_okD:
  assumes "state_ok cfg st"
  shows "matrix_ok (net_size cfg) (deci_num cfg) (deci_dist st)" "length (subsizes st) = net_size cfg"
  using assms unfolding state_ok_def by blast+

lemma subsizes_pos:
  assumes "set (concat gs) = {..<n}" and "\<forall>g\<in>set gs. \<forall>i\<in>set g. ss ! i = length g" and "i < n"
  shows "0 < ss ! i"
proof -
  from assms(1,3) obtain g where "g \<in> set gs" "i \<in> set g" by auto
  with assms(2) show ?thesis by (auto simp: length_pos_if_in_set)
qed

lemma sim_round_facts:
  assumes net: "net_ok cfg conn" and st: "state_ok cfg st"
  obtains domi gs ss dd where
    "sim_round cfg conn st = Inr (st\<lparr>deci_dist := dd, deci_domi := domi, subgroups := gs, subsizes := ss\<rparr>)"
    "dominant_decisions (deci_dist st) = Inr domi" "length domi = net_size cfg"
    "\<forall>i<net_size cfg. domi ! i < deci_num cfg"
    "groups_inv (net_size cfg) conn domi [] gs"
    "length ss = net_size cfg" "\<forall>g\<in>set gs. \<forall>i\<in>set g. ss ! i = length g"
    "\<forall>i<net_size cfg. 0 < ss ! i"
    "matrix_ok (net_size cfg) (deci_num cfg) dd"
proof -
  note N = net_okD [OF net] and S = state_okD [OF st]
  let ?N = "net_size cfg" and ?D = "deci_num cfg"
  from N(3) have D0: "0 < ?D" by simp
  from dominant_decisions_ok [OF S(1) D0] obtain domi where
    domi: "dominant_decisions (deci_dist st) = Inr domi" "length domi = ?N" "\<forall>i<?N. domi ! i < ?D"
    by blast
  from update_subgroups_correct [OF N(1) domi(2)] obtain gs where
    gs: "update_subgroups ?N conn domi = Inr gs" "groups_inv ?N conn domi [] gs" by blast
  from groups_invD(1,2) [OF gs(2)] have gd: "distinct (concat gs)" "set (concat gs) = {..<?N}"
    by simp_all
  from update_subsizes_correct [OF gd S(2)] obtain ss where
    ss: "update_subsizes ?N gs (subsizes st) = Inr ss" "length ss = ?N"
        "\<forall>g\<in>set gs. \<forall>i\<in>set g. ss ! i = length g" by blast
  note pos = subsizes_pos [OF gd(2) ss(3)]
  have "updater_pre cfg conn domi ss"
    using N domi(2) ss(2) pos by (simp add: updater_pre_def)
  from evolve_prefix [OF this S(1) order_refl] obtain dd where
    dd: "evolve cfg conn domi ss (deci_dist st) = Inr dd" "matrix_ok ?N ?D dd"
    by (auto simp: evolve_def)
  from domi(1) gs(1) ss(1) dd(1) have
    "sim_round cfg conn st = Inr (st\<lparr>deci_dist := dd, deci_domi := domi, subgroups := gs, subsizes := ss\<rparr>)"
    by (simp add: sim_round_def)
  with that domi gs(2) ss(2,3) pos dd(2) show ?thesis by blast
qed

lemma sim_round_ok:
  assumes net: "net_ok cfg conn" and st: "state_ok cfg st"
  shows "\<exists>st'. sim_round cfg conn st = Inr st' \<and> state_ok cfg st' \<and>
           sim_exit st' = sim_exit st \<and> sim_pause st' = sim_pause st \<and> iter_count st' = iter_count st"
proof -
  obtain domi gs ss dd where
    r: "sim_round cfg conn st = Inr (st\<lparr>deci_dist := dd, deci_domi := domi, subgroups := gs, subsizes := ss\<rparr>)"
    and f: "length ss = net_size cfg" "matrix_ok (net_size cfg) (deci_num cfg) dd"
    by (rule sim_round_facts [OF net st]) blast
  with r show ?thesis by (simp add: state_ok_def)
qed

lemma handle_event_keeps:
  "deci_dist (handle_event e st) = deci_dist st" "subsizes (handle_event e st) = subsizes st"
  "iter_count (handle_event e st) = iter_count st"
  "sim_exit st \<Longrightarrow> sim_exit (handle_event e st)"
  by (cases e; simp add: Let_def)+

lemma fold_handle_event_keeps:
  "deci_dist (fold handle_event es st) = deci_dist st"
  "subsizes (fold handle_event es st) = subsizes st"
  "iter_count (fold handle_event es st) = iter_count st"
  "sim_exit st \<Longrightarrow> sim_exit (fold handle_event es st)"
  by (induction es arbitrary: st) (simp_all add: handle_event_keeps)

lemma fold_handle_event_QUIT:
  "QUIT \<in> set es \<Longrightarrow> sim_exit (fold handle_event es st)"
proof (induction es arbitrary: st)
  case (Cons e es)
  show ?case
  proof (cases "e = QUIT")
    case True
    then have "sim_exit (handle_event e st)" by simp
    then show ?thesis by (simp add: fold_handle_event_keeps(4))
  next
    case False
    with Cons show ?thesis by simp
  qed
qed simp

lemma state_ok_fold_handle_event:
  "state_ok cfg st \<Longrightarrow> state_ok cfg (fold handle_event es st)"
  by (simp add: state_ok_def fold_handle_event_keeps)

lemma sim_round_exit:
  "sim_round cfg conn st = Inr st' \<Longrightarrow> sim_exit st' = sim_exit st"
  by (auto simp: sim_round_def split: sum.splits)

lemma sim_iteration_exit:
  assumes "sim_iteration cfg conn events st = Inr st'"
  shows "sim_exit st' = sim_exit (fold handle_event events st)"
  using assms by (auto simp: sim_iteration_def Let_def sim_round_exit split: if_splits sum.splits)

lemma sim_iteration_ok:
  assumes net: "net_ok cfg conn" and st: "state_ok cfg st"
  shows "\<exists>st'. sim_iteration cfg conn events st = Inr st' \<and> state_ok cfg st'"
proof -
  let ?st1 = "fold handle_event events st"
  have ok1: "state_ok cfg ?st1" using st by (rule state_ok_fold_handle_event)
  show ?thesis
  proof (cases "sim_pause ?st1")
    case True
    with ok1 show ?thesis by (simp add: sim_iteration_def)
  next
    case False
    from sim_round_ok [OF net ok1] obtain st2 where
      "sim_round cfg conn ?st1 = Inr st2" "state_ok cfg st2" by blast
    with False show ?thesis by (simp add: sim_iteration_def state_ok_def)
  qed
qed

lemma sim_run_ok:
  assumes "net_ok cfg conn" and "state_ok cfg st"
  shows "\<exists>st'. sim_run cfg conn evss st = Inr st' \<and> state_ok cfg st'"
  using assms(2)
proof (induction evss arbitrary: st)
  case (Cons events rest)
  show ?case
  proof (cases "sim_exit st")
    case False
    from sim_iteration_ok [OF assms(1) Cons.prems] obtain st' where
      "sim_iteration cfg conn events st = Inr st'" "state_ok cfg st'" by blast
    with Cons.IH [of st'] False show ?thesis by simp
  qed (use Cons.prems in simp)
qed simp

lemma init_dist_ok:
  assumes "raw_ok cfg raw"
  shows "matrix_ok (net_size cfg) (deci_num cfg) (init_dist raw)"
proof -
  have "dist_ok (deci_num cfg) (normalize_dist r)" if "r \<in> set raw" for r
    using assms that by (intro normalize_dist_ok) (auto simp: raw_ok_def list_all_iff)
  with assms show ?thesis
    by (auto simp: matrix_ok_def init_dist_def raw_ok_def list_all_iff)
qed

lemma init_state_ok:
  assumes raw: "raw_ok cfg raw" and D: "0 < deci_num cfg"
  shows "\<exists>st. init_state cfg raw = Inr st \<and> state_ok cfg st \<and> \<not> sim_exit st \<and> sim_pause st \<and>
           iter_count st = 0"
proof -
  note M = init_dist_ok [OF raw]
  from dominant_decisions_ok [OF M D] obtain domi where
    "dominant_decisions (init_dist raw) = Inr domi" by blast
  with M show ?thesis by (simp add: init_state_def state_ok_def)
qed


section \<open>Properties of the simulation cycle\<close>

text \<open>
  C14. One round composes the components as the specification describes: on a
  well-formed network without isolated nodes and a state whose rows are distributions,
  the round raises nothing; the new dominant decisions are those of the old rows; the
  subgroups partition the nodes; every node's size is the size of its subgroup, hence
  positive; and the new rows are distributions again.
\<close>

theorem sim_round_composes:
  assumes net: "net_ok cfg conn" and st: "state_ok cfg st"
  shows "\<exists>st'. sim_round cfg conn st = Inr st' \<and> state_ok cfg st' \<and>
           dominant_decisions (deci_dist st) = Inr (deci_domi st') \<and>
           distinct (concat (subgroups st')) \<and> set (concat (subgroups st')) = {..<net_size cfg} \<and>
           (\<forall>g\<in>set (subgroups st'). \<forall>i\<in>set g. subsizes st' ! i = length g) \<and>
           (\<forall>i<net_size cfg. 0 < subsizes st' ! i)"
proof -
  obtain domi gs ss dd where
    r: "sim_round cfg conn st = Inr (st\<lparr>deci_dist := dd, deci_domi := domi, subgroups := gs, subsizes := ss\<rparr>)"
    and f: "dominant_decisions (deci_dist st) = Inr domi" "groups_inv (net_size cfg) conn domi [] gs"
      "length ss = net_size cfg" "\<forall>g\<in>set gs. \<forall>i\<in>set g. ss ! i = length g"
      "\<forall>i<net_size cfg. 0 < ss ! i" "matrix_ok (net_size cfg) (deci_num cfg) dd"
    by (rule sim_round_facts [OF net st]) blast
  from groups_invD(1,2) [OF f(2)] have "distinct (concat gs)" "set (concat gs) = {..<net_size cfg}"
    by simp_all
  with r f show ?thesis by (simp add: state_ok_def)
qed

theorem sim_round_composes_witness:
  "net_ok \<lparr>net_size = 2, deci_num = 2, dist_diff_thres = 3/10, dist_diff_power = 3/10\<rparr> [[1], [0]] \<and>
   state_ok \<lparr>net_size = 2, deci_num = 2, dist_diff_thres = 3/10, dist_diff_power = 3/10\<rparr> \<lparr>deci_dist = [[3/5, 2/5], [1/5, 4/5]], deci_domi = [], subgroups = [], subsizes = [0, 0],
      sim_exit = False, sim_pause = False, iter_count = 0\<rparr> \<and>
   (\<exists>st'. sim_round \<lparr>net_size = 2, deci_num = 2, dist_diff_thres = 3/10, dist_diff_power = 3/10\<rparr> [[1], [0]] \<lparr>deci_dist = [[3/5, 2/5], [1/5, 4/5]], deci_domi = [], subgroups = [],
        subsizes = [0, 0], sim_exit = False, sim_pause = False, iter_count = 0\<rparr> = Inr st' \<and>
      state_ok \<lparr>net_size = 2, deci_num = 2, dist_diff_thres = 3/10, dist_diff_power = 3/10\<rparr> st')"
proof -
  have net: "net_ok \<lparr>net_size = 2, deci_num = 2, dist_diff_thres = 3/10, dist_diff_power = 3/10\<rparr> [[1], [0]]"
    by (simp add: net_ok_def wf_adjacency_def numeral_2_eq_2 less_Suc_eq)
  have st: "state_ok \<lparr>net_size = 2, deci_num = 2, dist_diff_thres = 3/10, dist_diff_power = 3/10\<rparr> \<lparr>deci_dist = [[3/5, 2/5], [1/5, 4/5]], deci_domi = [], subgroups = [],
      subsizes = [0, 0], sim_exit = False, sim_pause = False, iter_count = 0\<rparr>"
    by (simp add: state_ok_def matrix_ok_def dist_ok_def)
  from sim_round_composes [OF net st] net st show ?thesis by blast
qed

text \<open>
  The invariant of the cycle, by rule induction over the reachable states: from a
  valid random matrix on a well-formed network without isolated nodes, every state the
  cycle reaches has one distribution per node and one subgroup size per node.
\<close>

theorem reachable_states_ok:
  assumes net: "net_ok cfg conn" and raw: "raw_ok cfg raw"
  shows "reachable cfg conn raw st \<Longrightarrow> state_ok cfg st"
proof (induction rule: reachable.induct)
  case (start st)
  from net_okD(3) [OF net] have "0 < deci_num cfg" by simp
  from init_state_ok [OF raw this] start show ?case by auto
next
  case (step st st')
  from step.hyps(2) obtain events where "sim_iteration cfg conn events st = Inr st'"
    by (auto elim: sim_stepE)
  with sim_iteration_ok [OF net step.IH, of events] show ?case by simp
qed

theorem reachable_states_ok_witness:
  "net_ok \<lparr>net_size = 2, deci_num = 2, dist_diff_thres = 3/10, dist_diff_power = 3/10\<rparr> [[1], [0]] \<and> raw_ok \<lparr>net_size = 2, deci_num = 2, dist_diff_thres = 3/10, dist_diff_power = 3/10\<rparr> [[1/2, 1/4], [1/8, 1/8]] \<and>
   reachable \<lparr>net_size = 2, deci_num = 2, dist_diff_thres = 3/10, dist_diff_power = 3/10\<rparr> [[1], [0]] [[1/2, 1/4], [1/8, 1/8]]
     \<lparr>deci_dist = [[2/3, 1/3], [1/2, 1/2]], deci_domi = [0, 0], subgroups = [], subsizes = [0, 0],
      sim_exit = False, sim_pause = True, iter_count = 0\<rparr> \<and>
   state_ok \<lparr>net_size = 2, deci_num = 2, dist_diff_thres = 3/10, dist_diff_power = 3/10\<rparr> \<lparr>deci_dist = [[2/3, 1/3], [1/2, 1/2]], deci_domi = [0, 0], subgroups = [],
      subsizes = [0, 0], sim_exit = False, sim_pause = True, iter_count = 0\<rparr>"
proof -
  have net: "net_ok \<lparr>net_size = 2, deci_num = 2, dist_diff_thres = 3/10, dist_diff_power = 3/10\<rparr> [[1], [0]]"
    by (simp add: net_ok_def wf_adjacency_def numeral_2_eq_2 less_Suc_eq)
  have raw: "raw_ok \<lparr>net_size = 2, deci_num = 2, dist_diff_thres = 3/10, dist_diff_power = 3/10\<rparr> [[1/2, 1/4], [1/8, 1/8]]" by (simp add: raw_ok_def)
  have "init_state \<lparr>net_size = 2, deci_num = 2, dist_diff_thres = 3/10, dist_diff_power = 3/10\<rparr> [[1/2, 1/4], [1/8, 1/8]] =
          Inr \<lparr>deci_dist = [[2/3, 1/3], [1/2, 1/2]], deci_domi = [0, 0], subgroups = [],
               subsizes = [0, 0], sim_exit = False, sim_pause = True, iter_count = 0\<rparr>"
    by (simp add: init_state_def init_dist_def normalize_dist_def vec_div_def dominant_decisions_def
        argmax_def numeral_2_eq_2)
  then have r: "reachable \<lparr>net_size = 2, deci_num = 2, dist_diff_thres = 3/10, dist_diff_power = 3/10\<rparr> [[1], [0]] [[1/2, 1/4], [1/8, 1/8]]
     \<lparr>deci_dist = [[2/3, 1/3], [1/2, 1/2]], deci_domi = [0, 0], subgroups = [], subsizes = [0, 0],
      sim_exit = False, sim_pause = True, iter_count = 0\<rparr>" by (rule reachable.start)
  from reachable_states_ok [OF net raw r] net raw r show ?thesis by blast
qed

text \<open>
  C15. The cycle never raises: from the initial state built from a valid random matrix
  on a well-formed network without isolated nodes, every sequence of event batches runs
  to a state, never to an exception, and that state satisfies the invariant.
\<close>

theorem sim_run_never_raises:
  assumes net: "net_ok cfg conn" and raw: "raw_ok cfg raw" and init: "init_state cfg raw = Inr st"
  shows "\<exists>st'. sim_run cfg conn evss st = Inr st' \<and> state_ok cfg st'"
proof -
  from net_okD(3) [OF net] have "0 < deci_num cfg" by simp
  from init_state_ok [OF raw this] init have "state_ok cfg st" by auto
  from sim_run_ok [OF net this] show ?thesis .
qed

theorem sim_run_never_raises_witness:
  "\<exists>st'. sim_run \<lparr>net_size = 2, deci_num = 2, dist_diff_thres = 3/10, dist_diff_power = 3/10\<rparr> [[1], [0]] [[KEYUP K_SPACE], [], [KEYUP K_q]]
      \<lparr>deci_dist = [[2/3, 1/3], [1/2, 1/2]], deci_domi = [0, 0], subgroups = [], subsizes = [0, 0],
       sim_exit = False, sim_pause = True, iter_count = 0\<rparr> = Inr st' \<and> state_ok \<lparr>net_size = 2, deci_num = 2, dist_diff_thres = 3/10, dist_diff_power = 3/10\<rparr> st'"
proof -
  have net: "net_ok \<lparr>net_size = 2, deci_num = 2, dist_diff_thres = 3/10, dist_diff_power = 3/10\<rparr> [[1], [0]]"
    by (simp add: net_ok_def wf_adjacency_def numeral_2_eq_2 less_Suc_eq)
  have raw: "raw_ok \<lparr>net_size = 2, deci_num = 2, dist_diff_thres = 3/10, dist_diff_power = 3/10\<rparr> [[1/2, 1/4], [1/8, 1/8]]" by (simp add: raw_ok_def)
  have init: "init_state \<lparr>net_size = 2, deci_num = 2, dist_diff_thres = 3/10, dist_diff_power = 3/10\<rparr> [[1/2, 1/4], [1/8, 1/8]] =
          Inr \<lparr>deci_dist = [[2/3, 1/3], [1/2, 1/2]], deci_domi = [0, 0], subgroups = [],
               subsizes = [0, 0], sim_exit = False, sim_pause = True, iter_count = 0\<rparr>"
    by (simp add: init_state_def init_dist_def normalize_dist_def vec_div_def dominant_decisions_def
        argmax_def numeral_2_eq_2)
  from sim_run_never_raises [OF net raw init] show ?thesis .
qed

text \<open>
  A paused pass changes nothing the algorithm computes: when the cycle is paused
  after this pass's events, the pass returns without a round, with the same
  distributions, subgroup sizes and iteration count.
\<close>

theorem paused_pass_keeps_state:
  assumes "sim_pause (fold handle_event events st)"
  shows "\<exists>st'. sim_iteration cfg conn events st = Inr st' \<and> deci_dist st' = deci_dist st \<and>
           subsizes st' = subsizes st \<and> iter_count st' = iter_count st"
  using assms by (simp add: sim_iteration_def fold_handle_event_keeps)

theorem paused_pass_keeps_state_witness:
  "sim_pause (fold handle_event [KEYUP K_SPACE] \<lparr>deci_dist = [[9/10, 1/10], [1/2, 1/2], [1/2, 1/2]], deci_domi = [], subgroups = [], subsizes = [0, 0, 0], sim_exit = False, sim_pause = False, iter_count = 0\<rparr>) \<and>
   (\<exists>st'. sim_iteration \<lparr>net_size = 3, deci_num = 2, dist_diff_thres = 3/10, dist_diff_power = 3/10\<rparr> [[1], [0, 2], [1]] [KEYUP K_SPACE] \<lparr>deci_dist = [[9/10, 1/10], [1/2, 1/2], [1/2, 1/2]], deci_domi = [], subgroups = [], subsizes = [0, 0, 0], sim_exit = False, sim_pause = False, iter_count = 0\<rparr> = Inr st' \<and>
      deci_dist st' = deci_dist \<lparr>deci_dist = [[9/10, 1/10], [1/2, 1/2], [1/2, 1/2]], deci_domi = [], subgroups = [], subsizes = [0, 0, 0], sim_exit = False, sim_pause = False, iter_count = 0\<rparr> \<and> subsizes st' = subsizes \<lparr>deci_dist = [[9/10, 1/10], [1/2, 1/2], [1/2, 1/2]], deci_domi = [], subgroups = [], subsizes = [0, 0, 0], sim_exit = False, sim_pause = False, iter_count = 0\<rparr> \<and> iter_count st' = iter_count \<lparr>deci_dist = [[9/10, 1/10], [1/2, 1/2], [1/2, 1/2]], deci_domi = [], subgroups = [], subsizes = [0, 0, 0], sim_exit = False, sim_pause = False, iter_count = 0\<rparr>)"
  using paused_pass_keeps_state [of "[KEYUP K_SPACE]" "\<lparr>deci_dist = [[9/10, 1/10], [1/2, 1/2], [1/2, 1/2]], deci_domi = [], subgroups = [], subsizes = [0, 0, 0], sim_exit = False, sim_pause = False, iter_count = 0\<rparr>" "\<lparr>net_size = 3, deci_num = 2, dist_diff_thres = 3/10, dist_diff_power = 3/10\<rparr>" "[[1], [0, 2], [1]]"] by simp

text \<open>
  C17. Stopping: when the close button, Esc or Q is among a pass's events, that pass is
  the last one; the rounds of the following batches never run.
\<close>

theorem quit_ends_run:
  assumes "\<not> sim_exit st" and "QUIT \<in> set events"
  shows "sim_run cfg conn (events # rest) st = sim_iteration cfg conn events st"
proof (cases "sim_iteration cfg conn events st")
  case (Inr st')
  from sim_iteration_exit [OF Inr] fold_handle_event_QUIT [OF assms(2)] have "sim_exit st'" by simp
  then have "sim_run cfg conn rest st' = Inr st'" by (cases rest) simp_all
  with assms(1) Inr show ?thesis by simp
qed (use assms(1) in simp)

theorem quit_ends_run_witness:
  "sim_run \<lparr>net_size = 3, deci_num = 2, dist_diff_thres = 3/10, dist_diff_power = 3/10\<rparr> [[1], [0, 2], [1]] [[OTHER_EVENT, QUIT], [KEYUP K_SPACE]] \<lparr>deci_dist = [[9/10, 1/10], [1/2, 1/2], [1/2, 1/2]], deci_domi = [], subgroups = [], subsizes = [0, 0, 0], sim_exit = False, sim_pause = False, iter_count = 0\<rparr> =
     sim_iteration \<lparr>net_size = 3, deci_num = 2, dist_diff_thres = 3/10, dist_diff_power = 3/10\<rparr> [[1], [0, 2], [1]] [OTHER_EVENT, QUIT] \<lparr>deci_dist = [[9/10, 1/10], [1/2, 1/2], [1/2, 1/2]], deci_domi = [], subgroups = [], subsizes = [0, 0, 0], sim_exit = False, sim_pause = False, iter_count = 0\<rparr>"
  using quit_ends_run [of "\<lparr>deci_dist = [[9/10, 1/10], [1/2, 1/2], [1/2, 1/2]], deci_domi = [], subgroups = [], subsizes = [0, 0, 0], sim_exit = False, sim_pause = False, iter_count = 0\<rparr>" "[OTHER_EVENT, QUIT]" "\<lparr>net_size = 3, deci_num = 2, dist_diff_thres = 3/10, dist_diff_power = 3/10\<rparr>" "[[1], [0, 2], [1]]" "[[KEYUP K_SPACE]]"]
  by simp

text \<open>
  The small fixed scenario of the specification (section 8.7): three nodes on the
  path 0--1--2, two decisions, rows \<open>[0.9, 0.1]\<close>, \<open>[0.5, 0.5]\<close>, \<open>[0.5, 0.5]\<close>. The
  ties resolve to decision 0, so all three nodes form one subgroup of size 3, and the
  new row of node 1 is the mean of the three input rows.
\<close>

theorem small_path_scenario:
  "\<exists>st'. sim_round \<lparr>net_size = 3, deci_num = 2, dist_diff_thres = 3/10, dist_diff_power = 3/10\<rparr> [[1], [0, 2], [1]] \<lparr>deci_dist = [[9/10, 1/10], [1/2, 1/2], [1/2, 1/2]], deci_domi = [], subgroups = [], subsizes = [0, 0, 0], sim_exit = False, sim_pause = False, iter_count = 0\<rparr> = Inr st' \<and>
     deci_domi st' = [0, 0, 0] \<and> subgroups st' = [[0, 1, 2]] \<and> subsizes st' = [3, 3, 3] \<and>
     deci_dist st' ! 1 = vec_div (vec_add (vec_add [9/10, 1/10] [1/2, 1/2]) [1/2, 1/2]) 3"
proof -
  have d: "dominant_decisions [[9/10, 1/10], [1/2, 1/2], [1/2, 1/2]] = Inr [0, 0, 0]"
    by (simp add: dominant_decisions_def argmax_def)
  have g: "update_subgroups 3 [[1], [0, 2], [1]] [0, 0, 0] = Inr [[0, 1, 2]]"
    by code_simp
  have s: "update_subsizes 3 [[0, 1, 2]] [0, 0, 0] = Inr [3, 3, 3]"
    by code_simp
  have "\<exists>r2. evolve \<lparr>net_size = 3, deci_num = 2, dist_diff_thres = 3/10, dist_diff_power = 3/10\<rparr> [[1], [0, 2], [1]] [0, 0, 0] [3, 3, 3] [[9/10, 1/10], [1/2, 1/2], [1/2, 1/2]] =
          Inr [[7/10, 3/10], [19/30, 11/30], r2]"
    by (simp add: evolve_def update_node_def
        sharpen_step_def pair_diffs_def comb_pairs_def dist_diff_def vec_sub_def sharpen_def
        bubble_sort_index_def bubble_pass_def bubble_step_def apply_multipliers_def multiplier_def
        normalize_dist_def vec_div_def vec_add_def vec_scale_def Let_def upt_rec swap_adj_def)
  then obtain r2 where e: "evolve \<lparr>net_size = 3, deci_num = 2, dist_diff_thres = 3/10, dist_diff_power = 3/10\<rparr> [[1], [0, 2], [1]] [0, 0, 0] [3, 3, 3]
      [[9/10, 1/10], [1/2, 1/2], [1/2, 1/2]] = Inr [[7/10, 3/10], [19/30, 11/30], r2]" by blast
  have m: "vec_div (vec_add (vec_add [9/10, 1/10] [1/2, 1/2]) [1/2, 1/2]) 3 = [19/30, 11/30 :: real]"
    by (simp add: vec_div_def vec_add_def)
  from d g s e m show ?thesis by (simp add: sim_round_def)
qed

text \<open>
  C24. The number of decisions from \<open>-d\<close> is not validated: with \<open>-d 0\<close> every row
  is empty and \<open>np.argmax\<close> of the initialisation (line 152) raises \<open>ValueError\<close>.
\<close>

theorem init_state_no_decisions:
  assumes "raw \<noteq> []" and "\<forall>r\<in>set raw. r = []"
  shows "init_state cfg raw = Inl ValueError"
proof -
  from assms obtain rs where raw: "raw = [] # rs" by (cases raw) auto
  then show ?thesis
    by (simp add: init_state_def init_dist_def dominant_decisions_def argmax_def normalize_dist_def
        vec_div_def)
qed

theorem init_state_no_decisions_witness:
  "init_state \<lparr>net_size = 2, deci_num = 0, dist_diff_thres = 3/10, dist_diff_power = 3/10\<rparr> [[], []] =
     Inl ValueError"
  using init_state_no_decisions [of "[[], []]"] by simp

lemma length_le_of_subset:
  assumes "distinct g" and "set g \<subseteq> {..<n}"
  shows "length g \<le> n"
proof -
  have "length g = card (set g)" using assms(1) by (simp add: distinct_card)
  also have "\<dots> \<le> card {..<n}" using assms(2) by (intro card_mono) simp_all
  finally show ?thesis by simp
qed

text \<open>
  The state a round produces is well typed: one dominant decision per node, each a
  valid decision index; one subgroup size per node, each between 1 and \<open>net_size\<close>;
  non-empty subgroups of valid node indices; and one row of \<open>deci_num\<close> entries per
  node.
\<close>

theorem sim_round_typed:
  assumes net: "net_ok cfg conn" and st: "state_ok cfg st"
  shows "\<exists>st'. sim_round cfg conn st = Inr st' \<and>
           length (deci_domi st') = net_size cfg \<and> (\<forall>i<net_size cfg. deci_domi st' ! i < deci_num cfg) \<and>
           length (subsizes st') = net_size cfg \<and>
           (\<forall>i<net_size cfg. 1 \<le> subsizes st' ! i \<and> subsizes st' ! i \<le> net_size cfg) \<and>
           (\<forall>g\<in>set (subgroups st'). g \<noteq> [] \<and> set g \<subseteq> {..<net_size cfg}) \<and>
           length (deci_dist st') = net_size cfg \<and> (\<forall>r\<in>set (deci_dist st'). length r = deci_num cfg)"
proof -
  let ?N = "net_size cfg"
  obtain domi gs ss dd where
    r: "sim_round cfg conn st = Inr (st\<lparr>deci_dist := dd, deci_domi := domi, subgroups := gs, subsizes := ss\<rparr>)"
    and f: "length domi = ?N" "\<forall>i<?N. domi ! i < deci_num cfg" "groups_inv ?N conn domi [] gs"
      "length ss = ?N" "\<forall>g\<in>set gs. \<forall>i\<in>set g. ss ! i = length g"
      "\<forall>i<?N. 0 < ss ! i" "matrix_ok ?N (deci_num cfg) dd"
    by (rule sim_round_facts [OF net st]) blast
  note G = groups_invD [OF f(3)]
  have sub: "set g \<subseteq> {..<?N}" if "g \<in> set gs" for g using G(2) that by auto
  have "ss ! i \<le> ?N" if i: "i < ?N" for i
  proof -
    from i G(2) obtain g where g: "g \<in> set gs" "i \<in> set g" by auto
    from G(1) g(1) have "distinct g" by (simp add: distinct_concat_member)
    from length_le_of_subset [OF this sub [OF g(1)]] f(5) g show ?thesis by simp
  qed
  moreover have "\<forall>r\<in>set dd. length r = deci_num cfg"
    using f(7) by (auto simp: matrix_ok_def dist_ok_def list_all_iff)
  ultimately show ?thesis
    using r f G(3) sub by (auto simp: Suc_le_eq matrix_ok_length)
qed

theorem sim_round_typed_witness:
  "net_ok \<lparr>net_size = 2, deci_num = 2, dist_diff_thres = 3/10, dist_diff_power = 3/10\<rparr> [[1], [0]] \<and>
   (\<exists>st'. sim_round \<lparr>net_size = 2, deci_num = 2, dist_diff_thres = 3/10, dist_diff_power = 3/10\<rparr> [[1], [0]] \<lparr>deci_dist = [[3/5, 2/5], [1/5, 4/5]], deci_domi = [], subgroups = [],
        subsizes = [0, 0], sim_exit = False, sim_pause = False, iter_count = 0\<rparr> = Inr st' \<and>
      length (deci_domi st') = 2)"
proof -
  have net: "net_ok \<lparr>net_size = 2, deci_num = 2, dist_diff_thres = 3/10, dist_diff_power = 3/10\<rparr> [[1], [0]]"
    by (simp add: net_ok_def wf_adjacency_def numeral_2_eq_2 less_Suc_eq)
  have st: "state_ok \<lparr>net_size = 2, deci_num = 2, dist_diff_thres = 3/10, dist_diff_power = 3/10\<rparr> \<lparr>deci_dist = [[3/5, 2/5], [1/5, 4/5]], deci_domi = [], subgroups = [],
      subsizes = [0, 0], sim_exit = False, sim_pause = False, iter_count = 0\<rparr>"
    by (simp add: state_ok_def matrix_ok_def dist_ok_def)
  from sim_round_typed [OF net st] net show ?thesis by auto
qed

end
