(* ===== verification/SearchLoop.thy ===== *)
theory SearchLoop
  imports Subgroups "HOL-Library.While_Combinator"
begin

text \<open>
  The inner loop of the subgroup search (lines 232--251) kept as the loop it is:
  \<open>search_body\<close> is one pass of the body of \<open>while p_index < len(p_members)\<close> on the
  loop variables \<open>(n_pool, subgroup_temp, p_members, p_index)\<close>, and
  \<open>member_search_while\<close> iterates it with \<open>while_option\<close>, an exception ending the
  loop. The loop terminates on every input, well-formed or not, and computes what the
  recursive \<open>member_search\<close> computes.
\<close>

type_synonym search_state = "node list \<times> node list \<times> node list \<times> nat"

definition search_body :: "adjacency \<Rightarrow> nat list \<Rightarrow> nat \<Rightarrow> search_state \<Rightarrow> search_state result" where
  "search_body conn deci_domi current_domi st =
     (case st of (n_pool, subgroup_temp, p_members, p_index) \<Rightarrow>
        (case py_get deci_domi (p_members ! p_index) of
           Inl e \<Rightarrow> Inl e
         | Inr d \<Rightarrow>
             (if d = current_domi then
                (let new_member = p_members ! p_index;
                     p_members' = remove1 new_member p_members
                 in case py_remove new_member n_pool of
                      Inl e \<Rightarrow> Inl e
                    | Inr n_pool' \<Rightarrow>
                        (let subgroup' = subgroup_temp @ [new_member]
                         in case py_get conn new_member of
                              Inl e \<Rightarrow> Inl e
                            | Inr p_members_new \<Rightarrow>
                                Inr (n_pool', subgroup',
                                     add_candidates p_members_new subgroup' n_pool' p_members', p_index)))
              else Inr (n_pool, subgroup_temp, p_members, Suc p_index))))"

definition search_guard :: "search_state result \<Rightarrow> bool" where
  "search_guard s = (case s of Inl e \<Rightarrow> False | Inr (n_pool, subgroup_temp, p_members, p_index) \<Rightarrow>
                       p_index < length p_members)"

definition member_search_while ::
  "adjacency \<Rightarrow> nat list \<Rightarrow> nat \<Rightarrow> search_state \<Rightarrow> search_state result option" where
  "member_search_while conn deci_domi current_domi st =
     while_option search_guard
       (\<lambda>s. case s of Inl e \<Rightarrow> Inl e | Inr st \<Rightarrow> search_body conn deci_domi current_domi st)
       (Inr st)"

definition search_rank :: "search_state result \<Rightarrow> nat \<times> nat" where
  "search_rank s = (case s of Inl e \<Rightarrow> (0, 0)
     | Inr (n_pool, subgroup_temp, p_members, p_index) \<Rightarrow> (Suc (length n_pool), length p_members - p_index))"

lemma search_body_decreases:
  assumes "search_guard (Inr st)"
  shows "(search_rank (search_body conn deci_domi c st), search_rank (Inr st)) \<in> less_than <*lex*> less_than"
proof -
  obtain pool sg pm k where st: "st = (pool, sg, pm, k)" by (cases st)
  from assms st have k: "k < length pm" by (simp add: search_guard_def)
  show ?thesis
  proof (cases "py_get deci_domi (pm ! k)")
    case (Inr d)
    show ?thesis
    proof (cases "d = c")
      case True
      show ?thesis
      proof (cases "py_remove (pm ! k) pool")
        case (Inr pool')
        from py_remove_Inr_length [OF Inr] have "length pool' < length pool" .
        with st \<open>py_get deci_domi (pm ! k) = Inr d\<close> True Inr show ?thesis
          by (auto simp: search_body_def search_rank_def Let_def split: sum.splits)
      qed (use st \<open>py_get deci_domi (pm ! k) = Inr d\<close> True in \<open>simp add: search_body_def search_rank_def\<close>)
    next
      case False
      with st Inr k show ?thesis by (simp add: search_body_def search_rank_def)
    qed
  qed (simp add: st search_body_def search_rank_def)
qed

lemma member_search_while_unfold:
  "member_search_while conn deci_domi c st =
     (if search_guard (Inr st)
      then (case search_body conn deci_domi c st of
              Inl e \<Rightarrow> Some (Inl e)
            | Inr st' \<Rightarrow> member_search_while conn deci_domi c st')
      else Some (Inr st))"
proof -
  have "while_option search_guard
          (\<lambda>s. case s of Inl e \<Rightarrow> Inl e | Inr st \<Rightarrow> search_body conn deci_domi c st) (Inl e) = Some (Inl e)"
    for e by (simp add: while_option_unfold [of _ _ "Inl e"] search_guard_def)
  then show ?thesis
    unfolding member_search_while_def
    by (subst while_option_unfold) (simp split: sum.split)
qed

text \<open>
  C28. The loop \<open>while p_index < len(p_members)\<close> terminates on every input, also on
  a malformed topology: each pass either removes a node from \<open>n_pool\<close>, or keeps
  the pool and moves \<open>p_index\<close> closer to the end of \<open>p_members\<close>, or raises.
\<close>

theorem member_search_while_terminates:
  "\<exists>r. member_search_while conn deci_domi current_domi st = Some r"
proof -
  let ?c = "\<lambda>s. case s of Inl e \<Rightarrow> Inl e | Inr st \<Rightarrow> search_body conn deci_domi current_domi st"
  have "{(t, s). (True \<and> search_guard s) \<and> t = ?c s} \<subseteq> inv_image (less_than <*lex*> less_than) search_rank"
  proof clarify
    fix s assume g: "search_guard s"
    then obtain st' where s: "s = Inr st'" by (cases s) (auto simp: search_guard_def)
    from search_body_decreases [of st' conn deci_domi current_domi] g s
    show "(?c s, s) \<in> inv_image (less_than <*lex*> less_than) search_rank" by simp
  qed
  then have "wf {(t, s). (True \<and> search_guard s) \<and> t = ?c s}"
    by (rule wf_subset [OF wf_inv_image [OF wf_lex_prod [OF wf_less_than wf_less_than]]])
  then show ?thesis
    unfolding member_search_while_def by (rule wf_while_option_Some [where P = "\<lambda>_. True"]) auto
qed

text \<open>
  The loop computes what the recursive model computes: projected to the variables
  the search uses afterwards, \<open>n_pool\<close> and \<open>subgroup_temp\<close>, the result of the
  \<open>while\<close> loop is \<open>member_search\<close>, exception included.
\<close>

theorem member_search_while_eq:
  "map_option (map_sum id (\<lambda>(n_pool, subgroup_temp, p_members, p_index). (n_pool, subgroup_temp)))
     (member_search_while conn deci_domi current_domi (n_pool, subgroup_temp, p_members, p_index)) =
   Some (member_search conn deci_domi current_domi n_pool subgroup_temp p_members p_index)"
proof (induction conn deci_domi current_domi n_pool subgroup_temp p_members p_index
       rule: member_search.induct)
  case (1 conn dd c pool sg pm k)
  note ms = member_search.simps [of conn dd c pool sg pm k]
  note mw = member_search_while_unfold [of conn dd c "(pool, sg, pm, k)"]
  show ?case
  proof (cases "k < length pm")
    case False
    then show ?thesis by (simp add: ms mw search_guard_def)
  next
    case True
    show ?thesis
    proof (cases "py_get dd (pm ! k)")
      case (Inl e)
      with True show ?thesis by (simp add: ms mw search_guard_def search_body_def)
    next
      case (Inr d)
      show ?thesis
      proof (cases "d = c")
        case False
        with True Inr "1.IH"(2) [OF True Inr False] show ?thesis
          by (simp add: ms mw search_guard_def search_body_def)
      next
        case dc: True
        show ?thesis
        proof (cases "py_remove (pm ! k) pool")
          case (Inl e)
          with True Inr dc show ?thesis by (simp add: ms mw search_guard_def search_body_def)
        next
          case rem: (Inr pool1)
          show ?thesis
          proof (cases "py_get conn (pm ! k)")
            case (Inl e)
            with True Inr dc rem show ?thesis
              by (simp add: ms mw search_guard_def search_body_def Let_def)
          next
            case gc: (Inr ns)
            from True Inr dc rem gc "1.IH"(1) [OF True Inr dc refl refl rem refl gc]
            show ?thesis by (simp add: ms mw search_guard_def search_body_def Let_def)
          qed
        qed
      qed
    qed
  qed
qed

theorem member_search_while_eq_witness:
  "map_option (map_sum id (\<lambda>(n_pool, subgroup_temp, p_members, p_index). (n_pool, subgroup_temp)))
     (member_search_while [[1], [0]] [0, 0] 0 ([1], [0], [1], 0)) = Some (Inr ([], [0, 1]))"
proof -
  have "member_search [[1], [0]] [0, 0] 0 [1] [0] [1] 0 = Inr ([], [0, 1])"
    by code_simp
  with member_search_while_eq [of "[[1], [0]]" "[0, 0]" 0 "[1]" "[0]" "[1]" 0] show ?thesis by simp
qed

end
