(* ===== verification/LineFormation.thy ===== *)
theory LineFormation
  imports Sharpen Round
begin

text \<open>
  The placement and the neighbour bookkeeping of \<open>line_formation.py\<close> (lines
  26--116), the second simulation of the repository. Each frame fills the symmetric table of pairwise
  distances, recording only distances within \<open>comm_range\<close>; lists for every robot the
  others it recorded with a positive distance; sorts each list by distance with a
  bubble sort; and reads the neighbours' statuses in that order. The control rules that
  follow (lines 118--127) stop in the middle of an \<open>if\<close> without a body, and the
  condition of lines 106--107 is split over two lines without parentheses: the file
  does not parse as Python. The model translates the statements as written, up to line
  116, reading lines 106--107 as the one comparison they spell out. The robot class
  \<open>LFRobot\<close> is not in the repository; a robot is modelled by the two attributes the
  code reads, \<open>pos\<close> and \<open>status\<close>. No robot moves in this file.
\<close>

section \<open>Configuration, robots and state\<close>

text \<open>Lines 29--34: the constants the modelled part reads.\<close>

record lf_config =
  robot_quantity :: nat
  comm_range :: real
  frame_period :: int

definition lf_default_config :: lf_config where
  "lf_default_config = \<lparr>robot_quantity = 30, comm_range = 7, frame_period = 100\<rparr>"

record lf_robot =
  pos :: "real \<times> real"
  status :: nat

text \<open>
  Lines 12 and 26: the world is 100 wide, scaled from the 1200 by 900 window; line 31:
  the placement keeps the robots within half of it, around the centre.
\<close>

definition lf_world_size :: "real \<times> real" where
  "lf_world_size = (100, 100 * 900 / 1200)"

definition distrib_coef :: real where
  "distrib_coef = 0.5"

text \<open>
  Lines 39--46: robot \<open>i\<close> is placed with the two random numbers drawn for it. The
  status a new \<open>LFRobot\<close> starts with is set in a module that is not in the repository,
  so it is an argument; velocity and orientation are not read by the modelled part.
\<close>

definition place_robots :: "nat \<Rightarrow> (real \<times> real) list \<Rightarrow> lf_robot list" where
  "place_robots status0 rands =
     map (\<lambda>(r0, r1). \<lparr>pos = (((r0 - 0.5) * distrib_coef + 0.5) * fst lf_world_size,
                            ((r1 - 0.5) * distrib_coef + 0.5) * snd lf_world_size),
                     status = status0\<rparr>) rands"

text \<open>
  Lines 52--58 and the module-level variables the frame assigns (\<open>dist_table\<close>,
  \<open>index_list\<close>, \<open>status_list\<close>); \<open>timer_last\<close> in milliseconds.
\<close>

record lf_state =
  dist_table :: "real list list"
  index_list :: "nat list list"
  status_list :: "nat list list"
  lf_exit :: bool
  lf_pause :: bool
  timer_last :: int

definition lf_init :: "lf_config \<Rightarrow> int \<Rightarrow> lf_state" where
  "lf_init cfg ticks =
     \<lparr>dist_table = replicate (robot_quantity cfg) (replicate (robot_quantity cfg) (-1)),
      index_list = [], status_list = [], lf_exit = False, lf_pause = False, timer_last = ticks\<rparr>"

section \<open>The distance table\<close>

text \<open>Lines 80--83: the Euclidean distance of two robots.\<close>

definition pair_distance :: "lf_robot \<Rightarrow> lf_robot \<Rightarrow> real" where
  "pair_distance a b =
     (let pos_temp = (fst (pos a) - fst (pos b), snd (pos a) - snd (pos b))
      in sqrt (fst pos_temp * fst pos_temp + snd pos_temp * snd pos_temp))"

text \<open>Lines 86--87 and 89--90: both entries of the pair get the same value.\<close>

definition set_pair :: "real list list \<Rightarrow> nat \<Rightarrow> nat \<Rightarrow> real \<Rightarrow> real list list" where
  "set_pair t i j v = (let t' = t[i := (t ! i)[j := v]] in t'[j := (t' ! j)[i := v]])"

text \<open>Lines 80--90: the distance within range, \<open>-1.0\<close> otherwise.\<close>

definition dist_step :: "lf_config \<Rightarrow> lf_robot list \<Rightarrow> nat \<Rightarrow> nat \<Rightarrow> real list list \<Rightarrow> real list list" where
  "dist_step cfg robots i j t =
     (let dist_temp = pair_distance (robots ! i) (robots ! j)
      in if dist_temp \<le> comm_range cfg then set_pair t i j dist_temp else set_pair t i j (-1))"

text \<open>Lines 77--90: the upper triangle, mirrored.\<close>

definition update_dist_table :: "lf_config \<Rightarrow> lf_robot list \<Rightarrow> real list list \<Rightarrow> real list list" where
  "update_dist_table cfg robots t =
     fold (\<lambda>i t. fold (\<lambda>j t. dist_step cfg robots i j t) [Suc i..<robot_quantity cfg] t)
       [0..<robot_quantity cfg] t"

section \<open>Neighbour lists\<close>

text \<open>Lines 92--97: the other robots with a positive recorded distance, by index.\<close>

definition neighbour_indices :: "lf_config \<Rightarrow> real list list \<Rightarrow> nat list list" where
  "neighbour_indices cfg t =
     map (\<lambda>i. filter (\<lambda>j. j \<noteq> i \<and> t ! i ! j > 0) [0..<robot_quantity cfg]) [0..<robot_quantity cfg]"

text \<open>
  Lines 100--111: a list of fewer than two neighbours is left alone; otherwise a bubble
  sort of the indices by their recorded distance, swapping on a strictly larger key.
\<close>

definition sort_by_distance :: "real list \<Rightarrow> nat list \<Rightarrow> nat list" where
  "sort_by_distance drow idx =
     (let len_temp = length idx
      in if len_temp < 2 then idx
         else fold (\<lambda>j idx. fold (\<lambda>k idx. if drow ! (idx ! k) > drow ! (idx ! Suc k) then swap_adj idx k else idx)
                              [0..<len_temp - 1 - j] idx)
                [0..<len_temp - 1] idx)"

text \<open>Lines 99--111: every robot's list is sorted with its own row of the table.\<close>

definition sort_index_lists :: "lf_config \<Rightarrow> real list list \<Rightarrow> nat list list \<Rightarrow> nat list list" where
  "sort_index_lists cfg t idx_lists =
     map (\<lambda>i. sort_by_distance (t ! i) (idx_lists ! i)) [0..<robot_quantity cfg]"

text \<open>Lines 113--116: the neighbours' statuses, in the sorted order.\<close>

definition status_lists :: "lf_config \<Rightarrow> lf_robot list \<Rightarrow> nat list list \<Rightarrow> nat list list" where
  "status_lists cfg robots idx_lists =
     map (\<lambda>i. map (\<lambda>j. status (robots ! j)) (idx_lists ! i)) [0..<robot_quantity cfg]"

text \<open>Lines 76--116: one frame.\<close>

definition lf_frame :: "lf_config \<Rightarrow> lf_robot list \<Rightarrow> lf_state \<Rightarrow> lf_state" where
  "lf_frame cfg robots st =
     (let t = update_dist_table cfg robots (dist_table st);
          idx = sort_index_lists cfg t (neighbour_indices cfg t)
      in st\<lparr>dist_table := t, index_list := idx, status_list := status_lists cfg robots idx\<rparr>)"

section \<open>The loop\<close>

text \<open>Lines 61--68: the same event handling as the convergence simulation.\<close>

fun lf_handle_event :: "event \<Rightarrow> lf_state \<Rightarrow> lf_state" where
  "lf_handle_event QUIT st = st\<lparr>lf_exit := True\<rparr>"
| "lf_handle_event (KEYUP k) st =
     (let st' = (if k = K_SPACE then st\<lparr>lf_pause := \<not> lf_pause st\<rparr> else st)
      in if k = K_ESCAPE \<or> k = K_q then st'\<lparr>lf_exit := True\<rparr> else st')"
| "lf_handle_event OTHER_EVENT st = st"

text \<open>
  Lines 59--75: one pass of \<open>while not sim_exit\<close> at time \<open>ticks\<close>: events, the pause,
  then a frame when more than \<open>frame_period\<close> milliseconds have passed since
  \<open>timer_last\<close>. Nothing in the file assigns \<open>timer_last\<close> after line 57.
\<close>

definition lf_iteration :: "lf_config \<Rightarrow> lf_robot list \<Rightarrow> event list \<Rightarrow> int \<Rightarrow> lf_state \<Rightarrow> lf_state" where
  "lf_iteration cfg robots events ticks st =
     (let st' = fold lf_handle_event events st
      in if lf_pause st' then st'
         else (let timer_now = ticks
               in if timer_now - timer_last st' > frame_period cfg then lf_frame cfg robots st' else st'))"

text \<open>Lines 59--75: \<open>while not sim_exit\<close>, one pass per element of the run.\<close>

fun lf_run :: "lf_config \<Rightarrow> lf_robot list \<Rightarrow> (event list \<times> int) list \<Rightarrow> lf_state \<Rightarrow> lf_state" where
  "lf_run cfg robots [] st = st"
| "lf_run cfg robots ((events, ticks) # rest) st =
     (if lf_exit st then st else lf_run cfg robots rest (lf_iteration cfg robots events ticks st))"

section \<open>Reference definitions for the proofs\<close>

text \<open>
  \<open>recorded_distance\<close> is the value the code stores for a pair (the distance within
  range, \<open>-1\<close> otherwise); \<open>table_upto\<close> says which pairs of a table already hold
  it, the other entries keeping their value in \<open>t0\<close>. The comparison step \<open>key_step\<close> and
  its lemmas are shared with the sort of \<open>sharpen\<close> and live in \<open>Sharpen\<close>.
\<close>

definition recorded_distance :: "lf_config \<Rightarrow> lf_robot list \<Rightarrow> nat \<Rightarrow> nat \<Rightarrow> real" where
  "recorded_distance cfg robots a b =
     (let d = pair_distance (robots ! a) (robots ! b) in if d \<le> comm_range cfg then d else -1)"

definition table_upto ::
  "nat \<Rightarrow> real list list \<Rightarrow> (nat \<Rightarrow> nat \<Rightarrow> real) \<Rightarrow> (nat \<Rightarrow> nat \<Rightarrow> bool) \<Rightarrow> real list list \<Rightarrow> bool" where
  "table_upto n t0 w done t \<longleftrightarrow> length t = n \<and>
     (\<forall>a<n. length (t ! a) = n \<and> (\<forall>b<n. t ! a ! b = (if a \<noteq> b \<and> done a b then w a b else t0 ! a ! b)))"

lemma sort_by_distance_eq_fold:
  "sort_by_distance drow idx =
     fold (\<lambda>j. fold (key_step drow) [0..<length idx - 1 - j]) [0..<length idx - 1] idx"
proof (cases "length idx < 2")
  case True
  then have "[0..<length idx - 1] = []" by simp
  with True show ?thesis by (simp add: sort_by_distance_def)
qed (simp add: sort_by_distance_def key_step_def [abs_def] Let_def)

lemma sort_by_distance_sort_key: "sort_by_distance drow idx = sort_key (nth drow) idx"
  unfolding sort_by_distance_eq_fold by (rule key_passes_sort_key)

section \<open>The distance table\<close>

lemma pair_distance_sym: "pair_distance a b = pair_distance b a"
proof -
  have "(fst (pos a) - fst (pos b)) * (fst (pos a) - fst (pos b)) =
        (fst (pos b) - fst (pos a)) * (fst (pos b) - fst (pos a))"
       "(snd (pos a) - snd (pos b)) * (snd (pos a) - snd (pos b)) =
        (snd (pos b) - snd (pos a)) * (snd (pos b) - snd (pos a))"
    by (simp_all add: algebra_simps)
  then show ?thesis by (simp add: pair_distance_def Let_def)
qed

lemma recorded_distance_sym: "recorded_distance cfg robots a b = recorded_distance cfg robots b a"
  by (simp add: recorded_distance_def pair_distance_sym)

lemma dist_step_eq: "dist_step cfg robots i j t = set_pair t i j (recorded_distance cfg robots i j)"
  by (simp add: dist_step_def recorded_distance_def Let_def)

lemma table_uptoD:
  assumes "table_upto n t0 w P t"
  shows "length t = n" "a < n \<Longrightarrow> length (t ! a) = n"
    "a < n \<Longrightarrow> b < n \<Longrightarrow> t ! a ! b = (if a \<noteq> b \<and> P a b then w a b else t0 ! a ! b)"
  using assms unfolding table_upto_def by blast+

lemma table_upto_cong:
  assumes "table_upto n t0 w P t" and "\<forall>a<n. \<forall>b<n. a \<noteq> b \<longrightarrow> P a b = Q a b"
  shows "table_upto n t0 w Q t"
  using assms unfolding table_upto_def by auto

lemma set_pair_nth:
  assumes "length t = n" "\<forall>a<n. length (t ! a) = n" "i < n" "j < n" "i \<noteq> j"
  shows "length (set_pair t i j v) = n" "\<forall>a<n. length (set_pair t i j v ! a) = n"
    "\<forall>a<n. \<forall>b<n. set_pair t i j v ! a ! b = (if (a = i \<and> b = j) \<or> (a = j \<and> b = i) then v else t ! a ! b)"
  using assms by (auto simp: set_pair_def Let_def nth_list_update)

lemma table_upto_step:
  assumes m: "table_upto n t0 w P t" and sym: "\<And>a b. w a b = w b a" and ij: "i < j" "j < n"
  shows "table_upto n t0 w (\<lambda>a b. P a b \<or> (min a b = i \<and> max a b = j)) (set_pair t i j (w i j))"
proof -
  note M = table_uptoD [OF m]
  from ij have "i < n" "i \<noteq> j" by simp_all
  note C = set_pair_nth [OF M(1) allI [OF impI [OF M(2)]] this(1) ij(2) this(2), of "w i j"]
  have "set_pair t i j (w i j) ! a ! b =
          (if a \<noteq> b \<and> (P a b \<or> (min a b = i \<and> max a b = j)) then w a b else t0 ! a ! b)"
    if ab: "a < n" "b < n" for a b
  proof (cases "(a = i \<and> b = j) \<or> (a = j \<and> b = i)")
    case True
    with C(3) ab ij show ?thesis by (auto simp: sym [of i j])
  next
    case False
    with ij have "(P a b \<or> (min a b = i \<and> max a b = j)) = P a b"
      by (auto simp: min_def max_def split: if_splits)
    moreover from False C(3) ab have "set_pair t i j (w i j) ! a ! b = t ! a ! b" by auto
    ultimately show ?thesis using M(3) [OF ab] by (simp only:)
  qed
  with C(1,2) show ?thesis by (simp add: table_upto_def)
qed

lemma fold_dist_row:
  assumes i: "i < n" and n: "robot_quantity cfg = n"
    and t: "table_upto n t0 (recorded_distance cfg robots) (\<lambda>a b. min a b < i) t"
  shows "table_upto n t0 (recorded_distance cfg robots) (\<lambda>a b. min a b < Suc i)
           (fold (\<lambda>j t. dist_step cfg robots i j t) [Suc i..<n] t)"
proof -
  let ?w = "recorded_distance cfg robots"
  let ?g = "\<lambda>j t. dist_step cfg robots i j t"
  have "Suc i \<le> m \<Longrightarrow> m \<le> n \<Longrightarrow>
          table_upto n t0 ?w (\<lambda>a b. min a b < i \<or> (min a b = i \<and> max a b < m)) (fold ?g [Suc i..<m] t)"
    for m
  proof (induction m)
    case (Suc m)
    show ?case
    proof (cases "m = i")
      case True
      have "\<forall>a<n. \<forall>b<n. a \<noteq> b \<longrightarrow> (min a b < i) = (min a b < i \<or> (min a b = i \<and> max a b < Suc m))"
        using True by (auto simp: min_def max_def)
      from table_upto_cong [OF t this] True show ?thesis by simp
    next
      case False
      with Suc.prems have m: "Suc i \<le> m" "m < n" by simp_all
      from m(1) have im: "i < m" by simp
      from table_upto_step [OF Suc.IH [OF m(1) less_imp_le [OF m(2)]] recorded_distance_sym im m(2)]
      have "table_upto n t0 ?w (\<lambda>a b. (min a b < i \<or> (min a b = i \<and> max a b < m)) \<or>
              (min a b = i \<and> max a b = m)) (?g m (fold ?g [Suc i..<m] t))"
        by (simp add: dist_step_eq)
      moreover have "\<forall>a<n. \<forall>b<n. a \<noteq> b \<longrightarrow>
          ((min a b < i \<or> (min a b = i \<and> max a b < m)) \<or> (min a b = i \<and> max a b = m)) =
          (min a b < i \<or> (min a b = i \<and> max a b < Suc m))" by auto
      ultimately show ?thesis using m(1) by (simp add: table_upto_cong)
    qed
  qed simp
  from this [of n] i have "table_upto n t0 ?w (\<lambda>a b. min a b < i \<or> (min a b = i \<and> max a b < n))
      (fold ?g [Suc i..<n] t)" by simp
  moreover have "\<forall>a<n. \<forall>b<n. a \<noteq> b \<longrightarrow>
      (min a b < i \<or> (min a b = i \<and> max a b < n)) = (min a b < Suc i)"
    by (auto simp: min_def max_def)
  ultimately show ?thesis by (rule table_upto_cong)
qed

lemma update_dist_table_upto:
  assumes n: "robot_quantity cfg = n" and t0: "length t0 = n" "\<forall>a<n. length (t0 ! a) = n"
  shows "table_upto n t0 (recorded_distance cfg robots) (\<lambda>a b. True) (update_dist_table cfg robots t0)"
proof -
  let ?g = "\<lambda>i t. fold (\<lambda>j t. dist_step cfg robots i j t) [Suc i..<n] t"
  have "k \<le> n \<Longrightarrow> table_upto n t0 (recorded_distance cfg robots) (\<lambda>a b. min a b < k) (fold ?g [0..<k] t0)"
    for k
  proof (induction k)
    case 0
    with t0 show ?case by (simp add: table_upto_def)
  next
    case (Suc k)
    then have "table_upto n t0 (recorded_distance cfg robots) (\<lambda>a b. min a b < k) (fold ?g [0..<k] t0)"
      by simp
    from fold_dist_row [OF _ n this] Suc.prems show ?case by simp
  qed
  from this [of n] have "table_upto n t0 (recorded_distance cfg robots) (\<lambda>a b. min a b < n) (fold ?g [0..<n] t0)"
    by simp
  then have "table_upto n t0 (recorded_distance cfg robots) (\<lambda>a b. True) (fold ?g [0..<n] t0)"
    by (rule table_upto_cong) (simp add: min_def)
  then show ?thesis by (simp add: update_dist_table_def n)
qed

lemma update_dist_table_nth:
  assumes n: "robot_quantity cfg = n" and t0: "length t0 = n" "\<forall>a<n. length (t0 ! a) = n"
  shows "length (update_dist_table cfg robots t0) = n"
    "a < n \<Longrightarrow> length (update_dist_table cfg robots t0 ! a) = n"
    "a < n \<Longrightarrow> b < n \<Longrightarrow> update_dist_table cfg robots t0 ! a ! b =
       (if a = b then t0 ! a ! b else recorded_distance cfg robots a b)"
  using table_uptoD [OF update_dist_table_upto [OF n t0]] by auto

lemma recorded_distance_pos:
  "0 < recorded_distance cfg robots a b \<longleftrightarrow>
     0 < pair_distance (robots ! a) (robots ! b) \<and> pair_distance (robots ! a) (robots ! b) \<le> comm_range cfg"
  by (simp add: recorded_distance_def Let_def)

lemma neighbour_indices_update:
  assumes n: "robot_quantity cfg = n" and t0: "length t0 = n" "\<forall>a<n. length (t0 ! a) = n" and i: "i < n"
  shows "neighbour_indices cfg (update_dist_table cfg robots t0) ! i =
    filter (\<lambda>j. j \<noteq> i \<and> 0 < pair_distance (robots ! i) (robots ! j) \<and>
                 pair_distance (robots ! i) (robots ! j) \<le> comm_range cfg) [0..<n]"
proof -
  have "\<And>j. j \<in> set [0..<n] \<Longrightarrow>
      (j \<noteq> i \<and> 0 < update_dist_table cfg robots t0 ! i ! j) =
      (j \<noteq> i \<and> 0 < pair_distance (robots ! i) (robots ! j) \<and>
                 pair_distance (robots ! i) (robots ! j) \<le> comm_range cfg)"
    using update_dist_table_nth(3) [OF n t0 i] recorded_distance_pos by auto
  then have "filter (\<lambda>j. j \<noteq> i \<and> 0 < update_dist_table cfg robots t0 ! i ! j) [0..<n] =
    filter (\<lambda>j. j \<noteq> i \<and> 0 < pair_distance (robots ! i) (robots ! j) \<and>
                 pair_distance (robots ! i) (robots ! j) \<le> comm_range cfg) [0..<n]"
    by (rule filter_cong [OF refl])
  with i n show ?thesis by (simp add: neighbour_indices_def)
qed

lemma insort_key_cong:
  "\<forall>y\<in>set (x # ys). f y = g y \<Longrightarrow> insort_key f x ys = insort_key g x ys"
  by (induction ys) auto

lemma sort_key_cong_set: "\<forall>x\<in>set xs. f x = g x \<Longrightarrow> sort_key f xs = sort_key g xs"
proof (induction xs)
  case (Cons x xs)
  then have "sort_key f xs = sort_key g xs" by simp
  moreover have "\<forall>y\<in>set (x # sort_key g xs). f y = g y" using Cons.prems by simp
  ultimately show ?case by (simp add: insort_key_cong)
qed simp

lemma lf_frame_lists:
  assumes n: "robot_quantity cfg = n" and t0: "length (dist_table st) = n"
    "\<forall>a<n. length (dist_table st ! a) = n" and i: "i < n"
  shows "index_list (lf_frame cfg robots st) ! i =
      sort_key (\<lambda>j. pair_distance (robots ! i) (robots ! j))
        (filter (\<lambda>j. j \<noteq> i \<and> 0 < pair_distance (robots ! i) (robots ! j) \<and>
                     pair_distance (robots ! i) (robots ! j) \<le> comm_range cfg) [0..<n])"
    "status_list (lf_frame cfg robots st) ! i =
      map (\<lambda>j. status (robots ! j)) (index_list (lf_frame cfg robots st) ! i)"
proof -
  let ?t = "update_dist_table cfg robots (dist_table st)"
  let ?P = "\<lambda>j. j \<noteq> i \<and> 0 < pair_distance (robots ! i) (robots ! j) \<and>
                     pair_distance (robots ! i) (robots ! j) \<le> comm_range cfg"
  have "\<forall>j\<in>set (filter ?P [0..<n]). (?t ! i) ! j = pair_distance (robots ! i) (robots ! j)"
    using update_dist_table_nth(3) [OF n t0 i] by (auto simp: recorded_distance_def)
  then have "sort_key (nth (?t ! i)) (filter ?P [0..<n]) =
      sort_key (\<lambda>j. pair_distance (robots ! i) (robots ! j)) (filter ?P [0..<n])"
    by (rule sort_key_cong_set)
  with neighbour_indices_update [OF n t0 i]
  show "index_list (lf_frame cfg robots st) ! i =
      sort_key (\<lambda>j. pair_distance (robots ! i) (robots ! j)) (filter ?P [0..<n])"
    using i n by (simp add: lf_frame_def Let_def sort_index_lists_def sort_by_distance_sort_key)
  show "status_list (lf_frame cfg robots st) ! i =
      map (\<lambda>j. status (robots ! j)) (index_list (lf_frame cfg robots st) ! i)"
    using i n by (simp add: lf_frame_def Let_def status_lists_def)
qed

lemma lf_iteration_timer: "timer_last (lf_iteration cfg robots events ticks st) = timer_last st"
proof -
  have "timer_last (lf_handle_event e s) = timer_last s" for e s
    by (cases e) (simp_all add: Let_def)
  then have "timer_last (fold lf_handle_event es s) = timer_last s" for es s
    by (induction es arbitrary: s) simp_all
  then show ?thesis by (simp add: lf_iteration_def Let_def lf_frame_def)
qed

section \<open>Properties of a frame\<close>

text \<open>
  C29: after a frame, the neighbour list of robot \<open>i\<close> holds exactly the other robots
  at a positive distance within the communication range, ordered by distance with ties
  in index order, and its status list reads their statuses in that order.
\<close>

theorem lf_frame_neighbours:
  assumes "length (dist_table st) = robot_quantity cfg"
    and "\<forall>a<robot_quantity cfg. length (dist_table st ! a) = robot_quantity cfg"
    and "i < robot_quantity cfg"
  shows "index_list (lf_frame cfg robots st) ! i =
      sort_key (\<lambda>j. pair_distance (robots ! i) (robots ! j))
        (filter (\<lambda>j. j \<noteq> i \<and> 0 < pair_distance (robots ! i) (robots ! j) \<and>
                     pair_distance (robots ! i) (robots ! j) \<le> comm_range cfg) [0..<robot_quantity cfg])
    \<and> status_list (lf_frame cfg robots st) ! i =
      map (\<lambda>j. status (robots ! j)) (index_list (lf_frame cfg robots st) ! i)"
  using lf_frame_lists [OF refl assms] by blast

theorem lf_frame_neighbours_witness:
  "index_list (lf_frame \<lparr>robot_quantity = 3, comm_range = 7, frame_period = 100\<rparr>
      [\<lparr>pos = (0, 0), status = 0\<rparr>, \<lparr>pos = (2, 0), status = 1\<rparr>, \<lparr>pos = (1, 0), status = 2\<rparr>]
      (lf_init \<lparr>robot_quantity = 3, comm_range = 7, frame_period = 100\<rparr> 0)) ! 0 = [2, 1]
   \<and> status_list (lf_frame \<lparr>robot_quantity = 3, comm_range = 7, frame_period = 100\<rparr>
      [\<lparr>pos = (0, 0), status = 0\<rparr>, \<lparr>pos = (2, 0), status = 1\<rparr>, \<lparr>pos = (1, 0), status = 2\<rparr>]
      (lf_init \<lparr>robot_quantity = 3, comm_range = 7, frame_period = 100\<rparr> 0)) ! 0 = [2, 1]"
  using lf_frame_neighbours [where cfg = "\<lparr>robot_quantity = 3, comm_range = 7, frame_period = 100\<rparr>"
      and st = "lf_init \<lparr>robot_quantity = 3, comm_range = 7, frame_period = 100\<rparr> 0"
      and robots = "[\<lparr>pos = (0, 0), status = 0\<rparr>, \<lparr>pos = (2, 0), status = 1\<rparr>, \<lparr>pos = (1, 0), status = 2\<rparr>]"
      and i = 0]
  by (simp add: lf_init_def pair_distance_def upt_rec)

text \<open>
  The bubble sort of lines 100--111 is a stable sort by distance: it permutes the
  list, orders it by the recorded distances, and keeps robots at equal distance in their
  order in the input.
\<close>

theorem sort_by_distance_stable_sort:
  "mset (sort_by_distance drow idx) = mset idx
   \<and> sorted (map (nth drow) (sort_by_distance drow idx))
   \<and> (\<forall>d. filter (\<lambda>j. drow ! j = d) (sort_by_distance drow idx) = filter (\<lambda>j. drow ! j = d) idx)"
  by (simp add: sort_by_distance_sort_key sort_key_stable)

text \<open>
  C31: a frame's distance table is symmetric; off the diagonal it holds the distance of
  every pair within the communication range and \<open>-1\<close> for the others; the diagonal
  keeps its previous value.
\<close>

theorem update_dist_table_entries:
  assumes "length tbl = robot_quantity cfg" and "\<forall>a<robot_quantity cfg. length (tbl ! a) = robot_quantity cfg"
  shows "length (update_dist_table cfg robots tbl) = robot_quantity cfg
    \<and> (\<forall>a<robot_quantity cfg. length (update_dist_table cfg robots tbl ! a) = robot_quantity cfg
        \<and> update_dist_table cfg robots tbl ! a ! a = tbl ! a ! a)
    \<and> (\<forall>a<robot_quantity cfg. \<forall>b<robot_quantity cfg. a \<noteq> b \<longrightarrow>
        update_dist_table cfg robots tbl ! a ! b = update_dist_table cfg robots tbl ! b ! a
        \<and> update_dist_table cfg robots tbl ! a ! b =
          (let d = pair_distance (robots ! a) (robots ! b) in if d \<le> comm_range cfg then d else -1))"
proof -
  note E = update_dist_table_nth [OF refl assms, where robots = robots]
  have "update_dist_table cfg robots tbl ! a ! b = update_dist_table cfg robots tbl ! b ! a"
    if "a < robot_quantity cfg" "b < robot_quantity cfg" "a \<noteq> b" for a b
    using E(3) [OF that(1,2)] E(3) [OF that(2,1)] that(3) recorded_distance_sym [of cfg robots a b] by simp
  with E show ?thesis by (simp add: recorded_distance_def)
qed

theorem update_dist_table_entries_witness:
  "update_dist_table \<lparr>robot_quantity = 3, comm_range = 3, frame_period = 100\<rparr>
      [\<lparr>pos = (0, 0), status = 0\<rparr>, \<lparr>pos = (2, 0), status = 1\<rparr>, \<lparr>pos = (4, 0), status = 2\<rparr>]
      (replicate 3 (replicate 3 (-1))) ! 0 ! 1 = 2
   \<and> update_dist_table \<lparr>robot_quantity = 3, comm_range = 3, frame_period = 100\<rparr>
      [\<lparr>pos = (0, 0), status = 0\<rparr>, \<lparr>pos = (2, 0), status = 1\<rparr>, \<lparr>pos = (4, 0), status = 2\<rparr>]
      (replicate 3 (replicate 3 (-1))) ! 2 ! 0 = -1"
  using update_dist_table_entries [where cfg = "\<lparr>robot_quantity = 3, comm_range = 3, frame_period = 100\<rparr>"
      and robots = "[\<lparr>pos = (0, 0), status = 0\<rparr>, \<lparr>pos = (2, 0), status = 1\<rparr>, \<lparr>pos = (4, 0), status = 2\<rparr>]"
      and tbl = "replicate 3 (replicate 3 (-1))"]
  by (simp add: pair_distance_def)

text \<open>
  C32: two robots at the same position are recorded at distance \<open>0\<close>, within range, and
  yet neither lists the other as a neighbour: the test \<open>dist_table[i][j] > 0\<close> of line 97
  drops them with the out-of-range pairs.
\<close>

theorem lf_frame_coincident_excluded:
  assumes "length (dist_table st) = robot_quantity cfg"
    and "\<forall>a<robot_quantity cfg. length (dist_table st ! a) = robot_quantity cfg"
    and "i < robot_quantity cfg" "j < robot_quantity cfg" "i \<noteq> j"
    and "pos (robots ! i) = pos (robots ! j)" and "0 \<le> comm_range cfg"
  shows "dist_table (lf_frame cfg robots st) ! i ! j = 0 \<and> j \<notin> set (index_list (lf_frame cfg robots st) ! i)"
proof -
  have d: "pair_distance (robots ! i) (robots ! j) = 0"
    using assms(6) by (simp add: pair_distance_def)
  have "dist_table (lf_frame cfg robots st) ! i ! j = 0"
    using update_dist_table_nth(3) [OF refl assms(1,2) assms(3,4)] assms(5,7) d
    by (simp add: lf_frame_def Let_def recorded_distance_def)
  moreover have "j \<notin> set (index_list (lf_frame cfg robots st) ! i)"
    using lf_frame_lists(1) [OF refl assms(1,2,3)] d by simp
  ultimately show ?thesis ..
qed

theorem lf_frame_coincident_excluded_witness:
  "dist_table (lf_frame \<lparr>robot_quantity = 2, comm_range = 7, frame_period = 100\<rparr>
      [\<lparr>pos = (1, 1), status = 0\<rparr>, \<lparr>pos = (1, 1), status = 1\<rparr>]
      (lf_init \<lparr>robot_quantity = 2, comm_range = 7, frame_period = 100\<rparr> 0)) ! 0 ! 1 = 0
   \<and> index_list (lf_frame \<lparr>robot_quantity = 2, comm_range = 7, frame_period = 100\<rparr>
      [\<lparr>pos = (1, 1), status = 0\<rparr>, \<lparr>pos = (1, 1), status = 1\<rparr>]
      (lf_init \<lparr>robot_quantity = 2, comm_range = 7, frame_period = 100\<rparr> 0)) ! 0 = []"
  using lf_frame_coincident_excluded [where cfg = "\<lparr>robot_quantity = 2, comm_range = 7, frame_period = 100\<rparr>"
      and st = "lf_init \<lparr>robot_quantity = 2, comm_range = 7, frame_period = 100\<rparr> 0"
      and robots = "[\<lparr>pos = (1, 1), status = 0\<rparr>, \<lparr>pos = (1, 1), status = 1\<rparr>]" and i = 0 and j = 1]
  by (simp add: lf_init_def lf_frame_def Let_def sort_index_lists_def neighbour_indices_def
      sort_by_distance_def update_dist_table_def dist_step_def set_pair_def pair_distance_def upt_rec)

lemma lf_run_timer_unchanged: "timer_last (lf_run cfg robots steps st) = timer_last st"
  by (induction cfg robots steps st rule: lf_run.induct) (simp_all add: lf_iteration_timer)

lemma lf_frame_flags [simp]:
  "lf_pause (lf_frame cfg robots st) = lf_pause st" "lf_exit (lf_frame cfg robots st) = lf_exit st"
  "timer_last (lf_frame cfg robots st) = timer_last st"
  by (simp_all add: lf_frame_def Let_def)

lemma fold_other_events: "\<forall>e\<in>set events. e = OTHER_EVENT \<Longrightarrow> fold lf_handle_event events st = st"
  by (induction events) simp_all

text \<open>
  C33: \<open>timer_last\<close> is set once (line 57) and never again, so \<open>frame_period\<close> paces
  nothing: once a pass comes more than \<open>frame_period\<close> milliseconds after the start,
  every unpaused pass runs a frame, however close together the passes are. A run of
  passes without key events, all after that moment, is exactly one frame per pass.
\<close>

theorem lf_run_unpaced:
  assumes "\<not> lf_pause st" and "\<not> lf_exit st"
    and "\<forall>(events, ticks)\<in>set steps. (\<forall>e\<in>set events. e = OTHER_EVENT) \<and>
                                   timer_last st + frame_period cfg < ticks"
  shows "lf_run cfg robots steps st = (lf_frame cfg robots ^^ length steps) st"
  using assms
proof (induction steps arbitrary: st)
  case (Cons step steps)
  obtain events ticks where step: "step = (events, ticks)" by (cases step)
  with Cons.prems(3) have ev: "\<forall>e\<in>set events. e = OTHER_EVENT" and t: "timer_last st + frame_period cfg < ticks"
    by auto
  have it: "lf_iteration cfg robots events ticks st = lf_frame cfg robots st"
    using Cons.prems(1) t by (simp add: lf_iteration_def fold_other_events [OF ev])
  have "lf_run cfg robots steps (lf_frame cfg robots st) = (lf_frame cfg robots ^^ length steps) (lf_frame cfg robots st)"
    using Cons.prems by (intro Cons.IH) auto
  with Cons.prems(2) step it show ?case by (simp add: funpow_swap1)
qed simp

theorem lf_run_unpaced_witness:
  "\<not> lf_pause (lf_init \<lparr>robot_quantity = 2, comm_range = 7, frame_period = 100\<rparr> 0) \<and>
   \<not> lf_exit (lf_init \<lparr>robot_quantity = 2, comm_range = 7, frame_period = 100\<rparr> 0) \<and>
   list_all (\<lambda>(events, ticks). list_all (\<lambda>e. e = OTHER_EVENT) events \<and>
       timer_last (lf_init \<lparr>robot_quantity = 2, comm_range = 7, frame_period = 100\<rparr> 0) + 100 < ticks)
     [([], 101), ([OTHER_EVENT], 102)] \<and>
   lf_run \<lparr>robot_quantity = 2, comm_range = 7, frame_period = 100\<rparr>
       [\<lparr>pos = (0, 0), status = 0\<rparr>, \<lparr>pos = (2, 0), status = 1\<rparr>]
       [([], 101), ([OTHER_EVENT], 102)] (lf_init \<lparr>robot_quantity = 2, comm_range = 7, frame_period = 100\<rparr> 0) =
     lf_frame \<lparr>robot_quantity = 2, comm_range = 7, frame_period = 100\<rparr>
       [\<lparr>pos = (0, 0), status = 0\<rparr>, \<lparr>pos = (2, 0), status = 1\<rparr>]
       (lf_frame \<lparr>robot_quantity = 2, comm_range = 7, frame_period = 100\<rparr>
         [\<lparr>pos = (0, 0), status = 0\<rparr>, \<lparr>pos = (2, 0), status = 1\<rparr>]
         (lf_init \<lparr>robot_quantity = 2, comm_range = 7, frame_period = 100\<rparr> 0))"
proof -
  have h: "\<not> lf_pause (lf_init \<lparr>robot_quantity = 2, comm_range = 7, frame_period = 100\<rparr> 0)"
    "\<not> lf_exit (lf_init \<lparr>robot_quantity = 2, comm_range = 7, frame_period = 100\<rparr> 0)"
    "\<forall>(events, ticks)\<in>set [([], 101), ([OTHER_EVENT], 102)]. (\<forall>e\<in>set events. e = OTHER_EVENT) \<and>
      timer_last (lf_init \<lparr>robot_quantity = 2, comm_range = 7, frame_period = 100\<rparr> 0) +
        frame_period \<lparr>robot_quantity = 2, comm_range = 7, frame_period = 100\<rparr> < (ticks::int)"
    by (simp_all add: lf_init_def)
  from lf_run_unpaced [OF h, of "[\<lparr>pos = (0, 0), status = 0\<rparr>, \<lparr>pos = (2, 0), status = 1\<rparr>]"] h
  show ?thesis by (simp add: numeral_2_eq_2 lf_init_def)
qed

section \<open>The placement\<close>

lemma place_robots_bounds:
  assumes "\<forall>(r0, r1)\<in>set rands. 0 \<le> r0 \<and> r0 < 1 \<and> 0 \<le> r1 \<and> r1 < 1"
  shows "length (place_robots s rands) = length rands \<and>
    (\<forall>r\<in>set (place_robots s rands). 25 \<le> fst (pos r) \<and> fst (pos r) < 75 \<and>
                                     75 / 4 \<le> snd (pos r) \<and> snd (pos r) < 225 / 4)"
proof -
  have "25 \<le> ((r0 - 0.5) * distrib_coef + 0.5) * fst lf_world_size \<and>
      ((r0 - 0.5) * distrib_coef + 0.5) * fst lf_world_size < 75 \<and>
      75 / 4 \<le> ((r1 - 0.5) * distrib_coef + 0.5) * snd lf_world_size \<and>
      ((r1 - 0.5) * distrib_coef + 0.5) * snd lf_world_size < 225 / 4"
    if "(r0, r1) \<in> set rands" for r0 r1
  proof -
    from assms that have "0 \<le> r0" "r0 < 1" "0 \<le> r1" "r1 < 1" by auto
    then show ?thesis by (auto simp: lf_world_size_def distrib_coef_def field_simps)
  qed
  then show ?thesis by (auto simp: place_robots_def)
qed

end
