(* ===== verification/Loader.thy ===== *)
theory Loader
  imports Topology
begin

text \<open>
  The front end of \<open>probabilistic_convergence.py\<close> (lines 40--79): the option loop over
  the pairs \<open>getopt\<close> returns, with the file-existence check and the network size parsed
  from the file name, and the reading of the node positions from the file, one
  \<open>readline\<close> per pass of the \<open>while\<close> loop. The built-ins the code calls are modelled
  with Python 2 semantics: \<open>int()\<close> of a string (\<open>py_int\<close>), \<open>str.split(sep)\<close>
  (\<open>py_split\<close>) and \<open>file.readline()\<close> (\<open>py_readline\<close>). The file system is a map from
  file names in the network folder to their contents; \<open>getopt\<close> itself is a library
  call and its result is an input.
\<close>

section \<open>Python built-ins on strings\<close>

text \<open>The characters \<open>int()\<close> strips: space, tab, line feed, vertical tab, form feed, return.\<close>

definition py_whitespace :: "char \<Rightarrow> bool" where
  "py_whitespace c \<longleftrightarrow> of_char c = (32::nat) \<or> (9 \<le> (of_char c :: nat) \<and> (of_char c :: nat) \<le> 13)"

definition py_strip :: "string \<Rightarrow> string" where
  "py_strip s = rev (dropWhile py_whitespace (rev (dropWhile py_whitespace s)))"

definition digit_value :: "char \<Rightarrow> nat option" where
  "digit_value c = (let n = (of_char c :: nat) in if 48 \<le> n \<and> n \<le> 57 then Some (n - 48) else None)"

fun digits_value :: "nat \<Rightarrow> string \<Rightarrow> nat option" where
  "digits_value acc [] = Some acc"
| "digits_value acc (c # cs) =
     (case digit_value c of None \<Rightarrow> None | Some d \<Rightarrow> digits_value (10 * acc + d) cs)"

text \<open>
  \<open>int(s)\<close> for a string: optional whitespace, an optional sign (Python 2 also skips
  whitespace after it), one or more digits, optional whitespace.
\<close>

definition py_int :: "string \<Rightarrow> int result" where
  "py_int s =
     (let t = py_strip s
      in case t of
           [] \<Rightarrow> Inl ValueError
         | c # cs \<Rightarrow>
             (if c = CHR ''-'' \<or> c = CHR ''+'' then
                (let ds = dropWhile py_whitespace cs
                 in if ds = [] then Inl ValueError
                 else case digits_value 0 ds of
                        None \<Rightarrow> Inl ValueError
                      | Some n \<Rightarrow> Inr (if c = CHR ''-'' then - int n else int n))
              else case digits_value 0 t of None \<Rightarrow> Inl ValueError | Some n \<Rightarrow> Inr (int n)))"

text \<open>\<open>s.split(sep)\<close> with an explicit separator: every occurrence splits, empty pieces kept.\<close>

fun py_split :: "char \<Rightarrow> string \<Rightarrow> string list" where
  "py_split c [] = [[]]"
| "py_split c (x # xs) = (let r = py_split c xs in if x = c then [] # r else (x # hd r) # tl r)"

text \<open>\<open>f.readline()\<close>: the text up to and including the next line feed, or the rest.\<close>

definition py_readline :: "string \<Rightarrow> string \<times> string" where
  "py_readline s =
     (case dropWhile (\<lambda>c. c \<noteq> CHR 0x0A) s of
        [] \<Rightarrow> (s, [])
      | nl # rest \<Rightarrow> (takeWhile (\<lambda>c. c \<noteq> CHR 0x0A) s @ [nl], rest))"

section \<open>Reading the positions\<close>

text \<open>
  Lines 75--77: \<open>new_line[0:-1]\<close> drops the last character, \<open>split(' ')\<close> cuts at every
  space, and the two first pieces are converted in order.
\<close>

definition parse_position :: "string \<Rightarrow> position result" where
  "parse_position new_line =
     (let pos_str = py_split (CHR '' '') (take (length new_line - 1) new_line)
      in case py_get pos_str 0 of Inl e \<Rightarrow> Inl e | Inr s0 \<Rightarrow>
         (case py_int s0 of Inl e \<Rightarrow> Inl e | Inr x \<Rightarrow>
         (case py_get pos_str 1 of Inl e \<Rightarrow> Inl e | Inr s1 \<Rightarrow>
         (case py_int s1 of Inl e \<Rightarrow> Inl e | Inr y \<Rightarrow> Inr (x, y)))))"

text \<open>Lines 72--79: \<open>while len(new_line) != 0\<close>, appending one position per line.\<close>

function read_loop :: "string \<Rightarrow> position list \<Rightarrow> position list result" where
  "read_loop f nodes =
     (case py_readline f of (new_line, f') \<Rightarrow>
        if length new_line \<noteq> 0 then
          (case parse_position new_line of Inl e \<Rightarrow> Inl e | Inr pos \<Rightarrow> read_loop f' (nodes @ [pos]))
        else Inr nodes)"
  by pat_completeness auto
termination
proof (relation "measure (\<lambda>(f, nodes). length f)", goal_cases)
  case (2 f nodes new_line f' pos)
  let ?t = "takeWhile (\<lambda>c. c \<noteq> CHR 0x0A) f" and ?d = "dropWhile (\<lambda>c. c \<noteq> CHR 0x0A) f"
  have "length f = length ?t + length ?d" by (metis length_append takeWhile_dropWhile_id)
  with 2 have "length f' < length f"
    by (cases ?d) (auto simp: py_readline_def)
  then show ?case by simp
qed simp

declare read_loop.simps [simp del]

text \<open>
  Lines 71--72: \<open>open(net_filepath)\<close> raises \<open>IOError\<close> on a missing file (only a file
  named by \<open>-f\<close> is checked beforehand); the contents are then read line by line.
\<close>

definition read_nodes :: "(string \<Rightarrow> string option) \<Rightarrow> string \<Rightarrow> position list result" where
  "read_nodes fs net_filename =
     (case fs net_filename of None \<Rightarrow> Inl IOError | Some content \<Rightarrow> read_loop content [])"

section \<open>The command-line options\<close>

text \<open>Lines 40--45: the defaults, \<open>net_size = 30\<close>, the file \<open>30-1\<close>, \<open>deci_num = 30\<close>.\<close>

record cli_state =
  cli_net_size :: int
  cli_filename :: string
  cli_deci_num :: int

definition cli_default :: cli_state where
  "cli_default = \<lparr>cli_net_size = 30, cli_filename = ''30-1'', cli_deci_num = 30\<rparr>"

text \<open>
  Lines 56--69, one pair \<open>(opt, arg)\<close>: \<open>-f\<close> takes the file name, stops the program
  with \<open>sys.exit()\<close> when the file does not exist, and parses the number before the first
  dash; \<open>-d\<close> parses the number of decisions. \<open>getopt\<close> returns no other option.
\<close>

fun apply_option :: "(string \<Rightarrow> bool) \<Rightarrow> string \<times> string \<Rightarrow> cli_state \<Rightarrow> cli_state result" where
  "apply_option isfile (opt, arg) st =
     (if opt = ''-f'' then
        (let st' = st\<lparr>cli_filename := arg\<rparr>
         in if \<not> isfile arg then Inl SysExit
            else (case py_int (hd (py_split (CHR ''-'') arg)) of
                    Inl e \<Rightarrow> Inl e
                  | Inr n \<Rightarrow> Inr (st'\<lparr>cli_net_size := n\<rparr>)))
      else if opt = ''-d'' then
        (case py_int arg of Inl e \<Rightarrow> Inl e | Inr d \<Rightarrow> Inr (st\<lparr>cli_deci_num := d\<rparr>))
      else Inr st)"

definition parse_options :: "(string \<Rightarrow> bool) \<Rightarrow> (string \<times> string) list \<Rightarrow> cli_state result" where
  "parse_options isfile opts = fold_res (apply_option isfile) opts cli_default"

text \<open>Lines 40--79: the options, then the positions of the chosen file.\<close>

definition load_network ::
  "(string \<Rightarrow> string option) \<Rightarrow> (string \<times> string) list \<Rightarrow> (cli_state \<times> position list) result" where
  "load_network fs opts =
     (case parse_options (\<lambda>n. fs n \<noteq> None) opts of
        Inl e \<Rightarrow> Inl e
      | Inr st \<Rightarrow> (case read_nodes fs (cli_filename st) of Inl e \<Rightarrow> Inl e | Inr nodes \<Rightarrow> Inr (st, nodes)))"

section \<open>The file format\<close>

text \<open>
  A network file holds one line \<open>x y\<close> per node, integers in decimal, each line ended
  by a line feed. \<open>show_nat\<close> and \<open>show_int\<close> print a number as Python's \<open>str\<close> does.
\<close>

definition digit_char :: "nat \<Rightarrow> char" where
  "digit_char d = ''0123456789'' ! d"

fun show_nat :: "nat \<Rightarrow> string" where
  "show_nat n = (if n < 10 then [digit_char n] else show_nat (n div 10) @ [digit_char (n mod 10)])"

declare show_nat.simps [simp del]

definition show_int :: "int \<Rightarrow> string" where
  "show_int i = (if i < 0 then CHR ''-'' # show_nat (nat (- i)) else show_nat (nat i))"

definition show_line :: "position \<Rightarrow> string" where
  "show_line p = show_int (fst p) @ CHR '' '' # show_int (snd p) @ [CHR 0x0A]"

section \<open>Printing and parsing numbers\<close>

lemma of_char_digit_char [simp]:
  assumes "d < 10"
  shows "(of_char (digit_char d) :: nat) = 48 + d"
proof -
  have "d \<in> {0, 1, 2, 3, 4, 5, 6, 7, 8, 9}" using assms by auto
  then show ?thesis by (auto simp: digit_char_def)
qed

lemma digit_value_digit_char [simp]: "d < 10 \<Longrightarrow> digit_value (digit_char d) = Some d"
  by (simp add: digit_value_def)

lemma digit_char_not_special [simp]:
  assumes "d < 10"
  shows "\<not> py_whitespace (digit_char d)" "digit_char d \<noteq> CHR ''-''" "digit_char d \<noteq> CHR ''+''"
    "digit_char d \<noteq> CHR '' ''" "digit_char d \<noteq> CHR 0x0A"
proof -
  have n: "(of_char (digit_char d) :: nat) = 48 + d" using assms by simp
  show "\<not> py_whitespace (digit_char d)" using n by (simp add: py_whitespace_def)
  show "digit_char d \<noteq> CHR ''-''" "digit_char d \<noteq> CHR ''+''" "digit_char d \<noteq> CHR '' ''"
    "digit_char d \<noteq> CHR 0x0A"
    using n by (auto dest: arg_cong [where f = "of_char :: char \<Rightarrow> nat"])
qed

lemma digits_value_append:
  "digits_value acc (xs @ ys) = (case digits_value acc xs of None \<Rightarrow> None | Some a \<Rightarrow> digits_value a ys)"
  by (induction acc xs rule: digits_value.induct) (simp_all split: option.split)

lemma show_nat_digits: "c \<in> set (show_nat n) \<Longrightarrow> \<exists>d<10. c = digit_char d"
proof (induction n rule: show_nat.induct)
  case (1 n)
  have m: "n mod 10 < 10" by simp
  from "1.prems" have "c \<in> set (if n < 10 then [digit_char n] else show_nat (n div 10) @ [digit_char (n mod 10)])"
    by (subst (asm) show_nat.simps)
  note c = this
  show ?case
  proof (cases "n < 10")
    case True
    with c show ?thesis by auto
  next
    case False
    with c have "c \<in> set (show_nat (n div 10)) \<or> c = digit_char (n mod 10)" by auto
    then show ?thesis
    proof
      assume "c \<in> set (show_nat (n div 10))"
      with "1.IH" False show ?thesis by blast
    next
      assume "c = digit_char (n mod 10)"
      with m(1) show ?thesis by blast
    qed
  qed
qed

lemma show_nat_ne [simp]: "show_nat n \<noteq> []"
  by (subst show_nat.simps) simp

lemma digits_value_show_nat [simp]: "digits_value 0 (show_nat n) = Some n"
proof (induction n rule: show_nat.induct)
  case (1 n)
  show ?case
  proof (cases "n < 10")
    case False
    then have "digits_value 0 (show_nat n) = digits_value (n div 10) [digit_char (n mod 10)]"
      using 1 by (subst show_nat.simps) (simp add: digits_value_append)
    then show ?thesis by simp
  qed (subst show_nat.simps, simp)
qed

lemma show_nat_not_special:
  "c \<in> set (show_nat n) \<Longrightarrow> \<not> py_whitespace c \<and> c \<noteq> CHR ''-'' \<and> c \<noteq> CHR ''+'' \<and> c \<noteq> CHR '' '' \<and> c \<noteq> CHR 0x0A"
  using show_nat_digits [of c n] by auto

lemma butlast_show_nat: "butlast (show_nat n) = (if n < 10 then [] else show_nat (n div 10))"
  by (subst show_nat.simps) simp

lemma dropWhile_none: "\<forall>c\<in>set s. \<not> P c \<Longrightarrow> dropWhile P s = s"
  by (induction s) auto

lemma py_strip_id: "\<forall>c\<in>set s. \<not> py_whitespace c \<Longrightarrow> py_strip s = s"
  by (simp add: py_strip_def dropWhile_none)

lemma show_int_chars:
  "c \<in> set (show_int i) \<Longrightarrow> \<not> py_whitespace c \<and> c \<noteq> CHR '' '' \<and> c \<noteq> CHR 0x0A"
  by (auto simp: show_int_def py_whitespace_def split: if_splits dest: show_nat_not_special)

lemma py_int_show_nat: "py_int (show_nat n) = Inr (int n)"
proof -
  obtain c cs where c: "show_nat n = c # cs" by (cases "show_nat n") simp_all
  then have "c \<in> set (show_nat n)" by simp
  from show_nat_not_special [OF this] have "c \<noteq> CHR ''-''" "c \<noteq> CHR ''+''" by simp_all
  moreover have "py_strip (show_nat n) = show_nat n" by (simp add: py_strip_id show_nat_not_special)
  ultimately show ?thesis using c digits_value_show_nat [of n] by (simp add: py_int_def)
qed

lemma py_int_show_int: "py_int (show_int i) = Inr i"
proof (cases "i < 0")
  case True
  have "py_strip (show_int i) = show_int i" by (simp add: py_strip_id show_int_chars)
  moreover have "dropWhile py_whitespace (show_nat (nat (- i))) = show_nat (nat (- i))"
    by (simp add: dropWhile_none show_nat_not_special)
  ultimately show ?thesis using True by (simp add: py_int_def show_int_def del: dropWhile_eq_Nil_conv)
next
  case False
  then have "show_int i = show_nat (nat i)" by (simp add: show_int_def)
  with False py_int_show_nat [of "nat i"] show ?thesis by simp
qed

section \<open>Splitting and reading lines\<close>

lemma py_split_none: "c \<notin> set xs \<Longrightarrow> py_split c xs = [xs]"
  by (induction xs) (auto simp: Let_def)

lemma py_split_at: "c \<notin> set xs \<Longrightarrow> py_split c (xs @ c # ys) = xs # py_split c ys"
proof (induction xs)
  case (Cons x xs)
  then show ?case by (cases "py_split c (xs @ c # ys)") (auto simp: Let_def)
qed simp

lemma py_readline_line:
  assumes "CHR 0x0A \<notin> set l"
  shows "py_readline (l @ CHR 0x0A # rest) = (l @ [CHR 0x0A], rest)"
proof -
  have P: "\<And>x. x \<in> set l \<Longrightarrow> x \<noteq> CHR 0x0A" using assms by auto
  then have "dropWhile (\<lambda>c. c \<noteq> CHR 0x0A) (l @ CHR 0x0A # rest) = CHR 0x0A # rest"
    by (simp add: dropWhile_append2)
  moreover from P have "takeWhile (\<lambda>c. c \<noteq> CHR 0x0A) (l @ CHR 0x0A # rest) = l"
    by (simp add: takeWhile_append2)
  ultimately show ?thesis by (simp add: py_readline_def)
qed

lemma py_readline_last:
  assumes "CHR 0x0A \<notin> set l"
  shows "py_readline l = (l, [])"
proof -
  have D: "dropWhile (\<lambda>c. c \<noteq> CHR 0x0A) l = []" using assms by (auto simp: dropWhile_eq_Nil_conv)
  show ?thesis by (simp only: py_readline_def D list.case)
qed

lemma show_line_split: "show_line p = (show_int (fst p) @ CHR '' '' # show_int (snd p)) @ [CHR 0x0A]"
  by (simp add: show_line_def)

lemma parse_position_fields:
  assumes "CHR '' '' \<notin> set a" "CHR '' '' \<notin> set b" "py_int a = Inr x" "py_int b = Inr y"
  shows "parse_position (a @ CHR '' '' # b @ [nl]) = Inr (x, y)"
  using assms by (simp add: parse_position_def py_split_at py_split_none)

lemma parse_position_show_line: "parse_position (show_line p) = Inr p"
  using parse_position_fields [of "show_int (fst p)" "show_int (snd p)" "fst p" "snd p" "CHR 0x0A"]
  by (auto simp: show_line_def py_int_show_int dest: show_int_chars)

lemma read_loop_step:
  assumes "CHR 0x0A \<notin> set l" and "parse_position (l @ [CHR 0x0A]) = Inr pos"
  shows "read_loop (l @ CHR 0x0A # rest) nodes = read_loop rest (nodes @ [pos])"
  by (subst read_loop.simps) (simp add: py_readline_line assms)

lemma read_loop_empty: "read_loop [] nodes = Inr nodes"
  by (subst read_loop.simps) (simp add: py_readline_def)

lemma read_loop_show_line: "read_loop (show_line p @ rest) nodes = read_loop rest (nodes @ [p])"
proof -
  have nl: "CHR 0x0A \<notin> set (show_int (fst p) @ CHR '' '' # show_int (snd p))"
    by (auto dest: show_int_chars)
  have "show_line p @ rest = (show_int (fst p) @ CHR '' '' # show_int (snd p)) @ CHR 0x0A # rest"
    by (simp add: show_line_def)
  moreover have "parse_position ((show_int (fst p) @ CHR '' '' # show_int (snd p)) @ [CHR 0x0A]) = Inr p"
    using parse_position_show_line [of p] by (simp only: show_line_split)
  ultimately show ?thesis by (simp only: read_loop_step [OF nl])
qed

lemma read_loop_show_lines:
  "read_loop (concat (map show_line ps) @ rest) nodes = read_loop rest (nodes @ ps)"
  by (induction ps arbitrary: nodes) (simp_all add: read_loop_show_line)

lemma py_int_Nil [simp]: "py_int [] = Inl ValueError"
  by (simp add: py_int_def py_strip_def)

lemma hd_split_show_nat: "hd (py_split (CHR ''-'') (show_nat n @ CHR ''-'' # k)) = show_nat n"
proof -
  have "CHR ''-'' \<notin> set (show_nat n)" by (auto dest: show_nat_not_special)
  then show ?thesis by (simp add: py_split_at)
qed

section \<open>Properties of the front end\<close>

text \<open>
  C16: loading a network file in the format \<open>x y\<close> per line, named \<open>n-k\<close> and chosen
  with \<open>-f\<close>, gives back the network size \<open>n\<close> of the name, the file name, the default
  number of decisions and exactly the positions written, in order.
\<close>

theorem load_network_roundtrip:
  assumes "fs (show_nat n @ CHR ''-'' # k) = Some (concat (map show_line ps))"
  shows "load_network fs [(''-f'', show_nat n @ CHR ''-'' # k)] =
    Inr (\<lparr>cli_net_size = int n, cli_filename = show_nat n @ CHR ''-'' # k, cli_deci_num = 30\<rparr>, ps)"
proof -
  have "parse_options (\<lambda>m. fs m \<noteq> None) [(''-f'', show_nat n @ CHR ''-'' # k)] =
      Inr \<lparr>cli_net_size = int n, cli_filename = show_nat n @ CHR ''-'' # k, cli_deci_num = 30\<rparr>"
    using assms by (simp add: parse_options_def cli_default_def hd_split_show_nat py_int_show_nat)
  moreover have "read_nodes fs (show_nat n @ CHR ''-'' # k) = Inr ps"
    using assms read_loop_show_lines [of ps "[]" "[]"] by (simp add: read_nodes_def read_loop_empty)
  ultimately show ?thesis by (simp add: load_network_def)
qed

theorem load_network_roundtrip_witness:
  "load_network (\<lambda>m. if m = ''3-1'' then Some (concat (map show_line [(0, 0), (1, -1), (2, 0)])) else None)
     [(''-f'', ''3-1'')] =
   Inr (\<lparr>cli_net_size = 3, cli_filename = ''3-1'', cli_deci_num = 30\<rparr>, [(0, 0), (1, -1), (2, 0)])"
proof -
  have n: "show_nat 3 @ CHR ''-'' # ''1'' = ''3-1''" by (simp add: show_nat.simps digit_char_def)
  show ?thesis
    using load_network_roundtrip [where n = 3 and k = "''1''" and ps = "[(0, 0), (1, -1), (2, 0)]"
        and fs = "\<lambda>m. if m = ''3-1'' then Some (concat (map show_line [(0, 0), (1, -1), (2, 0)])) else None"]
    by (simp only: n) simp
qed

text \<open>
  C30: a last line without its line feed loses its last character to \<open>new_line[0:-1]\<close>:
  a one-digit last coordinate becomes the empty string and \<open>int()\<close> raises
  \<open>ValueError\<close>; a longer one is silently read without its last digit.
\<close>

theorem read_loop_missing_newline:
  "read_loop (concat (map show_line ps) @ show_int x @ CHR '' '' # show_nat y) [] =
     (if y < 10 then Inl ValueError else Inr (ps @ [(x, int (y div 10))]))"
proof -
  let ?l = "show_int x @ CHR '' '' # show_nat y"
  have nl: "CHR 0x0A \<notin> set ?l" by (auto dest: show_int_chars show_nat_not_special)
  have sp: "CHR '' '' \<notin> set (show_int x)" by (auto dest: show_int_chars)
  have "take (length ?l - 1) ?l = butlast ?l" by (rule butlast_conv_take [symmetric])
  also have "\<dots> = show_int x @ CHR '' '' # butlast (show_nat y)" by (simp add: butlast_append)
  finally have take: "take (length ?l - 1) ?l = show_int x @ CHR '' '' # butlast (show_nat y)" .
  have "read_loop ?l ps = (case parse_position ?l of Inl e \<Rightarrow> Inl e | Inr pos \<Rightarrow> read_loop [] (ps @ [pos]))"
    by (subst read_loop.simps) (simp add: py_readline_last [OF nl])
  moreover have "parse_position ?l = (if y < 10 then Inl ValueError else Inr (x, int (y div 10)))"
  proof (cases "y < 10")
    case True
    then show ?thesis using sp unfolding parse_position_def take
      by (simp add: butlast_show_nat py_split_at py_int_show_int)
  next
    case False
    have "CHR '' '' \<notin> set (show_nat (y div 10))" by (auto dest: show_nat_not_special)
    with False sp show ?thesis unfolding parse_position_def take
      by (simp add: butlast_show_nat py_split_at py_split_none
          py_int_show_int py_int_show_nat)
  qed
  ultimately show ?thesis
    using read_loop_show_lines [of ps ?l "[]"] by (simp add: read_loop_empty)
qed

end
