(* ===== verification/Display.thy ===== *)
theory Display
  imports Subgroups
begin

text \<open>
  What the animation of \<open>probabilistic_convergence.py\<close> computes before it draws
  (lines 347--385): the regular connecting lines, the wider lines that mark the
  subgroups, the bar heights of the unipolarity graph, and the delay that paces the
  cycle. The pygame and matplotlib calls themselves are output; the model is the list
  of pairs, in the order the loops draw them, and the numbers passed to the calls.
\<close>

section \<open>The lines of the network\<close>

text \<open>Lines 349--353: every connected pair \<open>i < j\<close>, in the order of the two loops.\<close>

definition regular_lines :: "nat \<Rightarrow> nat list list \<Rightarrow> (node \<times> node) list" where
  "regular_lines net_size connections =
     concat (map (\<lambda>i. concat (map (\<lambda>j. if connections ! i ! j \<noteq> 0 then [(i, j)] else [])
                                   [Suc i..<net_size]))
                 [0..<net_size])"

text \<open>
  Lines 355--366: for every subgroup, every pair of positions \<open>i < j\<close> whose nodes are
  connected.
\<close>

definition subgroup_lines :: "nat list list \<Rightarrow> node list list \<Rightarrow> (node \<times> node) list" where
  "subgroup_lines connections subgroups =
     concat (map (\<lambda>sub. let sub_len = length sub in
        concat (map (\<lambda>i. concat (map (\<lambda>j. let i_node = sub ! i; j_node = sub ! j in
                                             if connections ! i_node ! j_node \<noteq> 0 then [(i_node, j_node)] else [])
                                      [Suc i..<sub_len]))
                    [0..<sub_len]))
       subgroups)"

section \<open>The unipolarity bars and the pacing\<close>

text \<open>Line 373: the height of node \<open>i\<close>'s bar is the probability of its dominant decision.\<close>

definition unipolarity :: "nat \<Rightarrow> matrix \<Rightarrow> nat list \<Rightarrow> real list" where
  "unipolarity net_size deci_dist deci_domi = map (\<lambda>i. deci_dist ! i ! (deci_domi ! i)) [0..<net_size]"

text \<open>
  Lines 378--383: the delay before the next pass, in milliseconds, when less than
  \<open>time_period\<close> has passed since \<open>time_last\<close>; none when the pass is overdue.
\<close>

definition frame_delay :: "int \<Rightarrow> int \<Rightarrow> int \<Rightarrow> int" where
  "frame_delay time_last time_now time_period =
     (let time_past = time_now - time_last
      in if time_now - time_last < time_period then time_period - time_past else 0)"

section \<open>Lemmas\<close>

lemma subgroup_lines_memI:
  assumes "g \<in> set subgroups" "i < j" "j < length g" "connections ! (g ! i) ! (g ! j) \<noteq> 0"
  shows "(g ! i, g ! j) \<in> set (subgroup_lines connections subgroups)"
  unfolding subgroup_lines_def Let_def
  by (rule concat_map_memI [where a = g], rule concat_map_memI [where a = i],
      rule concat_map_memI [where a = j]) (use assms in simp_all)

lemma mem_subgroup_lines:
  "(x, y) \<in> set (subgroup_lines connections subgroups) \<longleftrightarrow>
     (\<exists>g\<in>set subgroups. \<exists>i j. i < j \<and> j < length g \<and> x = g ! i \<and> y = g ! j \<and> connections ! x ! y \<noteq> 0)"
proof
  assume "(x, y) \<in> set (subgroup_lines connections subgroups)"
  then show "\<exists>g\<in>set subgroups. \<exists>i j. i < j \<and> j < length g \<and> x = g ! i \<and> y = g ! j \<and> connections ! x ! y \<noteq> 0"
    by (auto simp: subgroup_lines_def Let_def Suc_le_eq split: if_splits) blast
next
  assume "\<exists>g\<in>set subgroups. \<exists>i j. i < j \<and> j < length g \<and> x = g ! i \<and> y = g ! j \<and> connections ! x ! y \<noteq> 0"
  then show "(x, y) \<in> set (subgroup_lines connections subgroups)"
    using subgroup_lines_memI by blast
qed

lemma mem_regular_lines:
  "(x, y) \<in> set (regular_lines n connections) \<longleftrightarrow> x < y \<and> y < n \<and> connections ! x ! y \<noteq> 0"
  by (auto simp: regular_lines_def split: if_splits)

lemma matrix_of_lists_nth:
  "a < n \<Longrightarrow> b < n \<Longrightarrow> matrix_of_lists n conn ! a ! b = (if b \<in> set (conn ! a) then 1 else 0)"
  by (simp add: matrix_of_lists_def)

lemma component_decision:
  assumes "y \<in> component conn domi x"
  shows "domi ! y = domi ! x"
proof -
  from assms have "(x, y) \<in> (same_step conn domi)\<^sup>*" by (simp add: component_def)
  then show ?thesis by (induction rule: rtrancl_induct) (auto simp: same_step_def)
qed

lemma group_members_range:
  assumes "groups_inv n conn domi [] gs" and "g \<in> set gs" and "x \<in> set g"
  shows "x < n"
  using groups_invD(2) [OF assms(1)] assms(2,3) by auto

lemma group_members_decision:
  assumes "groups_inv n conn domi [] gs" and "g \<in> set gs" and "x \<in> set g" and "y \<in> set g"
  shows "domi ! x = domi ! y"
  using groups_invD(5) [OF assms(1,2)] assms(3,4) component_decision by metis

lemma group_of_node:
  assumes "groups_inv n conn domi [] gs" and "a < n"
  obtains g where "g \<in> set gs" "a \<in> set g"
  using groups_invD(2) [OF assms(1)] assms(2) by auto

lemma pair_in_group:
  assumes "x \<in> set g" "y \<in> set g" "x \<noteq> y"
  obtains i j where "i < j" "j < length g" "(g ! i = x \<and> g ! j = y) \<or> (g ! i = y \<and> g ! j = x)"
proof -
  obtain i j where ij: "i < length g" "g ! i = x" "j < length g" "g ! j = y"
    using assms(1,2) by (auto simp: in_set_conv_nth)
  with assms(3) have "i \<noteq> j" by auto
  then show ?thesis
  proof (cases "i < j")
    case True
    with ij that show ?thesis by blast
  next
    case False
    with \<open>i \<noteq> j\<close> have "j < i" by simp
    with ij that show ?thesis by blast
  qed
qed

lemma subgroup_lines_edges:
  assumes wf: "wf_adjacency n conn" and gi: "groups_inv n conn domi [] gs"
  shows "(\<lambda>(a, b). {a, b}) ` set (subgroup_lines (matrix_of_lists n conn) gs) =
    {{a, b} | a b. a < n \<and> b \<in> set (conn ! a) \<and> domi ! a = domi ! b}"
proof (intro equalityI subsetI)
  fix e assume "e \<in> (\<lambda>(a, b). {a, b}) ` set (subgroup_lines (matrix_of_lists n conn) gs)"
  then obtain x y where e: "e = {x, y}" and xy: "(x, y) \<in> set (subgroup_lines (matrix_of_lists n conn) gs)"
    by auto
  from xy obtain g i j where g: "g \<in> set gs" and ij: "i < j" "j < length g" "x = g ! i" "y = g ! j"
    and c: "matrix_of_lists n conn ! x ! y \<noteq> 0"
    by (auto simp: mem_subgroup_lines)
  from ij have xg: "x \<in> set g" and yg: "y \<in> set g" by auto
  note r = group_members_range [OF gi g]
  from c r [OF xg] r [OF yg] have "y \<in> set (conn ! x)" by (simp add: matrix_of_lists_nth split: if_splits)
  moreover have "domi ! x = domi ! y" by (rule group_members_decision [OF gi g xg yg])
  ultimately show "e \<in> {{a, b} | a b. a < n \<and> b \<in> set (conn ! a) \<and> domi ! a = domi ! b}"
    using e r [OF xg] by blast
next
  fix e assume "e \<in> {{a, b} | a b. a < n \<and> b \<in> set (conn ! a) \<and> domi ! a = domi ! b}"
  then obtain a b where e: "e = {a, b}" and a: "a < n" and ab: "b \<in> set (conn ! a)"
    and d: "domi ! a = domi ! b" by blast
  have b: "b < n" and ba: "a \<in> set (conn ! b)" and ne: "a \<noteq> b"
    using wf_adjacency_range [OF wf a ab] wf_adjacency_sym [OF wf a ab] wf_adjacency_irrefl [OF wf a] ab
    by auto
  obtain g where g: "g \<in> set gs" and ag: "a \<in> set g" by (rule group_of_node [OF gi a])
  have "(a, b) \<in> same_step conn domi"
    using a ab d wf_adjacency_length [OF wf] by (simp add: same_step_def)
  then have "b \<in> component conn domi a" by (simp add: component_def)
  with groups_inv_member_component [OF wf gi g ag] have bg: "b \<in> set g" by simp
  obtain i j where ij: "i < j" "j < length g" "(g ! i = a \<and> g ! j = b) \<or> (g ! i = b \<and> g ! j = a)"
    by (rule pair_in_group [OF ag bg ne])
  have ca: "matrix_of_lists n conn ! a ! b \<noteq> 0" "matrix_of_lists n conn ! b ! a \<noteq> 0"
    using a b ab ba by (simp_all add: matrix_of_lists_nth)
  from ij(3) have "(a, b) \<in> set (subgroup_lines (matrix_of_lists n conn) gs) \<or>
      (b, a) \<in> set (subgroup_lines (matrix_of_lists n conn) gs)"
  proof
    assume "g ! i = a \<and> g ! j = b"
    with subgroup_lines_memI [OF g ij(1,2)] ca(1) show ?thesis by simp
  next
    assume "g ! i = b \<and> g ! j = a"
    with subgroup_lines_memI [OF g ij(1,2)] ca(2) show ?thesis by simp
  qed
  then show "e \<in> (\<lambda>(a, b). {a, b}) ` set (subgroup_lines (matrix_of_lists n conn) gs)"
    using e by (auto simp: insert_commute intro: rev_image_eqI)
qed

lemma frame_delay_paces:
  "0 \<le> frame_delay time_last time_now time_period \<and>
   time_last + time_period \<le> time_now + frame_delay time_last time_now time_period"
  by (simp add: frame_delay_def Let_def)

lemma length_unipolarity [simp]: "length (unipolarity n deci_dist deci_domi) = n"
  by (simp add: unipolarity_def)

section \<open>What the animation shows\<close>

text \<open>
  C35: after the subgroup search on a well-formed topology, the wide subgroup lines of
  lines 355--366 are exactly the connections whose two nodes share their dominant
  decision, each as an unordered pair of nodes; the matrix is the one the lists were
  read from (\<open>matrix_lists_roundtrip\<close>).
\<close>

theorem subgroup_lines_same_decision:
  assumes "wf_adjacency n conn" and "length deci_domi = n"
    and "update_subgroups n conn deci_domi = Inr subgroups"
  shows "(\<lambda>(a, b). {a, b}) ` set (subgroup_lines (matrix_of_lists n conn) subgroups) =
    {{a, b} | a b. a < n \<and> b \<in> set (conn ! a) \<and> deci_domi ! a = deci_domi ! b}"
proof -
  from update_subgroups_correct [OF assms(1,2)] assms(3)
  have "groups_inv n conn deci_domi [] subgroups" by auto
  from subgroup_lines_edges [OF assms(1) this] show ?thesis .
qed

theorem subgroup_lines_same_decision_witness:
  "wf_adjacency 5 [[1], [0, 2], [1, 3], [2, 4], [3]] \<and> length [0, 0, 1, 1, 1::nat] = 5 \<and>
   update_subgroups 5 [[1], [0, 2], [1, 3], [2, 4], [3]] [0, 0, 1, 1, 1] = Inr [[0, 1], [2, 3, 4]] \<and>
   subgroup_lines (matrix_of_lists 5 [[1], [0, 2], [1, 3], [2, 4], [3]]) [[0, 1], [2, 3, 4]] = [(0, 1), (2, 3), (3, 4)] \<and>
   (\<lambda>(a, b). {a, b}) ` set (subgroup_lines (matrix_of_lists 5 [[1], [0, 2], [1, 3], [2, 4], [3]]) [[0, 1], [2, 3, 4]]) =
    {{a, b} | a b. a < 5 \<and> b \<in> set ([[1], [0, 2], [1, 3], [2, 4], [3]] ! a) \<and> [0, 0, 1, 1, 1::nat] ! a = [0, 0, 1, 1, 1] ! b}"
proof -
  have wf: "wf_adjacency 5 [[1], [0, 2], [1, 3], [2, 4], [3]]"
    by (simp add: wf_adjacency_def less_Suc_eq numeral_eq_Suc)
  have len: "length [0, 0, 1, 1, 1::nat] = 5" by simp
  have ev: "update_subgroups 5 [[1], [0, 2], [1, 3], [2, 4], [3]] [0, 0, 1, 1, 1] = Inr [[0, 1], [2, 3, 4]]"
    by code_simp
  have sl: "subgroup_lines (matrix_of_lists 5 [[1], [0, 2], [1, 3], [2, 4], [3]]) [[0, 1], [2, 3, 4]] =
      [(0, 1), (2, 3), (3, 4)]"
    by code_simp
  from subgroup_lines_same_decision [OF wf len ev] wf len ev sl show ?thesis by simp
qed

end
