(* ===== verification/Spec2Isabelle.thy ===== *)
theory Spec2Isabelle
  imports Round SearchLoop LineFormation Loader Display
begin

text \<open>
  \<^bold>\<open>A verification development of \<open>src/probabilistic_convergence.py\<close> and of the
  neighbour bookkeeping of \<open>src/line_formation.py\<close>.\<close>

  The program simulates a collective decision on a honeycomb network. Each node holds a
  probability distribution over \<open>deci_num\<close> decisions (a row of \<open>deci_dist\<close>). In every
  pass of the simulation cycle the program takes each node's dominant decision
  (\<open>np.argmax\<close>), splits the network into subgroups (maximal connected sets of nodes
  with the same dominant decision), records each node's subgroup size, and then updates
  every row: a node whose neighbours all share its decision takes the equal-weight
  average of its block and, when the block's rows are close, sharpens it with a linear
  multiplier over the ranks of its entries; any other node takes the subgroup-size
  weighted average. The development models all of this as executable HOL functions that
  return \<open>py_error + 'a\<close>, so every exception the Python code can raise is a value.

  \<^bold>\<open>Theories and the code they model.\<close>
  \<^item> \<open>Prelude\<close>: the exceptions (\<open>IndexError\<close>, \<open>ValueError\<close>, \<open>ZeroDivisionError\<close>,
    \<open>SysExit\<close>, \<open>IOError\<close>), checked list operations with Python's semantics (\<open>py_get\<close>,
    \<open>py_set\<close>, \<open>py_remove\<close>, \<open>py_max\<close>), loops that may raise (\<open>fold_res\<close>, \<open>map_res\<close>)
    and the list lemmas the components share.
  \<^item> \<open>Topology\<close>: lines 81--100. \<open>honeycomb_adjacent\<close>, \<open>connect\<close>, \<open>connect_row\<close>,
    \<open>connections_matrix\<close>, \<open>connection_lists_of\<close> and \<open>build_topology\<close> follow the
    two nested loops over the positions read from the file. \<open>wf_adjacency\<close> is the
    interface the other components assume. The construction is proved to compute the
    neighbour relation and to give a well-formed adjacency (C18). A file with fewer
    positions than the size in its name raises \<open>IndexError\<close> (C19). \<open>matrix_of_lists\<close>
    is the inverse direction of line 100: the matrix and the adjacency lists determine
    each other (\<open>matrix_lists_roundtrip\<close>, \<open>lists_matrix_roundtrip\<close>).
  \<^item> \<open>Subgroups\<close>: lines 214--266. \<open>member_search\<close> is the inner \<open>while p_index <
    len(p_members)\<close> loop, \<open>add_candidates\<close> the neighbour scan, \<open>find_subgroups\<close> the
    outer pool-draining loop, \<open>update_subgroups\<close> its start. \<open>assign_members\<close>,
    \<open>assign_sizes\<close> and \<open>update_subsizes\<close> are the size assignment with its
    \<open>traverse_list\<close> check and \<open>sys.exit\<close>. The search is refined against \<open>component\<close>,
    the reflexive-transitive closure of same-decision edges. Proved: a partition (C1),
    exactly the components (C2), and sizes equal to the component's cardinality (C3).
    Without topology validation, a self-loop at the first seed makes
    \<open>n_pool.remove\<close> raise \<open>ValueError\<close> on every topology (C4); a one-sided edge
    can too (\<open>one_sided_edge_example\<close>), but not always. The consistency check stops on a missing node (C25) and raises on a node
    assigned twice (C26).
  \<^item> \<open>SearchLoop\<close>: the same inner loop as a \<open>while_option\<close> over the loop's four
    variables (\<open>search_body\<close> is one pass of lines 233--251, \<open>search_guard\<close> the loop
    condition). Proved: the loop terminates on every input, errors included (C28), and
    agrees with the recursive \<open>member_search\<close> used by the other proofs (\<open>member_search_while_eq\<close>).
  \<^item> \<open>Distributions\<close>: rows as real lists, with the numpy row operations the code uses
    (\<open>vec_add\<close>, \<open>vec_sub\<close>, \<open>vec_scale\<close>, \<open>vec_div\<close>, \<open>normalize_dist\<close>,
    \<open>dist_diff\<close>). It also holds the initial normalisation (\<open>init_dist\<close>, lines 147--150),
    \<open>np.argmax\<close> (\<open>argmax\<close>, first maximal index, lines 152 and 212), the parameters
    as a record (\<open>sim_config\<close>) and the distribution predicates \<open>dist_ok\<close> and
    \<open>matrix_ok\<close>. Proved: the argmax takes a maximal decision and, on a tie, the
    lowest index (C23).
  \<^item> \<open>Sharpen\<close>: lines 302--333. \<open>bubble_sort_index\<close> is the comparison-by-comparison
    bubble sort that carries \<open>sort_index\<close>; \<open>multiplier\<close> and \<open>apply_multipliers\<close> are
    the rank multiplier with its division by \<open>deci_num - 1\<close>; \<open>sharpen\<close> is the whole
    branch. Proved: the bubble sort computes \<open>sort\<close> and a sorting permutation (C5);
    sharpening keeps a distribution a distribution (C6) and strictly raises a unique
    dominant probability below one (C7) and keeps the strict order of the entries (C22).
    The multipliers lie between the two ends and average \<open>1/deci_num\<close> (C21). Two
    deviations from the specification are proved: the bubble sort is stable (C34), so of
    two tied top decisions the one \<open>np.argmax\<close> picks ends strictly below the other (C8);
    and one decision raises \<open>ZeroDivisionError\<close> (C9).
  \<^item> \<open>Updater\<close>: lines 268--345. \<open>converged_scan\<close> is the convergence test with its
    \<open>break\<close>; \<open>sum_rows\<close> and \<open>sum_weighted_rows\<close> are the two averages; \<open>pair_diffs\<close>
    (over \<open>comb_pairs\<close>) and \<open>sharpen_step\<close> are the differences, their maximum and
    the sharpening decision; \<open>update_node\<close> is one node; \<open>evolve\<close> is the loop over all
    nodes with the snapshot \<open>deci_dist_t\<close>. \<open>next_row_snapshot\<close> and
    \<open>evolve_snapshot\<close> state the specification's snapshot rule. Proved: the
    normalisation invariant of a round (C10); divergent rows follow the snapshot rule
    (C11); the specification's weighted-average case (C13); a node's update writes only
    its own row (C27). Also proved: the code reads
    partly updated rows for the differences (\<open>evolve_reads_updated_rows\<close>), and an isolated node raises
    \<open>ValueError\<close> (C12).
  \<^item> \<open>Round\<close>: lines 145--212 and 386--388. \<open>sim_state\<close> holds the variables of the
    cycle; \<open>init_state\<close> is the initialisation; \<open>sim_round\<close> is one round;
    \<open>handle_event\<close> handles the pygame events; \<open>sim_iteration\<close> is one pass of \<open>while
    not sim_exit\<close>; \<open>sim_run\<close> runs the cycle over a finite sequence of event batches;
    \<open>sim_step\<close> and \<open>reachable\<close> give the same cycle as a transition system. Proved:
    the round composes the components (C14); the invariant holds on all reachable
    states, by rule induction (\<open>reachable_states_ok\<close>); the cycle never raises (C15); a paused pass
    changes nothing (\<open>paused_pass_keeps_state\<close>); the close event ends the cycle (C17); the specification's
    three-node scenario (\<open>small_path_scenario\<close>). With \<open>-d 0\<close> the initialisation raises \<open>ValueError\<close>
    (C24). A round produces a well-typed state: decisions in range, subgroup sizes in
    \<open>1..net_size\<close>, non-empty subgroups of node indices, rows of \<open>deci_num\<close> entries
    (\<open>sim_round_typed\<close>).
  \<^item> \<open>LineFormation\<close>: \<open>src/line_formation.py\<close>, lines 28--116. \<open>lf_config\<close> holds the
    constants, \<open>lf_state\<close> the module variables, \<open>lf_robot\<close> the two attributes of a
    robot the code reads. \<open>pair_distance\<close>, \<open>set_pair\<close>, \<open>dist_step\<close> and
    \<open>update_dist_table\<close> are the mirrored distance table (lines 77--90);
    \<open>neighbour_indices\<close> is the list of lines 92--97; \<open>sort_by_distance\<close> and
    \<open>sort_index_lists\<close> are the bubble sort of lines 99--111; \<open>status_lists\<close> is lines
    113--116; \<open>lf_frame\<close> is the frame, \<open>lf_handle_event\<close>, \<open>lf_iteration\<close> and
    \<open>lf_run\<close> the loop; \<open>place_robots\<close> is the placement of lines 26--46. Proved: the neighbour lists of a frame are the robots at a
    positive distance within range, stably sorted by distance, with their statuses
    (C29); the bubble sort is a stable sort (\<open>sort_by_distance_stable_sort\<close>); the table is symmetric with the
    distance or \<open>-1\<close> (C31). Two defects are proved: coincident robots do not see
    each other (C32), and \<open>timer_last\<close> is never updated, so once
    \<open>frame_period\<close> has passed every unpaused pass runs a frame (C33).
  \<^item> \<open>Loader\<close>: lines 40--79. \<open>cli_state\<close> and \<open>cli_default\<close> are the defaults;
    \<open>apply_option\<close> and \<open>parse_options\<close> the loop over the pairs \<open>getopt\<close> returns
    (the file check with \<open>sys.exit\<close>, \<open>int(name.split('-')[0])\<close>, \<open>int(arg)\<close>);
    \<open>read_nodes\<close>, \<open>read_loop\<close> and \<open>parse_position\<close> the \<open>open\<close> and the
    \<open>readline\<close> loop; \<open>load_network\<close> the two in sequence. Python 2's \<open>int()\<close>,
    \<open>str.split\<close> and \<open>readline\<close> are \<open>py_int\<close>, \<open>py_split\<close> and \<open>py_readline\<close>;
    \<open>show_nat\<close>, \<open>show_int\<close> and \<open>show_line\<close> describe the file format. The
    \<open>readline\<close> loop terminates by the length of the unread text. Proved: a file
    written in the format loads back with its size and positions (C16); a last line
    without its line feed loses its last digit or raises \<open>ValueError\<close> (C30).
  \<^item> \<open>Display\<close>: lines 347--385, what the animation computes: \<open>regular_lines\<close>,
    \<open>subgroup_lines\<close>, \<open>unipolarity\<close> (the bar heights) and \<open>frame_delay\<close>.
    Proved: after the subgroup search the subgroup lines are exactly the connections
    between nodes of the same dominant decision (C35),
    and the delay never lets a pass start before \<open>time_period\<close> has passed.
  \<^item> This theory: the composition from the network file to the cycle (C20).

  \<^bold>\<open>Bounds and termination.\<close> No fuel is used. The subgroup search terminates by the
  measure (pool length, unscanned frontier length); the \<open>while_option\<close> form of its
  inner loop is proved to return \<open>Some\<close> by the same lexicographic measure. Every other loop is structural
  recursion or a fold over a finite range, so every function is total, and "never
  raises" is stated as the existence of an \<open>Inr\<close> result. The cycle, unbounded in the
  program, is modelled over any finite sequence of passes: \<open>sim_run\<close> for every list of
  event batches, \<open>reachable\<close> for every finite run.

  \<^bold>\<open>Numbers.\<close> Floats are modelled as reals and \<open>np.power\<close> as \<open>powr\<close> (with
  \<open>0 powr p = 0\<close>, as numpy gives for a positive \<open>p\<close>). Rounding is not modelled, so the
  invariants are exact statements about the real-number algorithm. numpy's division by a
  zero sum (NaN with a warning) is not modelled; the invariant keeps every such sum
  positive. numpy rows have one length; the model's lists agree with that whenever
  \<open>matrix_ok\<close> holds.

  \<^bold>\<open>Not modelled.\<close> \<open>getopt\<close> itself (lines 47--54), a library call whose result
  is an input; the file system is a map from names in the network folder to contents.
  The random draw \<open>np.random.rand\<close> is an input matrix. The pygame and matplotlib
  calls, and the first drawing with the window geometry (lines 102--141 and 174--185),
  which needs \<open>honeycomb_to_cartesian\<close> and \<open>world_to_display\<close> from modules not in
  the repository; printing. None of them changes algorithmic state.
  In \<open>src/line_formation.py\<close>: the window setup (lines 9--21; the placement of
  lines 26--46 is \<open>place_robots\<close>, over the random draws as input), and the control rules of lines
  118--127, which stop at an \<open>if\<close> without a body and change no state. As written the
  file does not parse as Python (lines 106--107 split a condition; line 123 has no
  body) and imports \<open>line_formation_robot\<close> and \<open>line_formation_group\<close>, which are not
  in the repository; the model reads lines 106--107 as the comparison they spell out
  and models a robot by its \<open>pos\<close> and \<open>status\<close>.
\<close>

lemma isolated_free_nonempty:
  assumes "\<forall>i<n. conn ! i = filter (\<lambda>j. j \<noteq> i \<and> honeycomb_adjacent (nodes ! i) (nodes ! j)) [0..<n]"
    and "\<forall>i<n. \<exists>j<n. j \<noteq> i \<and> honeycomb_adjacent (nodes ! i) (nodes ! j)"
  shows "\<forall>i<n. conn ! i \<noteq> []"
proof (intro allI impI)
  fix i assume i: "i < n"
  with assms(2) obtain j where "j < n" "j \<noteq> i" "honeycomb_adjacent (nodes ! i) (nodes ! j)" by blast
  then have "j \<in> set (conn ! i)" using assms(1) i by simp
  then show "conn ! i \<noteq> []" by auto
qed

text \<open>
  C20. From the network file to the cycle: when the file holds at least
  \<open>net_size\<close> positions and every node has a lattice neighbour among them, the
  constructed topology feeds every component without an exception, for every sequence
  of event batches, and the invariant of the cycle holds at the end.
\<close>

theorem simulation_on_file_never_raises:
  assumes fl: "net_size cfg \<le> length nodes"
    and linked: "\<forall>i<net_size cfg. \<exists>j<net_size cfg. j \<noteq> i \<and> honeycomb_adjacent (nodes ! i) (nodes ! j)"
    and cfg: "2 \<le> deci_num cfg" "0 < dist_diff_thres cfg" "0 < dist_diff_power cfg"
    and raw: "raw_ok cfg raw"
  shows "\<exists>conn st. build_topology (net_size cfg) nodes = Inr conn \<and> init_state cfg raw = Inr st \<and>
           (\<forall>evss. \<exists>st'. sim_run cfg conn evss st = Inr st' \<and> state_ok cfg st')"
proof -
  from build_topology_ok [OF fl] obtain conn where
    conn: "build_topology (net_size cfg) nodes = Inr conn" "wf_adjacency (net_size cfg) conn"
      "\<forall>i<net_size cfg. conn ! i =
         filter (\<lambda>j. j \<noteq> i \<and> honeycomb_adjacent (nodes ! i) (nodes ! j)) [0..<net_size cfg]"
    by blast
  from isolated_free_nonempty [OF conn(3) linked] conn(2) cfg have net: "net_ok cfg conn"
    by (simp add: net_ok_def)
  from cfg(1) have "0 < deci_num cfg" by simp
  from init_state_ok [OF raw this] obtain st where st: "init_state cfg raw = Inr st" "state_ok cfg st"
    by blast
  from sim_run_ok [OF net st(2)] conn(1) st(1) show ?thesis by blast
qed

theorem simulation_on_file_never_raises_witness:
  "(\<exists>conn st. build_topology 2 [(0, 0), (1, 0)] = Inr conn \<and>
      init_state \<lparr>net_size = 2, deci_num = 2, dist_diff_thres = 3/10, dist_diff_power = 3/10\<rparr>
        [[1/2, 1/4], [1/8, 1/8]] = Inr st \<and>
      (\<forall>evss. \<exists>st'. sim_run \<lparr>net_size = 2, deci_num = 2, dist_diff_thres = 3/10, dist_diff_power = 3/10\<rparr>
         conn evss st = Inr st' \<and>
         state_ok \<lparr>net_size = 2, deci_num = 2, dist_diff_thres = 3/10, dist_diff_power = 3/10\<rparr> st'))"
proof -
  have "\<forall>i<2. \<exists>j<2. j \<noteq> i \<and> honeycomb_adjacent ([(0, 0), (1, 0)] ! i) ([(0, 0), (1, 0)] ! j)"
  proof (intro allI impI)
    fix i :: nat assume "i < 2"
    then consider "i = 0" | "i = 1" by linarith
    then show "\<exists>j<2. j \<noteq> i \<and> honeycomb_adjacent ([(0, 0), (1, 0)] ! i) ([(0, 0), (1, 0)] ! j)"
    proof cases
      case 1
      then show ?thesis by (intro exI [of _ 1]) (simp add: honeycomb_adjacent_def)
    next
      case 2
      then show ?thesis by (intro exI [of _ 0]) (simp add: honeycomb_adjacent_def)
    qed
  qed
  moreover have "raw_ok \<lparr>net_size = 2, deci_num = 2, dist_diff_thres = 3/10, dist_diff_power = 3/10\<rparr>
      [[1/2, 1/4], [1/8, 1/8]]" by (simp add: raw_ok_def)
  ultimately show ?thesis
    using simulation_on_file_never_raises [of "\<lparr>net_size = 2, deci_num = 2, dist_diff_thres = 3/10,
        dist_diff_power = 3/10\<rparr>" "[(0, 0), (1, 0)]" "[[1/2, 1/4], [1/8, 1/8]]"]
    by simp
qed
end
